(* ===== verification/Kernel_Prelude.thy ===== *)
theory Kernel_Prelude
  imports Main "HOL-Library.Word"
begin

text \<open>
  Shared vocabulary of the development: machine arithmetic on \<open>usize\<close> values kept as
  natural numbers with the 64-bit wrap-around written out, single bits of 64-bit words,
  searching a list by position, and the fact collections the component theories fill.

  Release builds of the kernel have overflow checks switched off, so a plain \<open>a + b\<close> of
  the source is \<open>uadd a b\<close> wherever the sum may leave the machine range; \<open>checked_add\<close>,
  \<open>saturating_sub\<close> and the like are the methods of the same name.
\<close>

unbundle bit_operations_syntax

type_synonym usize = nat
type_synonym u8 = "8 word"
type_synonym u16 = "16 word"
type_synonym u32 = "32 word"
type_synonym u64 = "64 word"

named_theorems arith_defs "machine arithmetic on usize"
named_theorems bits "single bits of machine words"

subsection \<open>usize arithmetic\<close>

definition USIZE :: nat where "USIZE = 2 ^ 64"

definition uadd :: "nat \<Rightarrow> nat \<Rightarrow> nat" where
  "uadd a b = (a + b) mod 2 ^ 64"

definition usub :: "nat \<Rightarrow> nat \<Rightarrow> nat" where
  "usub a b = (a + (2 ^ 64 - b mod 2 ^ 64)) mod 2 ^ 64"

definition umul :: "nat \<Rightarrow> nat \<Rightarrow> nat" where
  "umul a b = (a * b) mod 2 ^ 64"

definition unot :: "nat \<Rightarrow> nat" where
  "unot a = (2 ^ 64 - 1) - a"

definition checked_add :: "nat \<Rightarrow> nat \<Rightarrow> nat option" where
  "checked_add a b = (if a + b < 2 ^ 64 then Some (a + b) else None)"

definition checked_sub :: "nat \<Rightarrow> nat \<Rightarrow> nat option" where
  "checked_sub a b = (if b \<le> a then Some (a - b) else None)"

definition checked_mul :: "nat \<Rightarrow> nat \<Rightarrow> nat option" where
  "checked_mul a b = (if a * b < 2 ^ 64 then Some (a * b) else None)"

definition saturating_add :: "nat \<Rightarrow> nat \<Rightarrow> nat" where
  "saturating_add a b = min (a + b) (2 ^ 64 - 1)"

definition saturating_sub :: "nat \<Rightarrow> nat \<Rightarrow> nat" where
  "saturating_sub a b = a - b"

lemma uadd_small [simp]: "a + b < 2 ^ 64 \<Longrightarrow> uadd a b = a + b"
  by (simp add: uadd_def)

lemma uadd_bound [simp]: "uadd a b < 2 ^ 64"
  by (simp add: uadd_def)

lemma usub_small [simp]: "b \<le> a \<Longrightarrow> a < 2 ^ 64 \<Longrightarrow> usub a b = a - b"
proof -
  assume "b \<le> a" "a < 2 ^ 64"
  then have "a + (2 ^ 64 - b mod 2 ^ 64) = (a - b) + 2 ^ 64" by simp
  with \<open>a < 2 ^ 64\<close> show ?thesis by (simp add: usub_def)
qed

lemma usub_bound [simp]: "usub a b < 2 ^ 64"
  by (simp add: usub_def)

lemma umul_small [simp]: "a * b < 2 ^ 64 \<Longrightarrow> umul a b = a * b"
  by (simp add: umul_def)

lemma checked_add_Some [simp]:
  "checked_add a b = Some c \<longleftrightarrow> c = a + b \<and> a + b < 2 ^ 64"
  by (auto simp: checked_add_def)

lemma checked_add_None [simp]: "checked_add a b = None \<longleftrightarrow> 2 ^ 64 \<le> a + b"
  by (auto simp: checked_add_def)

lemma checked_sub_Some [simp]: "checked_sub a b = Some c \<longleftrightarrow> c = a - b \<and> b \<le> a"
  by (auto simp: checked_sub_def)

lemma checked_mul_Some [simp]:
  "checked_mul a b = Some c \<longleftrightarrow> c = a * b \<and> a * b < 2 ^ 64"
  by (auto simp: checked_mul_def)

subsection \<open>Alignment\<close>

lemma unot_mask: "k \<le> 64 \<Longrightarrow> unot (2 ^ k - 1) = push_bit k (mask (64 - k))"
proof -
  assume "k \<le> 64"
  then have "(2::nat) ^ 64 = 2 ^ k * 2 ^ (64 - k)" by (simp flip: power_add)
  then show ?thesis
    by (simp add: unot_def push_bit_eq_mult mask_eq_exp_minus_1 algebra_simps)
qed

lemma and_unot_mask:
  assumes "v < 2 ^ 64" "k \<le> 64"
  shows "v AND unot (2 ^ k - 1) = v - v mod 2 ^ k"
proof -
  have "v AND push_bit k (mask (64 - k)) = push_bit k (drop_bit k v)"
  proof (rule bit_eqI)
    fix n
    have "bit v n \<Longrightarrow> n < 64"
      using assms(1) by (metis bit_take_bit_iff take_bit_nat_eq_self)
    then show "bit (v AND push_bit k (mask (64 - k))) n = bit (push_bit k (drop_bit k v)) n"
      using assms(2) by (auto simp: bit_and_iff bit_push_bit_iff bit_mask_iff bit_drop_bit_eq)
  qed
  moreover have "push_bit k (drop_bit k v) = v - v mod 2 ^ k"
    by (simp add: push_bit_eq_mult drop_bit_eq_div minus_mod_eq_div_mult)
  ultimately show ?thesis using unot_mask [OF assms(2)] by simp
qed

lemma and_mask_mod: "v AND (2 ^ k - 1) = v mod (2 ^ k :: nat)"
  by (metis mask_eq_exp_minus_1 take_bit_eq_mask take_bit_eq_mod)

lemma sub_mod_dvd: "d dvd v - v mod (d::nat)"
  by (simp add: dvd_minus_mod)

subsection \<open>Bits of 64-bit words\<close>

definition word_bit :: "u64 \<Rightarrow> nat \<Rightarrow> bool" where
  "word_bit w i \<longleftrightarrow> drop_bit i w AND 1 \<noteq> 0"

definition word_set :: "u64 \<Rightarrow> nat \<Rightarrow> u64" where
  "word_set w i = w OR push_bit i 1"

definition word_clear :: "u64 \<Rightarrow> nat \<Rightarrow> u64" where
  "word_clear w i = w AND NOT (push_bit i 1)"

lemma word_bit_iff [bits]: "word_bit w i \<longleftrightarrow> bit w i"
  by (metis and_one_eq bit_iff_odd_drop_bit odd_iff_mod_2_eq_one parity_cases word_bit_def zero_neq_one)

lemma bit_word_set [bits]: "i < 64 \<Longrightarrow> bit (word_set w i) j \<longleftrightarrow> j = i \<or> bit w j"
  by (auto simp: word_set_def bit_or_iff bit_exp_iff)

lemma bit_word_clear [bits]: "bit (word_clear w i) j \<longleftrightarrow> j \<noteq> i \<and> bit w j"
  using bit_imp_le_length [of w j]
  by (auto simp: word_clear_def bit_and_iff bit_not_iff bit_exp_iff)

lemma div_mod_64_eq: "(i::nat) div 64 = j div 64 \<Longrightarrow> i mod 64 = j mod 64 \<Longrightarrow> i = j"
  by (metis div_mult_mod_eq)

subsection \<open>Searching by position\<close>

fun position :: "('a \<Rightarrow> bool) \<Rightarrow> 'a list \<Rightarrow> nat option" where
  "position P [] = None"
| "position P (x # xs) = (if P x then Some 0 else map_option Suc (position P xs))"

lemma position_None: "position P xs = None \<longleftrightarrow> (\<forall>x\<in>set xs. \<not> P x)"
  by (induction xs) auto

lemma position_SomeD:
  "position P xs = Some i \<Longrightarrow> i < length xs \<and> P (xs ! i) \<and> (\<forall>j<i. \<not> P (xs ! j))"
proof (induction xs arbitrary: i)
  case (Cons x xs)
  then show ?case
    by (cases i) (auto simp: less_Suc_eq_0_disj split: if_splits)
qed simp

lemma position_SomeI:
  "i < length xs \<Longrightarrow> P (xs ! i) \<Longrightarrow> (\<forall>j<i. \<not> P (xs ! j)) \<Longrightarrow> position P xs = Some i"
proof (induction xs arbitrary: i)
  case (Cons x xs)
  show ?case
  proof (cases i)
    case 0
    then show ?thesis using Cons.prems by simp
  next
    case (Suc k)
    have "\<not> P x" using Cons.prems(3) Suc by fastforce
    moreover have "position P xs = Some k"
      using Cons.prems Suc by (intro Cons.IH) (simp, simp, fastforce)
    ultimately show ?thesis using Suc by simp
  qed
qed simp

lemma position_Some_iff:
  "position P xs = Some i \<longleftrightarrow> i < length xs \<and> P (xs ! i) \<and> (\<forall>j<i. \<not> P (xs ! j))"
  using position_SomeD position_SomeI by metis

lemmas position_simps = position_None position_Some_iff

lemma unique_first:
  assumes "\<And>i j. i < length xs \<Longrightarrow> j < length xs \<Longrightarrow> P (xs ! i) \<Longrightarrow> P (xs ! j) \<Longrightarrow> i = j"
    "i < length xs" "P (xs ! i)" "j < i"
  shows "\<not> P (xs ! j)"
proof
  assume "P (xs ! j)"
  then have "j = i" using assms(1) [of j i] assms(2,3,4) by simp
  then show False using assms(4) by simp
qed

lemma find_unique_iff:
  assumes "\<And>i j. i < length xs \<Longrightarrow> j < length xs \<Longrightarrow> P (xs ! i) \<Longrightarrow> P (xs ! j) \<Longrightarrow> i = j"
  shows "find P xs = Some x \<longleftrightarrow> (\<exists>i<length xs. P (xs ! i) \<and> x = xs ! i)"
  unfolding find_Some_iff using unique_first [of xs P, OF assms] by blast

lemma position_unique_iff:
  assumes "\<And>i j. i < length xs \<Longrightarrow> j < length xs \<Longrightarrow> P (xs ! i) \<Longrightarrow> P (xs ! j) \<Longrightarrow> i = j"
  shows "position P xs = Some i \<longleftrightarrow> i < length xs \<and> P (xs ! i)"
  unfolding position_Some_iff using unique_first [of xs P, OF assms] by blast

lemma option_eqI: "(\<And>x. f = Some x \<longleftrightarrow> g = Some x) \<Longrightarrow> f = g"
  by (cases f; cases g) auto

subsection \<open>The first element, if any\<close>

definition hd_opt :: "'a list \<Rightarrow> 'a option" where
  "hd_opt xs = (case xs of [] \<Rightarrow> None | x # _ \<Rightarrow> Some x)"

lemma hd_opt_simps [simp]: "hd_opt [] = None" "hd_opt (x # xs) = Some x"
  by (simp_all add: hd_opt_def)

lemma hd_opt_iff [simp]: "hd_opt xs = None \<longleftrightarrow> xs = []"
  by (cases xs) auto

lemma length_filter_all: "length (filter P xs) = length xs \<longleftrightarrow> (\<forall>x\<in>set xs. P x)"
proof (induction xs)
  case (Cons x xs)
  have "length (filter P xs) \<noteq> Suc (length xs)" using length_filter_le [of P xs] by linarith
  then show ?case using Cons by (cases "P x") auto
qed simp

end
