(* ===== verification/Fifo.thy ===== *)
theory Fifo
  imports Kernel_Prelude
begin

text \<open>
  The interface of a bounded first-in first-out queue and the ring-of-slots representation
  that two components use (\<open>lib::ring_buffer\<close> and the message queue of an IPC port).  A
  provider gives an invariant, the sequence of queued items, an enqueue that fails exactly
  when the queue is full and a dequeue that fails exactly when it is empty; the client facts
  of the interface say what a burst of enqueues followed by dequeues returns.
\<close>

named_theorems ring_facts "ring-of-slots representation"

subsection \<open>The queue interface\<close>

locale bounded_fifo =
  fixes inv :: "'q \<Rightarrow> bool"
    and items :: "'q \<Rightarrow> 'a list"
    and enq :: "'q \<Rightarrow> 'a \<Rightarrow> 'q option"
    and deq :: "'q \<Rightarrow> ('a \<times> 'q) option"
    and cap :: nat
  assumes cap_bound: "inv q \<Longrightarrow> length (items q) \<le> cap"
    and enq_None: "inv q \<Longrightarrow> enq q x = None \<longleftrightarrow> length (items q) = cap"
    and enq_Some: "inv q \<Longrightarrow> enq q x = Some q' \<Longrightarrow> inv q' \<and> items q' = items q @ [x]"
    and deq_None: "inv q \<Longrightarrow> deq q = None \<longleftrightarrow> items q = []"
    and deq_Some: "inv q \<Longrightarrow> deq q = Some (x, q') \<Longrightarrow> inv q' \<and> items q = x # items q'"
begin

primrec enq_all :: "'q \<Rightarrow> 'a list \<Rightarrow> 'q option" where
  "enq_all q [] = Some q"
| "enq_all q (x # xs) = (case enq q x of None \<Rightarrow> None | Some q' \<Rightarrow> enq_all q' xs)"

primrec deq_all :: "'q \<Rightarrow> nat \<Rightarrow> ('a list \<times> 'q) option" where
  "deq_all q 0 = Some ([], q)"
| "deq_all q (Suc n) =
    (case deq q of None \<Rightarrow> None
     | Some (x, q') \<Rightarrow> map_option (\<lambda>(xs, q''). (x # xs, q'')) (deq_all q' n))"

lemma enq_all_ok:
  "inv q \<Longrightarrow> length (items q) + length xs \<le> cap \<Longrightarrow>
    \<exists>q'. enq_all q xs = Some q' \<and> inv q' \<and> items q' = items q @ xs"
proof (induction xs arbitrary: q)
  case (Cons x xs)
  then obtain q1 where q1: "enq q x = Some q1"
    using enq_None [of q x] by (cases "enq q x") auto
  then have "inv q1" "items q1 = items q @ [x]" using enq_Some Cons.prems(1) by blast+
  with Cons.IH [of q1] Cons.prems q1 show ?case by auto
qed simp

lemma enq_all_overflow:
  "inv q \<Longrightarrow> cap < length (items q) + length xs \<Longrightarrow> enq_all q xs = None"
proof (induction xs arbitrary: q)
  case Nil
  then show ?case using cap_bound by fastforce
next
  case (Cons x xs)
  show ?case
  proof (cases "enq q x")
    case (Some q1)
    then have "inv q1" "items q1 = items q @ [x]" using enq_Some Cons.prems(1) by blast+
    with Cons.IH [of q1] Cons.prems Some show ?thesis by simp
  qed simp
qed

lemma deq_all_ok:
  "inv q \<Longrightarrow> n \<le> length (items q) \<Longrightarrow>
    \<exists>q'. deq_all q n = Some (take n (items q), q') \<and> inv q' \<and> items q' = drop n (items q)"
proof (induction n arbitrary: q)
  case (Suc n)
  then obtain x q1 where q1: "deq q = Some (x, q1)"
    using deq_None [of q] by (cases "deq q") auto
  then have "inv q1" "items q = x # items q1" using deq_Some Suc.prems(1) by blast+
  with Suc.IH [of q1] Suc.prems q1 show ?case by auto
qed simp

lemma fifo_order:
  assumes "inv q" "items q = []" "length xs \<le> cap"
  shows "\<exists>q1 q2. enq_all q xs = Some q1 \<and> deq_all q1 (length xs) = Some (xs, q2) \<and> items q2 = []"
  using enq_all_ok [of q xs] deq_all_ok [of _ "length xs"] assms by fastforce

end

subsection \<open>A ring of slots as a list\<close>

definition ring_count :: "nat \<Rightarrow> nat \<Rightarrow> nat \<Rightarrow> nat" where
  "ring_count N h t = (t + N - h) mod N"

definition ring_items :: "'a option list \<Rightarrow> nat \<Rightarrow> nat \<Rightarrow> 'a list" where
  "ring_items buf h t =
    map (\<lambda>i. the (buf ! ((h + i) mod length buf))) [0..<ring_count (length buf) h t]"

definition ring_ok :: "nat \<Rightarrow> 'a option list \<Rightarrow> nat \<Rightarrow> nat \<Rightarrow> bool" where
  "ring_ok N buf h t \<longleftrightarrow> length buf = N \<and> h < N \<and> t < N \<and>
    (\<forall>i<ring_count N h t. buf ! ((h + i) mod N) \<noteq> None)"

lemma ring_count_alt [ring_facts]:
  "h < N \<Longrightarrow> t < N \<Longrightarrow> ring_count N h t = (if h \<le> t then t - h else t + N - h)"
  by (auto simp: ring_count_def mod_if)

lemma ring_step_mod [ring_facts]: "(t::nat) < N \<Longrightarrow> Suc t mod N = (if Suc t = N then 0 else Suc t)"
  by auto

lemma ring_idx [ring_facts]:
  "(h::nat) < N \<Longrightarrow> i < N \<Longrightarrow> (h + i) mod N = (if h + i < N then h + i else h + i - N)"
  by (auto simp: mod_if)

lemma ring_length: "length buf = N \<Longrightarrow> length (ring_items buf h t) = ring_count N h t"
  by (simp add: ring_items_def)

lemma ring_full: "ring_ok N buf h t \<Longrightarrow> (t + 1) mod N = h \<longleftrightarrow> ring_count N h t = N - 1"
  by (auto simp: ring_ok_def ring_count_alt ring_step_mod split: if_splits)

lemma ring_empty: "ring_ok N buf h t \<Longrightarrow> ring_count N h t = 0 \<longleftrightarrow> h = t"
  by (auto simp: ring_ok_def ring_count_alt split: if_splits)

lemma ring_count_bound: "ring_ok N buf h t \<Longrightarrow> ring_count N h t \<le> N - 1"
  by (auto simp: ring_ok_def ring_count_alt split: if_splits)

lemma ring_count_push:
  "h < N \<Longrightarrow> t < N \<Longrightarrow> (t + 1) mod N \<noteq> h \<Longrightarrow>
    ring_count N h ((t + 1) mod N) = Suc (ring_count N h t)"
  by (auto simp: ring_count_alt ring_step_mod split: if_splits)

lemma ring_count_pop:
  "h < N \<Longrightarrow> t < N \<Longrightarrow> h \<noteq> t \<Longrightarrow>
    ring_count N h t = Suc (ring_count N ((h + 1) mod N) t)"
  by (auto simp: ring_count_alt ring_step_mod split: if_splits)

lemma ring_slot_free:
  "h < N \<Longrightarrow> t < N \<Longrightarrow> i < ring_count N h t \<Longrightarrow> (h + i) mod N \<noteq> t"
  by (auto simp: ring_count_alt ring_idx split: if_splits)

lemma ring_slot_tail:
  "h < N \<Longrightarrow> t < N \<Longrightarrow> (h + ring_count N h t) mod N = t"
  by (auto simp: ring_count_alt ring_idx split: if_splits)

lemma ring_slot_next:
  "((h + 1) mod N + i) mod N = (h + Suc i) mod (N::nat)"
  by (simp add: mod_add_left_eq)

lemma ring_slot_head:
  "h < N \<Longrightarrow> t < N \<Longrightarrow> Suc i < ring_count N h t \<Longrightarrow> (h + Suc i) mod N \<noteq> h"
  by (auto simp: ring_count_alt ring_idx mod_Suc split: if_splits)

lemma ring_push_ok:
  assumes "ring_ok N buf h t" "(t + 1) mod N \<noteq> h"
  shows "ring_ok N (buf[t := Some x]) h ((t + 1) mod N)"
  using assms ring_count_push [of h N t] ring_slot_free [of h N t] ring_slot_tail [of h N t]
  unfolding ring_ok_def by (auto simp: nth_list_update less_Suc_eq)

lemma ring_push_items:
  assumes "ring_ok N buf h t" "(t + 1) mod N \<noteq> h"
  shows "ring_items (buf[t := Some x]) h ((t + 1) mod N) = ring_items buf h t @ [x]"
proof -
  have *: "h < N" "t < N" "length buf = N" using assms(1) by (auto simp: ring_ok_def)
  have "map (\<lambda>i. the (buf[t := Some x] ! ((h + i) mod N))) [0..<ring_count N h t] =
        map (\<lambda>i. the (buf ! ((h + i) mod N))) [0..<ring_count N h t]"
    using ring_slot_free [OF *(1,2)] by (intro map_cong refl) (metis atLeastLessThan_iff nth_list_update_neq set_upt)
  then show ?thesis
    using ring_count_push [OF *(1,2) assms(2)] ring_slot_tail [OF *(1,2)] *
    by (simp add: ring_items_def)
qed

lemma ring_pop_ok:
  assumes "ring_ok N buf h t" "h \<noteq> t"
  shows "ring_ok N (buf[h := None]) ((h + 1) mod N) t"
proof -
  have *: "h < N" "t < N" "length buf = N" using assms(1) by (auto simp: ring_ok_def)
  then have c: "ring_count N h t = Suc (ring_count N ((h + 1) mod N) t)"
    using ring_count_pop assms(2) by blast
  have "buf[h := None] ! (((h + 1) mod N + i) mod N) \<noteq> None"
    if "i < ring_count N ((h + 1) mod N) t" for i
  proof -
    have i: "Suc i < ring_count N h t" using that c by simp
    then have "buf ! ((h + Suc i) mod N) \<noteq> None" using assms(1) by (auto simp: ring_ok_def)
    then show ?thesis
      using ring_slot_head [OF *(1,2) i] ring_slot_next [of h N i] * by simp
  qed
  then show ?thesis using * by (auto simp: ring_ok_def)
qed

lemma ring_pop_items:
  assumes "ring_ok N buf h t" "h \<noteq> t"
  shows "\<exists>x. buf ! h = Some x \<and>
    ring_items buf h t = x # ring_items (buf[h := None]) ((h + 1) mod N) t"
proof -
  have *: "h < N" "t < N" "length buf = N" using assms(1) by (auto simp: ring_ok_def)
  then have c: "ring_count N h t = Suc (ring_count N ((h + 1) mod N) t)"
    using ring_count_pop assms(2) by blast
  from assms(1) c have "buf ! ((h + 0) mod N) \<noteq> None" unfolding ring_ok_def by (metis zero_less_Suc)
  then obtain x where x: "buf ! h = Some x" using * by auto
  have "map (\<lambda>i. the (buf ! ((h + Suc i) mod N))) [0..<ring_count N ((h + 1) mod N) t] =
        map (\<lambda>i. the (buf[h := None] ! (((h + 1) mod N + i) mod N)))
          [0..<ring_count N ((h + 1) mod N) t]"
  proof (rule map_cong [OF refl])
    fix i assume "i \<in> set [0..<ring_count N ((h + 1) mod N) t]"
    then have i: "Suc i < ring_count N h t" using c by simp
    show "the (buf ! ((h + Suc i) mod N)) = the (buf[h := None] ! (((h + 1) mod N + i) mod N))"
      using ring_slot_head [OF *(1,2) i] ring_slot_next [of h N i] * by simp
  qed
  then show ?thesis
    using x c * by (simp add: ring_items_def upt_conv_Cons map_Suc_upt [symmetric] comp_def
        del: upt_Suc)
qed

lemmas ring_push_facts = ring_push_ok ring_push_items
lemmas ring_pop_facts = ring_pop_ok ring_pop_items

end
