(* ===== verification/Kernel_Lib.thy ===== *)
theory Kernel_Lib
  imports Fifo
begin

text \<open>
  The shared kernel library \<open>lib/src\<close>: address alignment, the fixed-size bitmap and the
  single-producer ring buffer.  The bitmap is a list of \<open>u64\<close> words, the ring a list of
  optional slots with head and tail indices.  The ring is shown to be a bounded FIFO by
  interpreting the queue interface; an index outside the bitmap is the panic \<open>None\<close>.
\<close>

subsection \<open>Alignment (lib.rs)\<close>

definition align_up :: "usize \<Rightarrow> usize \<Rightarrow> usize" where
  "align_up v align = usub (uadd v align) 1 AND unot (usub align 1)"

definition align_down :: "usize \<Rightarrow> usize \<Rightarrow> usize" where
  "align_down v align = v AND unot (usub align 1)"

subsection \<open>Bitmap (bitmap.rs)\<close>

record bitmap =
  words :: "u64 list"

definition bitmap_new :: "nat \<Rightarrow> bitmap" where
  "bitmap_new N = \<lparr>words = replicate N 0\<rparr>"

definition bitmap_set :: "bitmap \<Rightarrow> usize \<Rightarrow> bitmap option" where
  "bitmap_set b i =
    (if i div 64 < length (words b)
     then Some (b\<lparr>words := (words b)[i div 64 := word_set (words b ! (i div 64)) (i mod 64)]\<rparr>)
     else None)"

definition bitmap_clear :: "bitmap \<Rightarrow> usize \<Rightarrow> bitmap option" where
  "bitmap_clear b i =
    (if i div 64 < length (words b)
     then Some (b\<lparr>words := (words b)[i div 64 := word_clear (words b ! (i div 64)) (i mod 64)]\<rparr>)
     else None)"

definition bitmap_get :: "bitmap \<Rightarrow> usize \<Rightarrow> bool option" where
  "bitmap_get b i =
    (if i div 64 < length (words b) then Some (word_bit (words b ! (i div 64)) (i mod 64)) else None)"

definition trailing_ones :: "u64 \<Rightarrow> nat" where
  "trailing_ones w = length (takeWhile (bit w) [0..<64])"

fun first_clear_from :: "nat \<Rightarrow> u64 list \<Rightarrow> usize option" where
  "first_clear_from i [] = None"
| "first_clear_from i (w # ws) =
    (if w \<noteq> NOT 0 then Some (i * 64 + trailing_ones w) else first_clear_from (i + 1) ws)"

definition first_clear :: "bitmap \<Rightarrow> usize option" where
  "first_clear b = first_clear_from 0 (words b)"

definition bitmap_capacity :: "bitmap \<Rightarrow> usize" where
  "bitmap_capacity b = length (words b) * 64"

subsection \<open>Ring buffer (ring\_buffer.rs)\<close>

record 'a ring_buffer =
  buf :: "'a option list"
  head :: usize
  tail :: usize

definition ring_new :: "nat \<Rightarrow> 'a ring_buffer" where
  "ring_new N = \<lparr>buf = replicate N None, head = 0, tail = 0\<rparr>"

definition ring_push :: "'a ring_buffer \<Rightarrow> 'a \<Rightarrow> bool \<times> 'a ring_buffer" where
  "ring_push r v =
    (let nxt = (tail r + 1) mod length (buf r) in
     if nxt = head r then (False, r)
     else (True, r\<lparr>buf := (buf r)[tail r := Some v], tail := nxt\<rparr>))"

definition ring_pop :: "'a ring_buffer \<Rightarrow> 'a option \<times> 'a ring_buffer" where
  "ring_pop r =
    (if head r = tail r then (None, r)
     else (buf r ! head r,
           r\<lparr>buf := (buf r)[head r := None], head := (head r + 1) mod length (buf r)\<rparr>))"

definition ring_is_empty :: "'a ring_buffer \<Rightarrow> bool" where
  "ring_is_empty r \<longleftrightarrow> head r = tail r"

subsection \<open>Alignment: the bit tricks compute the nearest multiples\<close>

lemma usub_pow: "k < 64 \<Longrightarrow> usub (2 ^ k) 1 = 2 ^ k - 1"
proof -
  assume "k < 64"
  then have "(2::nat) ^ k < 2 ^ 64" by (rule power_strict_increasing) simp
  then show ?thesis by (intro usub_small) (simp_all only: one_le_power one_le_numeral)
qed

lemma align_down_eq:
  "v < 2 ^ 64 \<Longrightarrow> k < 64 \<Longrightarrow> align_down v (2 ^ k) = v - v mod 2 ^ k"
  unfolding align_down_def by (metis usub_pow and_unot_mask less_imp_le)

lemma align_up_eq:
  assumes "v + 2 ^ k \<le> 2 ^ 64" "k < 64"
  shows "align_up v (2 ^ k) = (v + 2 ^ k - 1) - (v + 2 ^ k - 1) mod 2 ^ k"
proof -
  have p: "1 \<le> v + 2 ^ k" by (simp add: Suc_leI)
  have "usub (uadd v (2 ^ k)) 1 = v + 2 ^ k - 1"
  proof (cases "v + 2 ^ k = 2 ^ 64")
    case True
    then show ?thesis by (simp add: uadd_def usub_def)
  next
    case False
    then have "v + 2 ^ k < 2 ^ 64" using assms(1) by linarith
    then show ?thesis using p usub_small uadd_small by presburger
  qed
  moreover have "v + 2 ^ k - 1 < 2 ^ 64" using assms(1) p by linarith
  ultimately show ?thesis
    unfolding align_up_def usub_pow [OF assms(2)]
    by (simp only: and_unot_mask [OF _ less_imp_le [OF assms(2)]])
qed

lemma align_up_least:
  assumes "v + 2 ^ k \<le> 2 ^ 64" "k < 64"
  shows "2 ^ k dvd align_up v (2 ^ k)" "v \<le> align_up v (2 ^ k)"
    "align_up v (2 ^ k) < v + 2 ^ k"
proof -
  have e: "align_up v (2 ^ k) = (v + 2 ^ k - 1) - (v + 2 ^ k - 1) mod 2 ^ k"
    using align_up_eq assms by blast
  have m: "(v + 2 ^ k - 1) mod 2 ^ k < (2::nat) ^ k" by simp
  show "2 ^ k dvd align_up v (2 ^ k)" unfolding e by (rule sub_mod_dvd)
  show "v \<le> align_up v (2 ^ k)" "align_up v (2 ^ k) < v + 2 ^ k"
    unfolding e using m by linarith+
qed

subsection \<open>Bitmap: single bits and the first clear bit\<close>

lemma bitmap_get_set:
  assumes "bitmap_set b i = Some b'" "j < bitmap_capacity b"
  shows "bitmap_get b' j = (if j = i then Some True else bitmap_get b j)"
  using assms div_mod_64_eq [of i j]
  by (auto simp: bitmap_set_def bitmap_get_def bitmap_capacity_def bits nth_list_update
      split: if_splits)

lemma bitmap_get_clear:
  assumes "bitmap_clear b i = Some b'" "j < bitmap_capacity b"
  shows "bitmap_get b' j = (if j = i then Some False else bitmap_get b j)"
  using assms div_mod_64_eq [of i j]
  by (auto simp: bitmap_clear_def bitmap_get_def bitmap_capacity_def bits nth_list_update
      split: if_splits)

lemma not_all_ones_bit: "w \<noteq> NOT 0 \<Longrightarrow> \<exists>n<64. \<not> bit (w::u64) n"
proof (rule ccontr)
  assume "w \<noteq> NOT 0" "\<not> (\<exists>n<64. \<not> bit w n)"
  then have "w = NOT 0" by (intro bit_word_eqI) (simp add: bit_not_iff)
  with \<open>w \<noteq> NOT 0\<close> show False by blast
qed

lemma takeWhile_upt:
  assumes "k < n" "\<not> P k"
  shows "length (takeWhile P [0..<n]) < n" "\<not> P (length (takeWhile P [0..<n]))"
    "i < length (takeWhile P [0..<n]) \<Longrightarrow> P i"
proof -
  let ?t = "takeWhile P [0..<n]"
  have "?t \<noteq> [0..<n]" using assms unfolding takeWhile_eq_all_conv by auto
  then have l: "length ?t < length [0..<n]"
    by (metis length_takeWhile_le nat_less_le takeWhile_eq_take take_all_iff order_refl)
  then show lt: "length ?t < n" by simp
  show "\<not> P (length ?t)" using nth_length_takeWhile [OF l] lt by simp
  show "P i" if "i < length ?t"
  proof -
    have "P (?t ! i)" using that by (metis nth_mem set_takeWhileD)
    then show ?thesis using that lt by (simp add: takeWhile_nth)
  qed
qed

lemma trailing_ones_clear:
  assumes "w \<noteq> NOT 0"
  shows "trailing_ones w < 64" "\<not> bit w (trailing_ones w)"
    "i < trailing_ones w \<Longrightarrow> bit w i"
  using not_all_ones_bit [OF assms] takeWhile_upt [of _ 64 "bit w"]
  unfolding trailing_ones_def by blast+

lemma first_clear_from_None:
  "first_clear_from n ws = None \<longleftrightarrow> (\<forall>w\<in>set ws. w = NOT 0)"
  by (induction ws arbitrary: n) auto

lemma first_clear_from_Some:
  "first_clear_from n ws = Some i \<Longrightarrow>
    \<exists>k w. k < length ws \<and> w = ws ! k \<and> w \<noteq> NOT 0 \<and> i = (n + k) * 64 + trailing_ones w \<and>
      (\<forall>j<k. ws ! j = NOT 0)"
proof (induction ws arbitrary: n)
  case (Cons w ws)
  show ?case
  proof (cases "w = NOT 0")
    case True
    then have "first_clear_from (n + 1) ws = Some i" using Cons.prems by simp
    from Cons.IH [OF this] obtain k where
      "k < length ws" "ws ! k \<noteq> NOT 0" "i = (n + 1 + k) * 64 + trailing_ones (ws ! k)"
      "\<forall>j<k. ws ! j = NOT 0" by blast
    with True show ?thesis
      by (rule_tac x = "Suc k" in exI) (auto simp: less_Suc_eq_0_disj)
  next
    case False
    then show ?thesis using Cons.prems by (rule_tac x = 0 in exI) auto
  qed
qed simp

lemma first_clear_sound:
  assumes "first_clear b = Some i"
  shows "bitmap_get b i = Some False" "j < i \<Longrightarrow> bitmap_get b j = Some True"
proof -
  obtain k where k: "k < length (words b)" "words b ! k \<noteq> NOT 0"
    "i = k * 64 + trailing_ones (words b ! k)" "\<forall>j<k. words b ! j = NOT 0"
    using first_clear_from_Some [of 0 "words b" i] assms unfolding first_clear_def by auto
  note t = trailing_ones_clear [OF k(2)]
  have i: "i div 64 = k" "i mod 64 = trailing_ones (words b ! k)" using k(3) t(1) by auto
  show "bitmap_get b i = Some False"
    using i k(1) t(2) by (simp add: bitmap_get_def word_bit_iff)
  show "bitmap_get b j = Some True" if "j < i"
  proof (cases "j div 64 = k")
    case True
    then have "j mod 64 < trailing_ones (words b ! k)" using that i by (simp add: k(3) modulo_nat_def)
    then show ?thesis using True k(1) t(3) by (simp add: bitmap_get_def word_bit_iff)
  next
    case False
    then have "j div 64 < k" using div_le_mono [of j i 64] that i by simp
    then show ?thesis using k by (simp add: bitmap_get_def word_bit_iff bit_not_iff)
  qed
qed

subsection \<open>The ring buffer is a bounded queue\<close>

definition rb_inv :: "nat \<Rightarrow> 'a ring_buffer \<Rightarrow> bool" where
  "rb_inv N r \<longleftrightarrow> ring_ok N (buf r) (head r) (tail r)"

definition rb_items :: "'a ring_buffer \<Rightarrow> 'a list" where
  "rb_items r = ring_items (buf r) (head r) (tail r)"

definition rb_enq :: "'a ring_buffer \<Rightarrow> 'a \<Rightarrow> 'a ring_buffer option" where
  "rb_enq r v = (case ring_push r v of (ok, r') \<Rightarrow> if ok then Some r' else None)"

definition rb_deq :: "'a ring_buffer \<Rightarrow> ('a \<times> 'a ring_buffer) option" where
  "rb_deq r = (case ring_pop r of (None, _) \<Rightarrow> None | (Some v, r') \<Rightarrow> Some (v, r'))"

lemmas rb_defs = rb_inv_def rb_items_def rb_enq_def rb_deq_def ring_push_def ring_pop_def

lemma rb_length: "rb_inv N r \<Longrightarrow> length (rb_items r) = ring_count N (head r) (tail r)"
  by (simp add: rb_inv_def rb_items_def ring_ok_def ring_length)

lemma rb_buf_length: "rb_inv N r \<Longrightarrow> length (buf r) = N"
  by (simp add: rb_inv_def ring_ok_def)

lemma rb_new: "0 < N \<Longrightarrow> rb_inv N (ring_new N) \<and> rb_items (ring_new N) = []"
  by (simp add: rb_defs ring_new_def ring_ok_def ring_items_def ring_count_def)

interpretation rb: bounded_fifo "rb_inv N" rb_items rb_enq rb_deq "N - 1" for N
proof
  fix q :: "'a ring_buffer" and x q'
  assume inv: "rb_inv N q"
  note r = inv [unfolded rb_inv_def] and n = rb_buf_length [OF inv]
  show "length (rb_items q) \<le> N - 1"
    using ring_count_bound [OF r] rb_length [OF inv] by simp
  show "rb_enq q x = None \<longleftrightarrow> length (rb_items q) = N - 1"
    using ring_full [OF r] rb_length [OF inv] n by (simp add: rb_enq_def ring_push_def Let_def)
  show "rb_inv N q' \<and> rb_items q' = rb_items q @ [x]" if "rb_enq q x = Some q'"
    using that ring_push_facts [OF r, of x] n
    by (auto simp: rb_defs Let_def split: if_splits)
  show "rb_deq q = None \<longleftrightarrow> rb_items q = []"
    using ring_empty [OF r] rb_length [OF inv] ring_pop_items [OF r] n
    by (auto simp: rb_deq_def ring_pop_def)
  show "rb_inv N q' \<and> rb_items q = x # rb_items q'" if "rb_deq q = Some (x, q')"
    using that ring_pop_facts [OF r] n
    by (auto simp: rb_defs split: if_splits option.splits)
qed

end
