(* ===== verification/Intrusive_List.thy ===== *)
theory Intrusive_List
  imports Kernel_Prelude
begin

text \<open>
  Doubly linked lists threaded through memory, as the physical allocator and the slab
  caches keep them: every member holds the address of its successor and predecessor, and a
  null value ends the list in both directions.  \<open>dll nx pv z p xs\<close> says that \<open>xs\<close> is laid
  out by the links \<open>nx\<close> and \<open>pv\<close> behind predecessor \<open>p\<close>.  The facts say what pushing at the
  front and unlinking an arbitrary member do to the abstract list, and that writes to other
  addresses leave it alone.
\<close>

named_theorems dll_facts "doubly linked lists in memory"

definition hdz :: "'a \<Rightarrow> 'a list \<Rightarrow> 'a" where
  "hdz z xs = (case xs of [] \<Rightarrow> z | x # _ \<Rightarrow> x)"

definition lastz :: "'a \<Rightarrow> 'a list \<Rightarrow> 'a" where
  "lastz z xs = (if xs = [] then z else last xs)"

fun dll :: "('a \<Rightarrow> 'a) \<Rightarrow> ('a \<Rightarrow> 'a) \<Rightarrow> 'a \<Rightarrow> 'a \<Rightarrow> 'a list \<Rightarrow> bool" where
  "dll nx pv z p [] \<longleftrightarrow> True"
| "dll nx pv z p (x # xs) \<longleftrightarrow> pv x = p \<and> nx x = hdz z xs \<and> dll nx pv z x xs"

lemma hdz_simps [simp, dll_facts]: "hdz z [] = z" "hdz z (x # xs) = x"
  by (simp_all add: hdz_def)

lemma lastz_simps [simp, dll_facts]: "lastz z [] = z" "lastz z (xs @ [x]) = x"
  by (simp_all add: lastz_def)

lemma lastz_Cons [simp]: "lastz z (x # xs) = lastz x xs"
  by (simp add: lastz_def)

lemma lastz_in: "xs \<noteq> [] \<Longrightarrow> lastz z xs \<in> set xs"
  by (simp add: lastz_def)

lemma hdz_in: "xs \<noteq> [] \<Longrightarrow> hdz z xs \<in> set xs"
  by (cases xs) auto

lemma hdz_null_iff: "z \<notin> set xs \<Longrightarrow> hdz z xs = z \<longleftrightarrow> xs = []"
  by (cases xs) auto

lemma lastz_null_iff: "z \<notin> set xs \<Longrightarrow> lastz z xs = z \<longleftrightarrow> xs = []"
  by (metis lastz_def lastz_in)

lemma dll_append:
  "dll nx pv z p (xs @ ys) \<longleftrightarrow>
    dll nx pv (hdz z ys) p xs \<and> dll nx pv z (lastz p xs) ys"
proof (induction xs arbitrary: p)
  case (Cons x xs)
  have "hdz z (xs @ ys) = hdz (hdz z ys) xs" by (cases xs) auto
  then show ?case using Cons by auto
qed simp

lemma dll_frame [dll_facts]:
  "(\<And>x. x \<in> set xs \<Longrightarrow> nx' x = nx x \<and> pv' x = pv x) \<Longrightarrow>
    dll nx' pv' z p xs \<longleftrightarrow> dll nx pv z p xs"
  by (induction xs arbitrary: p) auto

lemma dll_set_next:
  assumes "dll nx pv z p xs" "distinct xs"
  shows "dll (if xs = [] then nx else nx(last xs := z')) pv z' p xs"
proof (cases xs rule: rev_cases)
  case (snoc ys l)
  have "dll (nx(l := z')) pv l p ys \<longleftrightarrow> dll nx pv l p ys"
    using assms snoc by (intro dll_frame) auto
  then show ?thesis using assms snoc by (simp add: dll_append)
qed simp

lemma dll_set_prev:
  assumes "dll nx pv z p xs" "distinct xs"
  shows "dll nx (if xs = [] then pv else pv(hd xs := p')) z p' xs"
proof (cases xs)
  case (Cons x ys)
  have "dll nx (pv(x := p')) z x ys \<longleftrightarrow> dll nx pv z x ys"
    using assms Cons by (intro dll_frame) auto
  then show ?thesis using assms Cons by simp
qed simp

lemma dll_push:
  assumes "dll nx pv z z xs" "x \<notin> set xs" "distinct xs"
  shows "dll (nx(x := hdz z xs)) ((if xs = [] then pv else pv(hd xs := x))(x := z)) z z (x # xs)"
proof -
  have "dll nx (if xs = [] then pv else pv(hd xs := x)) z x xs"
    using dll_set_prev [OF assms(1,3)] .
  moreover have "dll (nx(x := hdz z xs)) ((if xs = [] then pv else pv(hd xs := x))(x := z)) z x xs
      \<longleftrightarrow> dll nx (if xs = [] then pv else pv(hd xs := x)) z x xs"
    using assms(2) by (intro dll_frame) auto
  ultimately show ?thesis by simp
qed

lemma dll_links:
  assumes "dll nx pv z z (xs @ a # ys)"
  shows "nx a = hdz z ys" "pv a = lastz z xs"
  using assms by (simp_all add: dll_append)

lemma dll_unlink:
  assumes "dll nx pv z z (xs @ a # ys)" "distinct (xs @ a # ys)"
  shows "dll (if xs = [] then nx else nx(last xs := hdz z ys))
    (if ys = [] then pv else pv(hd ys := lastz z xs)) z z (xs @ ys)"
proof -
  let ?nx = "if xs = [] then nx else nx(last xs := hdz z ys)"
  let ?pv = "if ys = [] then pv else pv(hd ys := lastz z xs)"
  have *: "dll nx pv a z xs" "dll nx pv z a ys" "distinct xs" "distinct ys"
    using assms by (simp_all add: dll_append)
  have 1: "dll ?nx pv (hdz z ys) z xs" using dll_set_next [OF *(1,3)] .
  have 2: "dll nx ?pv z (lastz z xs) ys" using dll_set_prev [OF *(2,4)] .
  have "?pv x = pv x" if "x \<in> set xs" for x
    using that assms(2) list.set_sel(1) [of ys] by force
  then have "dll ?nx ?pv (hdz z ys) z xs \<longleftrightarrow> dll ?nx pv (hdz z ys) z xs"
    by (intro dll_frame) blast
  moreover have "?nx x = nx x" if "x \<in> set ys" for x
    using that assms(2) last_in_set [of xs] by force
  then have "dll ?nx ?pv z (lastz z xs) ys \<longleftrightarrow> dll nx ?pv z (lastz z xs) ys"
    by (intro dll_frame) blast
  ultimately show ?thesis using 1 2 unfolding dll_append by blast
qed

lemma remove1_split:
  "distinct (xs @ a # ys) \<Longrightarrow> remove1 a (xs @ a # ys) = xs @ ys"
  by (simp add: remove1_append)

lemma remove1_notin [simp]: "a \<notin> set xs \<Longrightarrow> remove1 a xs = xs"
  by (rule remove1_idem)

end
