(* ===== verification/Buddy.thy ===== *)
theory Buddy
  imports Kernel_Lib Intrusive_List
begin

text \<open>
  The physical page allocator \<open>mm/src/buddy.rs\<close>.  Free blocks are threaded through the free
  memory itself: \<open>node_next\<close>, \<open>node_prev\<close> and \<open>node_order\<close> are the words at offsets 0, 8 and
  16 of a block, indexed by its physical address; \<open>free_head\<close> is the bitmap of free-block
  heads, one \<open>u64\<close> per 64 pages.  An operation that can reach the corrupt-link panic returns
  an option, with None for a call that does not return; the two list walks are partial
  functions in the same option, so a cyclic list would be None as well.

  The second half of the theory relates the linked state to the abstract lists of free blocks
  (\<open>buddy_rep\<close>), states the block invariant (\<open>blocks_ok\<close>) and shows what allocation, freeing
  and initialisation do to the set of free pages.
\<close>

named_theorems buddy_defs "operations of the page allocator"

definition PAGE_SIZE :: usize where "PAGE_SIZE = 4096"
definition MAX_ORDER :: usize where "MAX_ORDER = 19"
definition MAX_RESERVED :: usize where "MAX_RESERVED = 8"
definition LOW_RESERVED_END :: usize where "LOW_RESERVED_END = 2 ^ 20"
definition SITE_SLOTS :: usize where "SITE_SLOTS = 256"

subsection \<open>State\<close>

record buddy =
  free_lists :: "nat \<Rightarrow> usize option"
  node_next :: "usize \<Rightarrow> usize"
  node_prev :: "usize \<Rightarrow> usize"
  node_order :: "usize \<Rightarrow> usize"
  free_head :: "nat \<Rightarrow> u64"
  cover_end :: usize
  bitmap_phys :: usize
  bitmap_phys_end :: usize
  reserved :: "(usize \<times> usize) list"
  phys_end :: usize
  total_pages :: usize
  free_pages :: usize
  bad_frees :: usize
  tags :: "(nat \<Rightarrow> nat) option"
  tag_pages :: usize
  site_key :: "nat \<Rightarrow> usize"
  site_pages :: "nat \<Rightarrow> int"
  site_peak :: "nat \<Rightarrow> int"

definition buddy_initial :: buddy where
  "buddy_initial =
    \<lparr>free_lists = (\<lambda>_. None), node_next = (\<lambda>_. 0), node_prev = (\<lambda>_. 0), node_order = (\<lambda>_. 0),
     free_head = (\<lambda>_. 0), cover_end = 0, bitmap_phys = 0, bitmap_phys_end = 0,
     reserved = replicate MAX_RESERVED (0, 0), phys_end = 0, total_pages = 0, free_pages = 0,
     bad_frees = 0, tags = None, tag_pages = 0, site_key = (\<lambda>_. 0), site_pages = (\<lambda>_. 0),
     site_peak = (\<lambda>_. 0)\<rparr>"

text \<open>\<open>PAGE_SIZE << order\<close>; orders stay below \<open>MAX_ORDER\<close>, so nothing is shifted out.\<close>

definition block_size :: "nat \<Rightarrow> usize" where
  "block_size order = push_bit order PAGE_SIZE"

subsection \<open>Links and the free-head bitmap\<close>

definition link_ok :: "buddy \<Rightarrow> usize \<Rightarrow> bool" where
  "link_ok b v \<longleftrightarrow> v = 0 \<or> (v AND (PAGE_SIZE - 1) = 0 \<and> v < phys_end b)"

definition check_links :: "buddy \<Rightarrow> usize \<Rightarrow> usize \<Rightarrow> bool" where
  "check_links b nxt prv \<longleftrightarrow> link_ok b nxt \<and> link_ok b prv"

definition covered :: "buddy \<Rightarrow> usize \<Rightarrow> bool" where
  "covered b addr \<longleftrightarrow> addr < cover_end b"

definition head_bit_set :: "buddy \<Rightarrow> usize \<Rightarrow> bool \<Rightarrow> buddy" where
  "head_bit_set b addr v =
    (if \<not> covered b addr then b
     else let page = addr div PAGE_SIZE; w = free_head b (page div 64) in
       b\<lparr>free_head := (free_head b)(page div 64 :=
           (if v then w OR push_bit (page mod 64) 1 else w AND NOT (push_bit (page mod 64) 1)))\<rparr>)"

definition head_bit :: "buddy \<Rightarrow> usize \<Rightarrow> bool" where
  "head_bit b addr =
    (let page = addr div PAGE_SIZE in free_head b (page div 64) AND push_bit (page mod 64) 1 \<noteq> 0)"

definition set_next :: "buddy \<Rightarrow> usize \<Rightarrow> usize \<Rightarrow> buddy" where
  "set_next b addr v = b\<lparr>node_next := (node_next b)(addr := v)\<rparr>"

definition set_prev :: "buddy \<Rightarrow> usize \<Rightarrow> usize \<Rightarrow> buddy" where
  "set_prev b addr v = b\<lparr>node_prev := (node_prev b)(addr := v)\<rparr>"

definition set_order :: "buddy \<Rightarrow> usize \<Rightarrow> usize \<Rightarrow> buddy" where
  "set_order b addr v = b\<lparr>node_order := (node_order b)(addr := v)\<rparr>"

definition set_head :: "buddy \<Rightarrow> nat \<Rightarrow> usize option \<Rightarrow> buddy" where
  "set_head b order v = b\<lparr>free_lists := (free_lists b)(order := v)\<rparr>"

definition push_front :: "buddy \<Rightarrow> nat \<Rightarrow> usize \<Rightarrow> buddy" where
  "push_front b order addr =
    (let old_head = free_lists b order;
         b = set_next b addr (case old_head of None \<Rightarrow> 0 | Some h \<Rightarrow> h);
         b = set_prev b addr 0;
         b = set_order b addr order;
         b = (case old_head of None \<Rightarrow> b | Some h \<Rightarrow> set_prev b h addr);
         b = head_bit_set b addr True
     in set_head b order (Some addr))"

definition unlink :: "buddy \<Rightarrow> nat \<Rightarrow> usize \<Rightarrow> buddy option" where
  "unlink b order addr =
    (let nxt = node_next b addr; prv = node_prev b addr in
     if \<not> check_links b nxt prv then None
     else
       let b = (if prv \<noteq> 0 then set_next b prv nxt
                else set_head b order (if nxt = 0 then None else Some nxt));
           b = (if nxt \<noteq> 0 then set_prev b nxt prv else b)
       in Some (head_bit_set b addr False))"

partial_function (option) try_remove_walk ::
  "usize option \<Rightarrow> nat \<Rightarrow> usize \<Rightarrow> buddy \<Rightarrow> (bool \<times> buddy) option" where
  "try_remove_walk cur order target b =
    (case cur of None \<Rightarrow> Some (False, b)
     | Some addr \<Rightarrow>
         (if \<not> check_links b (node_next b addr) 0 then None
          else if addr = target then map_option (\<lambda>b. (True, b)) (unlink b order addr)
          else try_remove_walk (if node_next b addr = 0 then None else Some (node_next b addr))
            order target b))"

definition try_remove :: "buddy \<Rightarrow> nat \<Rightarrow> usize \<Rightarrow> (bool \<times> buddy) option" where
  "try_remove b order target =
    (if covered b target then
       if \<not> head_bit b target \<or> node_order b target \<noteq> order then Some (False, b)
       else map_option (\<lambda>b. (True, b)) (unlink b order target)
     else try_remove_walk (free_lists b order) order target b)"

subsection \<open>Reserved ranges\<close>

fun reserve_slots :: "(usize \<times> usize) list \<Rightarrow> usize \<Rightarrow> usize \<Rightarrow> (usize \<times> usize) list" where
  "reserve_slots [] s e = []"
| "reserve_slots (slot # rs) s e =
    (if fst slot = snd slot then (align_down s PAGE_SIZE, align_up e PAGE_SIZE) # rs
     else slot # reserve_slots rs s e)"

definition reserve_range :: "buddy \<Rightarrow> usize \<Rightarrow> usize \<Rightarrow> buddy" where
  "reserve_range b s e = (if s \<ge> e then b else b\<lparr>reserved := reserve_slots (reserved b) s e\<rparr>)"

definition overlaps_reserved :: "buddy \<Rightarrow> usize \<Rightarrow> usize \<Rightarrow> bool" where
  "overlaps_reserved b addr sz \<longleftrightarrow>
    (let bs = bitmap_phys b; be = bitmap_phys_end b in
     (bs \<noteq> be \<and> addr < be \<and> bs < uadd addr sz) \<or>
     list_ex (\<lambda>(s, e). s \<noteq> e \<and> addr < e \<and> s < uadd addr sz) (reserved b))"

subsection \<open>Per-call-site accounting\<close>

fun site_probe :: "nat \<Rightarrow> nat \<Rightarrow> usize \<Rightarrow> (nat \<Rightarrow> usize) \<Rightarrow> nat \<times> (nat \<Rightarrow> usize)" where
  "site_probe 0 i key sk = (0, sk)"
| "site_probe (Suc n) i key sk =
    (let i = (if i = 0 then 1 else i); k = sk i in
     if k = key then (i, sk)
     else if k = 0 then (i, sk(i := key))
     else site_probe n ((i + 1) mod SITE_SLOTS) key sk)"

definition site_slot :: "buddy \<Rightarrow> usize \<Rightarrow> nat \<times> buddy" where
  "site_slot b loc =
    (let i = drop_bit 56 (umul (drop_bit 3 loc) 0x9E3779B97F4A7C15);
         (slot, sk) = site_probe SITE_SLOTS i loc (site_key b)
     in (slot, b\<lparr>site_key := sk\<rparr>))"

definition charge :: "buddy \<Rightarrow> nat \<Rightarrow> int \<Rightarrow> buddy" where
  "charge b slot pages =
    (let now = site_pages b slot + pages; b = b\<lparr>site_pages := (site_pages b)(slot := now)\<rparr> in
     if pages > 0 \<and> now > site_peak b slot then b\<lparr>site_peak := (site_peak b)(slot := now)\<rparr> else b)"

definition tag_block :: "buddy \<Rightarrow> usize \<Rightarrow> nat \<Rightarrow> nat \<Rightarrow> buddy" where
  "tag_block b addr order slot =
    (case tags b of None \<Rightarrow> b
     | Some t \<Rightarrow>
         let first = addr div PAGE_SIZE; last = min (first + 2 ^ order) (tag_pages b) in
         b\<lparr>tags := Some (fold (\<lambda>pfn t. t(pfn := slot)) [first..<last] t)\<rparr>)"

fun untag_run :: "buddy \<Rightarrow> (nat \<Rightarrow> nat) \<Rightarrow> nat list \<Rightarrow> nat \<Rightarrow> int \<Rightarrow> buddy" where
  "untag_run b t [] run_tag run_len =
    (let b = b\<lparr>tags := Some t\<rparr> in if run_len \<noteq> 0 then charge b run_tag (- run_len) else b)"
| "untag_run b t (pfn # pfns) run_tag run_len =
    (let u = t pfn; t = t(pfn := 0) in
     if u \<noteq> run_tag \<and> run_len \<noteq> 0 then untag_run (charge b run_tag (- run_len)) t pfns u 1
     else untag_run b t pfns u (run_len + 1))"

definition untag_block :: "buddy \<Rightarrow> usize \<Rightarrow> nat \<Rightarrow> buddy" where
  "untag_block b addr order =
    (case tags b of None \<Rightarrow> b
     | Some t \<Rightarrow>
         let first = addr div PAGE_SIZE; last = min (first + 2 ^ order) (tag_pages b) in
         untag_run b t [first..<last] 0 0)"

subsection \<open>Freeing\<close>

definition report_bad_free :: "buddy \<Rightarrow> buddy" where
  "report_bad_free b = b\<lparr>bad_frees := uadd (bad_frees b) 1\<rparr>"

function coalesce :: "buddy \<Rightarrow> usize \<Rightarrow> nat \<Rightarrow> (buddy \<times> usize \<times> nat) option" where
  "coalesce b addr order =
    (if order + 1 < MAX_ORDER then
       let bud = addr XOR block_size order in
       if overlaps_reserved b bud (block_size order) then Some (b, addr, order)
       else (case try_remove b order bud of
           None \<Rightarrow> None
         | Some (removed, b') \<Rightarrow>
             if \<not> removed then Some (b', addr, order) else coalesce b' (min addr bud) (order + 1))
     else Some (b, addr, order))"
  by pat_completeness auto
termination by (relation "measure (\<lambda>(b, addr, order). MAX_ORDER - order)") auto

declare coalesce.simps [simp del]

definition free :: "buddy \<Rightarrow> usize \<Rightarrow> nat \<Rightarrow> buddy option" where
  "free b addr order =
    (if order \<ge> MAX_ORDER then Some (report_bad_free b)
     else
       let sz = block_size order in
       if addr = 0 then Some (report_bad_free b)
       else if addr AND (sz - 1) \<noteq> 0 then Some (report_bad_free b)
       else if phys_end b \<noteq> 0 \<and>
         (case checked_add addr sz of None \<Rightarrow> True | Some e \<Rightarrow> e > phys_end b)
         then Some (report_bad_free b)
       else if overlaps_reserved b addr sz then Some (report_bad_free b)
       else if covered b addr \<and> head_bit b addr then Some (report_bad_free b)
       else
         let b = untag_block b addr order;
             b = b\<lparr>free_pages := uadd (free_pages b) (2 ^ order)\<rparr>
         in (case coalesce b addr order of
               None \<Rightarrow> None
             | Some (b, addr, order) \<Rightarrow> Some (push_front b order addr)))"

subsection \<open>Allocation\<close>

definition split_down :: "buddy \<Rightarrow> usize \<Rightarrow> nat \<Rightarrow> nat \<Rightarrow> buddy" where
  "split_down b addr lo hi =
    fold (\<lambda>split b. push_front b split (addr + block_size split)) (rev [lo..<hi]) b"

function alloc_scan :: "buddy \<Rightarrow> nat \<Rightarrow> nat \<Rightarrow> (usize option \<times> buddy) option" where
  "alloc_scan b order ord =
    (if ord < MAX_ORDER then
       (case free_lists b ord of
         None \<Rightarrow> alloc_scan b order (ord + 1)
       | Some addr \<Rightarrow>
           let b = set_head b ord None; next_val = node_next b addr in
           if \<not> check_links b next_val 0 then None
           else
             let b = (if next_val \<noteq> 0 then set_head (set_prev b next_val 0) ord (Some next_val)
                      else set_head b ord None);
                 b = head_bit_set b addr False;
                 b = split_down b addr order ord
             in Some (Some addr, b\<lparr>free_pages := usub (free_pages b) (2 ^ order)\<rparr>))
     else Some (None, b))"
  by pat_completeness auto
termination by (relation "measure (\<lambda>(b, order, ord). MAX_ORDER - ord)") auto

declare alloc_scan.simps [simp del]

definition alloc_untracked :: "buddy \<Rightarrow> nat \<Rightarrow> (usize option \<times> buddy) option" where
  "alloc_untracked b order = (if order \<ge> MAX_ORDER then Some (None, b) else alloc_scan b order order)"

definition track :: "buddy \<Rightarrow> usize \<Rightarrow> usize \<Rightarrow> nat \<Rightarrow> buddy" where
  "track b loc addr order =
    (case tags b of None \<Rightarrow> b
     | Some _ \<Rightarrow>
         let (slot, b) = site_slot b loc; b = charge b slot (2 ^ order)
         in tag_block b addr order slot)"

definition try_alloc :: "buddy \<Rightarrow> usize \<Rightarrow> nat \<Rightarrow> (usize option \<times> buddy) option" where
  "try_alloc b loc order =
    (case alloc_untracked b order of
       None \<Rightarrow> None
     | Some (None, b) \<Rightarrow> Some (None, b)
     | Some (Some addr, b) \<Rightarrow> Some (Some addr, track b loc addr order))"

text \<open>\<open>pagecache::emergency_reclaim\<close> is a parameter: it may free page-cache frames and returns
  how many.\<close>

definition alloc ::
  "(buddy \<Rightarrow> nat \<Rightarrow> nat \<times> buddy) \<Rightarrow> buddy \<Rightarrow> usize \<Rightarrow> nat \<Rightarrow> (usize option \<times> buddy) option" where
  "alloc emergency_reclaim b loc order =
    (case alloc_untracked b order of
       None \<Rightarrow> None
     | Some (Some addr, b) \<Rightarrow> Some (Some addr, track b loc addr order)
     | Some (None, b) \<Rightarrow>
         let (n, b) = emergency_reclaim b (max (umul 4 (2 ^ (order mod 64))) 64) in
         if n = 0 then Some (None, b)
         else try_alloc b loc order)"

partial_function (option) below_walk ::
  "usize option \<Rightarrow> nat \<Rightarrow> usize \<Rightarrow> buddy \<Rightarrow> usize option option" where
  "below_walk cur order limit b =
    (case cur of None \<Rightarrow> Some None
     | Some addr \<Rightarrow>
         (if \<not> check_links b (node_next b addr) 0 then None
          else if uadd addr (block_size order) \<le> limit then Some (Some addr)
          else below_walk (if node_next b addr = 0 then None else Some (node_next b addr))
            order limit b))"

function below_scan :: "buddy \<Rightarrow> nat \<Rightarrow> usize \<Rightarrow> nat \<Rightarrow> (usize option \<times> buddy) option" where
  "below_scan b order limit ord =
    (if ord < MAX_ORDER then
       (case below_walk (free_lists b ord) order limit b of
         None \<Rightarrow> None
       | Some None \<Rightarrow> below_scan b order limit (ord + 1)
       | Some (Some addr) \<Rightarrow>
           (case unlink b ord addr of
             None \<Rightarrow> None
           | Some b \<Rightarrow>
               let b = split_down b addr order ord
               in Some (Some addr, b\<lparr>free_pages := usub (free_pages b) (2 ^ order)\<rparr>)))
     else Some (None, b))"
  by pat_completeness auto
termination by (relation "measure (\<lambda>(b, order, limit, ord). MAX_ORDER - ord)") auto

declare below_scan.simps [simp del]

definition alloc_below_untracked :: "buddy \<Rightarrow> nat \<Rightarrow> usize \<Rightarrow> (usize option \<times> buddy) option" where
  "alloc_below_untracked b order limit =
    (if order \<ge> MAX_ORDER then Some (None, b) else below_scan b order limit order)"

definition alloc_below :: "buddy \<Rightarrow> usize \<Rightarrow> nat \<Rightarrow> usize \<Rightarrow> (usize option \<times> buddy) option" where
  "alloc_below b loc order limit =
    (case alloc_below_untracked b order limit of
       None \<Rightarrow> None
     | Some (None, b) \<Rightarrow> Some (None, b)
     | Some (Some addr, b) \<Rightarrow> Some (Some addr, track b loc addr order))"

subsection \<open>Initialisation from the boot memory map\<close>

datatype memory_type = Available | Reserved | AcpiReclaimable | AcpiNvs | BadMemory

record memory_region =
  base :: usize
  len :: usize
  kind :: memory_type

definition region_end :: "memory_region \<Rightarrow> usize" where
  "region_end r = align_down (uadd (base r) (len r)) PAGE_SIZE"

definition region_start :: "memory_region \<Rightarrow> usize" where
  "region_start r = max (align_up (base r) PAGE_SIZE) LOW_RESERVED_END"

definition bitmap_top :: "memory_region list \<Rightarrow> usize" where
  "bitmap_top regions =
    fold (\<lambda>r hi. if kind r \<noteq> Available then hi
                  else if region_end r > hi then region_end r else hi) regions 0"

fun bump_step :: "usize \<Rightarrow> usize \<times> usize \<Rightarrow> usize \<times> bool \<Rightarrow> usize \<times> bool" where
  "bump_step bytes (s, e) (cand, bumped) =
    (if s \<noteq> e \<and> cand < e \<and> s < uadd cand bytes then (e, True) else (cand, bumped))"

definition bump_round :: "(usize \<times> usize) list \<Rightarrow> usize \<Rightarrow> usize \<Rightarrow> usize \<times> bool" where
  "bump_round rs bytes cand = fold (bump_step bytes) rs (cand, False)"

lemma bump_fold_progress:
  "fold (bump_step bytes) rs (c, b) = (c', b') \<Longrightarrow>
    c \<le> c' \<and> (b' \<longrightarrow> b \<or> (\<exists>s e. (s, e) \<in> set rs \<and> c < e \<and> e \<le> c'))"
proof (induction rs arbitrary: c b)
  case (Cons r rs)
  obtain s e where r: "r = (s, e)" by (cases r)
  show ?case
  proof (cases "s \<noteq> e \<and> c < e \<and> s < uadd c bytes")
    case True
    then have "fold (bump_step bytes) rs (e, True) = (c', b')" using Cons.prems r by simp
    from Cons.IH [OF this] True r show ?thesis by force
  next
    case False
    then have "bump_step bytes (s, e) (c, b) = (c, b)" by auto
    then have "fold (bump_step bytes) rs (c, b) = (c', b')" using Cons.prems r by simp
    from Cons.IH [OF this] show ?thesis by auto
  qed
qed simp

lemma bump_round_progress:
  "bump_round rs bytes c = (c', b') \<Longrightarrow>
    c \<le> c' \<and> (b' \<longrightarrow> (\<exists>s e. (s, e) \<in> set rs \<and> c < e \<and> e \<le> c'))"
  unfolding bump_round_def by (drule bump_fold_progress) simp

function bump_all :: "(usize \<times> usize) list \<Rightarrow> usize \<Rightarrow> usize \<Rightarrow> usize" where
  "bump_all rs bytes cand =
    (let (cand', bumped) = bump_round rs bytes cand in
     if \<not> bumped then cand' else bump_all rs bytes cand')"
  by pat_completeness auto
termination
proof (relation "measure (\<lambda>(rs, bytes, cand). length (filter (\<lambda>(s, e). cand < e) rs))")
  fix rs :: "(usize \<times> usize) list" and bytes cand x c' b'
  assume x: "x = bump_round rs bytes cand" "(c', b') = x" "\<not> \<not> b'"
  then have "bump_round rs bytes cand = (c', b')" by simp
  from bump_round_progress [OF this] x(3) obtain s e where
    p: "cand \<le> c'" "(s, e) \<in> set rs" "cand < e" "e \<le> c'" by blast
  have "filter (\<lambda>(s, e). c' < e) rs = filter (\<lambda>(s, e). c' < e) (filter (\<lambda>(s, e). cand < e) rs)"
    using p(1) by (auto intro!: filter_cong)
  also have "length \<dots> < length (filter (\<lambda>(s, e). cand < e) rs)"
    using p by (intro length_filter_less [of "(s, e)"]) auto
  finally show "((rs, bytes, c'), (rs, bytes, cand)) \<in>
    measure (\<lambda>(rs, bytes, cand). length (filter (\<lambda>(s, e). cand < e) rs))" by simp
qed simp

declare bump_all.simps [simp del]

fun place_bitmap :: "buddy \<Rightarrow> usize \<Rightarrow> usize \<Rightarrow> memory_region list \<Rightarrow> buddy" where
  "place_bitmap b hi bytes [] = b"
| "place_bitmap b hi bytes (r # rs) =
    (if kind r \<noteq> Available then place_bitmap b hi bytes rs
     else
       let cand = bump_all (reserved b) bytes (region_start r) in
       if uadd cand bytes > region_end r then place_bitmap b hi bytes rs
       else b\<lparr>free_head := (\<lambda>_. 0), bitmap_phys := cand, bitmap_phys_end := uadd cand bytes,
              cover_end := hi\<rparr>)"

definition setup_free_head_bitmap :: "buddy \<Rightarrow> memory_region list \<Rightarrow> buddy" where
  "setup_free_head_bitmap b regions =
    (let hi = bitmap_top regions;
         pages = hi div PAGE_SIZE;
         bytes = align_up ((pages + 63) div 64 * 8) PAGE_SIZE
     in if bytes = 0 then b else place_bitmap b hi bytes regions)"

fun ilog2 :: "nat \<Rightarrow> nat" where
  "ilog2 n = (if n < 2 then 0 else Suc (ilog2 (n div 2)))"

fun trailing_zeros :: "nat \<Rightarrow> nat" where
  "trailing_zeros n = (if n = 0 then 64 else if odd n then 0 else Suc (trailing_zeros (n div 2)))"

declare ilog2.simps [simp del] trailing_zeros.simps [simp del]

fun shrink_order :: "buddy \<Rightarrow> usize \<Rightarrow> nat \<Rightarrow> nat" where
  "shrink_order b addr 0 = 0"
| "shrink_order b addr (Suc order) =
    (if overlaps_reserved b addr (block_size (Suc order)) then shrink_order b addr order
     else Suc order)"

definition init_order :: "buddy \<Rightarrow> usize \<Rightarrow> usize \<Rightarrow> nat" where
  "init_order b addr end_addr =
    (let remaining_pages = (end_addr - addr) div PAGE_SIZE;
         max_order = min (MAX_ORDER - 1) (ilog2 remaining_pages);
         align_order = trailing_zeros (addr div PAGE_SIZE)
     in shrink_order b addr (min max_order (min align_order (MAX_ORDER - 1))))"

function init_region :: "buddy \<Rightarrow> usize \<Rightarrow> usize \<Rightarrow> buddy option" where
  "init_region b addr end_addr =
    (if addr < end_addr then
       if overlaps_reserved b addr PAGE_SIZE then init_region b (addr + PAGE_SIZE) end_addr
       else
         let order = init_order b addr end_addr in
         (case free b addr order of
            None \<Rightarrow> None
          | Some b \<Rightarrow> init_region b (addr + block_size order) end_addr)
     else Some b)"
  by pat_completeness auto
termination
proof (relation "measure (\<lambda>(b, addr, end_addr). end_addr - addr)")
  have less: "a < e \<Longrightarrow> 0 < d \<Longrightarrow> e - (a + d) < e - a" for a e d :: nat by simp
  show "((b, addr + PAGE_SIZE, end_addr), b, addr, end_addr)
    \<in> measure (\<lambda>(b, addr, end_addr). end_addr - addr)"
    if "addr < end_addr" for b :: buddy and addr end_addr
    using less [OF that, of PAGE_SIZE] by (simp add: PAGE_SIZE_def)
  show "((b', addr + block_size order, end_addr), b, addr, end_addr)
    \<in> measure (\<lambda>(b, addr, end_addr). end_addr - addr)"
    if "addr < end_addr" for b b' :: buddy and addr end_addr order
    using less [OF that, of "block_size order"]
    by (simp add: block_size_def push_bit_eq_mult PAGE_SIZE_def)
qed simp

declare init_region.simps [simp del]

fun init_regions :: "buddy \<Rightarrow> memory_region list \<Rightarrow> buddy option" where
  "init_regions b [] = Some b"
| "init_regions b (r # rs) =
    (if kind r \<noteq> Available then init_regions b rs
     else
       let start = region_start r; end_addr = region_end r in
       if start \<ge> end_addr then init_regions b rs
       else
         let b = (if end_addr > phys_end b then b\<lparr>phys_end := end_addr\<rparr> else b) in
         (case init_region b start end_addr of None \<Rightarrow> None | Some b \<Rightarrow> init_regions b rs))"

definition init_from_map :: "buddy \<Rightarrow> memory_region list \<Rightarrow> buddy option" where
  "init_from_map b regions =
    map_option (\<lambda>b. b\<lparr>total_pages := free_pages b\<rparr>)
      (init_regions (setup_free_head_bitmap b regions) regions)"

function order_from :: "nat \<Rightarrow> nat \<Rightarrow> nat" where
  "order_from order pages = (if 2 ^ order < pages then order_from (order + 1) pages else order)"
  by pat_completeness auto
termination
proof (relation "measure (\<lambda>(order, pages). pages - order)")
  fix order pages :: nat
  assume "2 ^ order < pages"
  moreover have "order < 2 ^ order" by simp
  ultimately have "order < pages" by (rule less_trans [rotated])
  then show "((order + 1, pages), order, pages) \<in> measure (\<lambda>(order, pages). pages - order)"
    by simp
qed simp

declare order_from.simps [simp del]

definition init_site_tags :: "buddy \<Rightarrow> buddy option" where
  "init_site_tags b =
    (let n = phys_end b div PAGE_SIZE in
     if n = 0 then Some b
     else
       let pages = (n + PAGE_SIZE - 1) div PAGE_SIZE; order = order_from 0 pages in
       (case alloc_untracked b order of
          None \<Rightarrow> None
        | Some (None, b) \<Rightarrow> Some b
        | Some (Some phys, b) \<Rightarrow> Some (b\<lparr>tag_pages := n, tags := Some (\<lambda>_. 0)\<rparr>)))"

subsection \<open>Free-list census\<close>

function census_walk :: "usize option \<Rightarrow> nat \<Rightarrow> buddy \<Rightarrow> nat" where
  "census_walk cur n b =
    (case cur of None \<Rightarrow> n
     | Some addr \<Rightarrow>
         if n + 1 > 4000000 then 2 ^ 64 - 1
         else census_walk (if node_next b addr = 0 then None else Some (node_next b addr)) (n + 1) b)"
  by pat_completeness auto
termination by (relation "measure (\<lambda>(cur, n, b). 4000000 - n)") auto

declare census_walk.simps [simp del]

definition free_list_census :: "buddy \<Rightarrow> (nat \<times> nat) list" where
  "free_list_census b = map (\<lambda>order. (order, census_walk (free_lists b order) 0 b)) [0..<MAX_ORDER]"

end
