(* ===== verification/Buddy_Lists.thy ===== *)
theory Buddy_Lists
  imports Buddy
begin

text \<open>
  The linked free lists of the page allocator as lists of addresses.  \<open>buddy_rep b L\<close> says that
  the heads, links, order words and the head bitmap of \<open>b\<close> represent the lists \<open>L\<close>, one per
  order.  Each list operation is shown to refine the corresponding operation on \<open>L\<close>, and in
  particular never to reach the corrupt-link panic and, for the walks, to end.
\<close>

named_theorems buddy_fields "record fields after a list operation"

lemmas buddy_consts = PAGE_SIZE_def MAX_ORDER_def

lemma block_size_eq: "block_size o' = PAGE_SIZE * 2 ^ o'"
  by (simp add: block_size_def push_bit_eq_mult)

lemma block_size_pos [simp]: "0 < block_size o'"
  by (simp add: block_size_eq PAGE_SIZE_def)

lemma page_pos [simp]: "0 < PAGE_SIZE"
  by (simp add: PAGE_SIZE_def)

lemma page_align: "v AND (PAGE_SIZE - 1) = 0 \<longleftrightarrow> PAGE_SIZE dvd v"
  using and_mask_mod [of v 12] by (auto simp: PAGE_SIZE_def dvd_eq_mod_eq_0)

lemma link_ok_iff: "link_ok b v \<longleftrightarrow> v = 0 \<or> (PAGE_SIZE dvd v \<and> v < phys_end b)"
  unfolding link_ok_def page_align by (rule refl)

subsection \<open>The part of the state the lists do not use\<close>

definition buddy_env :: "buddy \<Rightarrow> buddy" where
  "buddy_env b = b\<lparr>free_lists := (\<lambda>_. None), node_next := (\<lambda>_. 0), node_prev := (\<lambda>_. 0),
    node_order := (\<lambda>_. 0), free_head := (\<lambda>_. 0)\<rparr>"

lemma buddy_envD:
  assumes "buddy_env b' = buddy_env b"
  shows "cover_end b' = cover_end b" "bitmap_phys b' = bitmap_phys b"
    "bitmap_phys_end b' = bitmap_phys_end b" "reserved b' = reserved b" "phys_end b' = phys_end b"
    "free_pages b' = free_pages b" "bad_frees b' = bad_frees b" "total_pages b' = total_pages b"
    "tags b' = tags b" "tag_pages b' = tag_pages b"
  using arg_cong [OF assms, of cover_end] arg_cong [OF assms, of bitmap_phys]
    arg_cong [OF assms, of bitmap_phys_end] arg_cong [OF assms, of reserved]
    arg_cong [OF assms, of phys_end] arg_cong [OF assms, of free_pages]
    arg_cong [OF assms, of bad_frees] arg_cong [OF assms, of total_pages]
    arg_cong [OF assms, of tags] arg_cong [OF assms, of tag_pages]
  by (simp_all add: buddy_env_def)

lemma env_overlaps: "buddy_env b' = buddy_env b \<Longrightarrow> overlaps_reserved b' = overlaps_reserved b"
proof -
  assume e: "buddy_env b' = buddy_env b"
  show ?thesis by (intro ext) (simp add: overlaps_reserved_def buddy_envD [OF e])
qed

lemma env_covered: "buddy_env b' = buddy_env b \<Longrightarrow> covered b' = covered b"
proof -
  assume e: "buddy_env b' = buddy_env b"
  show ?thesis by (intro ext) (simp add: covered_def buddy_envD [OF e])
qed

lemma env_links: "buddy_env b' = buddy_env b \<Longrightarrow> check_links b' = check_links b"
proof -
  assume e: "buddy_env b' = buddy_env b"
  show ?thesis by (intro ext) (simp add: check_links_def link_ok_def buddy_envD [OF e])
qed

subsection \<open>Fields after the elementary writes\<close>

lemma set_fields [simp]:
  "free_lists (set_next b a v) = free_lists b" "node_next (set_next b a v) = (node_next b)(a := v)"
  "node_prev (set_next b a v) = node_prev b" "node_order (set_next b a v) = node_order b"
  "free_head (set_next b a v) = free_head b" "buddy_env (set_next b a v) = buddy_env b"
  "free_lists (set_prev b a v) = free_lists b" "node_next (set_prev b a v) = node_next b"
  "node_prev (set_prev b a v) = (node_prev b)(a := v)" "node_order (set_prev b a v) = node_order b"
  "free_head (set_prev b a v) = free_head b" "buddy_env (set_prev b a v) = buddy_env b"
  "free_lists (set_order b a v) = free_lists b" "node_next (set_order b a v) = node_next b"
  "node_prev (set_order b a v) = node_prev b" "node_order (set_order b a v) = (node_order b)(a := v)"
  "free_head (set_order b a v) = free_head b" "buddy_env (set_order b a v) = buddy_env b"
  "free_lists (set_head b k h) = (free_lists b)(k := h)" "node_next (set_head b k h) = node_next b"
  "node_prev (set_head b k h) = node_prev b" "node_order (set_head b k h) = node_order b"
  "free_head (set_head b k h) = free_head b" "buddy_env (set_head b k h) = buddy_env b"
  by (simp_all add: set_next_def set_prev_def set_order_def set_head_def buddy_env_def)

lemma head_bit_fields [simp]:
  "free_lists (head_bit_set b a v) = free_lists b" "node_next (head_bit_set b a v) = node_next b"
  "node_prev (head_bit_set b a v) = node_prev b" "node_order (head_bit_set b a v) = node_order b"
  "buddy_env (head_bit_set b a v) = buddy_env b"
  by (simp_all add: head_bit_set_def buddy_env_def Let_def)

lemma word_and_bit: "k < 64 \<Longrightarrow> (w::u64) AND push_bit k 1 \<noteq> 0 \<longleftrightarrow> bit w k"
  by (metis and_exp_eq_0_iff_not_bit push_bit_of_1)

lemma head_bit_iff:
  "head_bit b a \<longleftrightarrow> bit (free_head b (a div PAGE_SIZE div 64)) (a div PAGE_SIZE mod 64)"
  unfolding head_bit_def Let_def by (rule word_and_bit) simp

lemma page_div_inj: "PAGE_SIZE dvd a \<Longrightarrow> PAGE_SIZE dvd c \<Longrightarrow> a div PAGE_SIZE = c div PAGE_SIZE \<Longrightarrow> a = c"
  by (metis dvd_div_mult_self)

lemma head_bit_set_iff:
  assumes "covered b c" "PAGE_SIZE dvd a" "PAGE_SIZE dvd c"
  shows "head_bit (head_bit_set b a v) c \<longleftrightarrow> (if c = a then v else head_bit b c)"
proof (cases "covered b a")
  case True
  let ?p = "a div PAGE_SIZE" and ?q = "c div PAGE_SIZE"
  have eq: "?q div 64 = ?p div 64 \<and> ?q mod 64 = ?p mod 64 \<longleftrightarrow> c = a"
    using page_div_inj assms(2,3) div_mod_64_eq by blast
  have "bit (free_head (head_bit_set b a v) (?q div 64)) (?q mod 64) \<longleftrightarrow>
    (if ?q div 64 = ?p div 64 \<and> ?q mod 64 = ?p mod 64 then v
     else bit (free_head b (?q div 64)) (?q mod 64))"
    using True bit_word_set [of "?p mod 64" "free_head b (?p div 64)" "?q mod 64"]
      bit_word_clear [of "free_head b (?p div 64)" "?p mod 64" "?q mod 64"]
    by (auto simp: head_bit_set_def Let_def word_set_def word_clear_def)
  then show ?thesis unfolding head_bit_iff eq .
next
  case False
  then show ?thesis using assms(1) by (auto simp: head_bit_set_def)
qed

lemma head_bit_cong: "free_head b' = free_head b \<Longrightarrow> head_bit b' = head_bit b"
  by (intro ext) (simp add: head_bit_def)

subsection \<open>The representation relation\<close>

type_synonym lists = "nat \<Rightarrow> usize list"

definition list_rep :: "buddy \<Rightarrow> nat \<Rightarrow> usize list \<Rightarrow> bool" where
  "list_rep b k xs \<longleftrightarrow> free_lists b k = hd_opt xs \<and> dll (node_next b) (node_prev b) 0 0 xs \<and>
    distinct xs \<and>
    (\<forall>a\<in>set xs. a \<noteq> 0 \<and> PAGE_SIZE dvd a \<and> a < phys_end b \<and> node_order b a = k)"

definition on_list :: "lists \<Rightarrow> usize \<Rightarrow> bool" where
  "on_list L a \<longleftrightarrow> (\<exists>k<MAX_ORDER. a \<in> set (L k))"

definition bits_rep :: "buddy \<Rightarrow> lists \<Rightarrow> bool" where
  "bits_rep b L \<longleftrightarrow> (\<forall>a. covered b a \<longrightarrow> PAGE_SIZE dvd a \<longrightarrow> head_bit b a = on_list L a)"

definition buddy_rep :: "buddy \<Rightarrow> lists \<Rightarrow> bool" where
  "buddy_rep b L \<longleftrightarrow> (\<forall>k<MAX_ORDER. list_rep b k (L k)) \<and> bits_rep b L"

lemma list_repD:
  assumes "buddy_rep b L" "k < MAX_ORDER"
  shows "free_lists b k = hd_opt (L k)" "dll (node_next b) (node_prev b) 0 0 (L k)" "distinct (L k)"
    "0 \<notin> set (L k)" "a \<in> set (L k) \<Longrightarrow> a \<noteq> 0 \<and> PAGE_SIZE dvd a \<and> a < phys_end b \<and> node_order b a = k"
  using assms by (auto simp: buddy_rep_def list_rep_def)

lemma on_one_list:
  "buddy_rep b L \<Longrightarrow> k < MAX_ORDER \<Longrightarrow> j < MAX_ORDER \<Longrightarrow> a \<in> set (L k) \<Longrightarrow> a \<in> set (L j) \<Longrightarrow> j = k"
  using list_repD(5) by metis

lemma list_rep_frame:
  assumes "list_rep b k xs" "free_lists b' k = free_lists b k" "buddy_env b' = buddy_env b"
    "\<And>a. a \<in> set xs \<Longrightarrow> node_next b' a = node_next b a \<and> node_prev b' a = node_prev b a \<and>
      node_order b' a = node_order b a"
  shows "list_rep b' k xs"
proof -
  have "dll (node_next b') (node_prev b') 0 0 xs = dll (node_next b) (node_prev b) 0 0 xs"
    using assms(4) by (intro dll_frame) auto
  then show ?thesis using assms buddy_envD(5) [OF assms(3)] by (auto simp: list_rep_def)
qed

lemma bits_rep_set:
  assumes "bits_rep b L" "PAGE_SIZE dvd a" "free_head b' = free_head (head_bit_set b a v)"
    "buddy_env b' = buddy_env b" "\<And>c. on_list L' c \<longleftrightarrow> (if c = a then v else on_list L c)"
  shows "bits_rep b' L'"
  unfolding bits_rep_def
  using assms head_bit_set_iff [of b _ a v] head_bit_cong [OF assms(3)] env_covered [OF assms(4)]
  by (auto simp: bits_rep_def)

subsection \<open>push\_front refines consing\<close>

lemma head_bit_set_head_cong:
  "free_head b' = free_head b \<Longrightarrow> buddy_env b' = buddy_env b \<Longrightarrow>
    free_head (head_bit_set b' a v) = free_head (head_bit_set b a v)"
  using env_covered [of b' b] by (simp add: head_bit_set_def Let_def)

lemma push_front_fields [buddy_fields]:
  "free_lists (push_front b k a) = (free_lists b)(k := Some a)"
  "node_next (push_front b k a) = (node_next b)(a := (case free_lists b k of None \<Rightarrow> 0 | Some h \<Rightarrow> h))"
  "node_prev (push_front b k a) =
    (case free_lists b k of None \<Rightarrow> (node_prev b)(a := 0)
     | Some h \<Rightarrow> (node_prev b)(a := 0, h := a))"
  "node_order (push_front b k a) = (node_order b)(a := k)"
  "buddy_env (push_front b k a) = buddy_env b"
  "free_head (push_front b k a) = free_head (head_bit_set b a True)"
  by (auto simp: push_front_def Let_def head_bit_set_def covered_def set_next_def set_prev_def
      set_order_def set_head_def buddy_env_def split: option.splits)

lemma push_front_list:
  assumes "list_rep b k xs" "a \<notin> set xs" "a \<noteq> 0" "PAGE_SIZE dvd a" "a < phys_end b"
  shows "list_rep (push_front b k a) k (a # xs)"
proof -
  let ?b = "push_front b k a"
  have d: "dll (node_next b) (node_prev b) 0 0 xs" "distinct xs" "free_lists b k = hd_opt xs"
    using assms(1) by (auto simp: list_rep_def)
  have "node_next ?b = (node_next b)(a := hdz 0 xs)"
    using d(3) by (cases xs) (auto simp: push_front_fields)
  moreover have "node_prev ?b = (if xs = [] then node_prev b else (node_prev b)(hd xs := a))(a := 0)"
    using d(3) assms(2) by (cases xs) (auto simp: push_front_fields fun_upd_twist)
  ultimately have "dll (node_next ?b) (node_prev ?b) 0 0 (a # xs)"
    using dll_push [OF d(1) assms(2) d(2)] by simp
  then show ?thesis
    using assms buddy_envD(5) [OF push_front_fields(5)] by (auto simp: list_rep_def push_front_fields)
qed

lemma push_front_rep:
  assumes "buddy_rep b L" "k < MAX_ORDER" "\<not> on_list L a" "a \<noteq> 0" "PAGE_SIZE dvd a" "a < phys_end b"
  shows "buddy_rep (push_front b k a) (L(k := a # L k))"
proof -
  let ?b = "push_front b k a"
  have l: "list_rep b j (L j)" if "j < MAX_ORDER" for j using assms(1) that by (simp add: buddy_rep_def)
  have n: "a \<notin> set (L j)" if "j < MAX_ORDER" for j using assms(3) that by (auto simp: on_list_def)
  have "list_rep ?b j (L j)" if "j < MAX_ORDER" "j \<noteq> k" for j
  proof (rule list_rep_frame [OF l [OF that(1)]])
    fix c assume c: "c \<in> set (L j)"
    have "c \<notin> set (L k)" using on_one_list [OF assms(1,2) that(1)] c that(2) by blast
    moreover have "free_lists b k = hd_opt (L k)" using list_repD(1) [OF assms(1,2)] .
    ultimately show "node_next ?b c = node_next b c \<and> node_prev ?b c = node_prev b c \<and>
      node_order ?b c = node_order b c"
      using n [OF that(1)] c by (cases "L k") (auto simp: push_front_fields)
  qed (use that(2) in \<open>simp_all add: push_front_fields\<close>)
  moreover have "list_rep ?b k (a # L k)"
    using push_front_list [OF l [OF assms(2)] n [OF assms(2)]] assms by blast
  moreover have "bits_rep ?b (L(k := a # L k))"
    using assms(1,2,5)
    by (intro bits_rep_set [of b L a ?b True]) (auto simp: buddy_rep_def push_front_fields on_list_def)
  ultimately show ?thesis by (auto simp: buddy_rep_def)
qed

subsection \<open>unlink refines removal\<close>

definition unlinked :: "buddy \<Rightarrow> nat \<Rightarrow> usize \<Rightarrow> buddy" where
  "unlinked b k a =
    (let nxt = node_next b a; prv = node_prev b a;
         b = (if prv \<noteq> 0 then set_next b prv nxt
              else set_head b k (if nxt = 0 then None else Some nxt));
         b = (if nxt \<noteq> 0 then set_prev b nxt prv else b)
     in head_bit_set b a False)"

lemma unlink_eq:
  "unlink b k a = (if check_links b (node_next b a) (node_prev b a) then Some (unlinked b k a) else None)"
  by (simp add: unlink_def unlinked_def Let_def)

lemma unlinked_fields [buddy_fields]:
  "free_lists (unlinked b k a) = (if node_prev b a \<noteq> 0 then free_lists b
     else (free_lists b)(k := if node_next b a = 0 then None else Some (node_next b a)))"
  "node_next (unlinked b k a) = (if node_prev b a \<noteq> 0
     then (node_next b)(node_prev b a := node_next b a) else node_next b)"
  "node_prev (unlinked b k a) = (if node_next b a \<noteq> 0
     then (node_prev b)(node_next b a := node_prev b a) else node_prev b)"
  "node_order (unlinked b k a) = node_order b"
  "buddy_env (unlinked b k a) = buddy_env b"
  by (simp_all add: unlinked_def Let_def)

lemma unlinked_head [buddy_fields]:
  "free_head (unlinked b k a) = free_head (head_bit_set b a False)"
  unfolding unlinked_def Let_def by (rule head_bit_set_head_cong) simp_all

lemma links_in_list:
  assumes "buddy_rep b L" "k < MAX_ORDER" "L k = xs @ a # ys"
  shows "node_next b a = hdz 0 ys" "node_prev b a = lastz 0 xs"
    "node_next b a = 0 \<longleftrightarrow> ys = []" "node_prev b a = 0 \<longleftrightarrow> xs = []"
    "check_links b (node_next b a) (node_prev b a)" "check_links b (node_next b a) 0"
proof -
  note r = list_repD [OF assms(1,2), unfolded assms(3)]
  show n: "node_next b a = hdz 0 ys" and p: "node_prev b a = lastz 0 xs"
    using dll_links [OF r(2)] by auto
  show n0: "node_next b a = 0 \<longleftrightarrow> ys = []" and p0: "node_prev b a = 0 \<longleftrightarrow> xs = []"
    using n p r(4) hdz_null_iff [of 0 ys] lastz_null_iff [of 0 xs] by auto
  have "link_ok b (node_next b a)"
    using r(5) [of "hdz 0 ys"] hdz_in [of ys 0] n n0 by (auto simp: link_ok_iff)
  moreover have "link_ok b (node_prev b a)"
    using r(5) [of "lastz 0 xs"] lastz_in [of xs 0] p p0 by (auto simp: link_ok_iff)
  ultimately show "check_links b (node_next b a) (node_prev b a)" "check_links b (node_next b a) 0"
    by (auto simp: check_links_def link_ok_def)
qed

lemma unlinked_list:
  assumes "buddy_rep b L" "k < MAX_ORDER" "L k = xs @ a # ys"
  shows "list_rep (unlinked b k a) k (xs @ ys)"
proof -
  let ?b = "unlinked b k a"
  note r = list_repD [OF assms(1,2), unfolded assms(3)] and l = links_in_list [OF assms]
  have "node_next ?b = (if xs = [] then node_next b else (node_next b)(last xs := hdz 0 ys))"
    using l by (auto simp: unlinked_fields lastz_def)
  moreover have "node_prev ?b = (if ys = [] then node_prev b else (node_prev b)(hd ys := lastz 0 xs))"
    using l by (cases ys) (auto simp: unlinked_fields)
  ultimately have "dll (node_next ?b) (node_prev ?b) 0 0 (xs @ ys)"
    using dll_unlink [OF r(2,3)] by simp
  moreover have "free_lists ?b k = hd_opt (xs @ ys)"
    using r(1) l by (cases xs; cases ys) (auto simp: unlinked_fields)
  moreover have "node_order ?b = node_order b" "phys_end ?b = phys_end b"
    using buddy_envD(5) [OF unlinked_fields(5)] by (auto simp: unlinked_fields)
  ultimately show ?thesis using r(3,5) by (auto simp: list_rep_def)
qed

lemma unlinked_rep:
  assumes "buddy_rep b L" "k < MAX_ORDER" "a \<in> set (L k)"
  shows "buddy_rep (unlinked b k a) (L(k := remove1 a (L k)))"
proof -
  let ?b = "unlinked b k a"
  obtain xs ys where s: "L k = xs @ a # ys" using assms(3) split_list by metis
  note l = links_in_list [OF assms(1,2) s] and r = list_repD [OF assms(1,2)]
  have rm: "remove1 a (L k) = xs @ ys" using remove1_split r(3) s by metis
  have "list_rep ?b j (L j)" if j: "j < MAX_ORDER" "j \<noteq> k" for j
  proof (rule list_rep_frame [where b = b])
    fix c assume c: "c \<in> set (L j)"
    have "c \<notin> set (L k)" using on_one_list [OF assms(1,2) j(1)] c j(2) by blast
    then have "c \<noteq> lastz 0 xs" if "xs \<noteq> []" using lastz_in [OF that] s by auto
    moreover have "c \<noteq> hdz 0 ys" if "ys \<noteq> []" using \<open>c \<notin> set (L k)\<close> hdz_in [OF that] s by auto
    ultimately show "node_next ?b c = node_next b c \<and> node_prev ?b c = node_prev b c \<and>
      node_order ?b c = node_order b c"
      using l by (auto simp: unlinked_fields)
  qed (use assms(1) j in \<open>auto simp: buddy_rep_def unlinked_fields\<close>)
  moreover have "list_rep ?b k (xs @ ys)" using unlinked_list [OF assms(1,2) s] .
  moreover have "bits_rep ?b (L(k := xs @ ys))"
  proof (rule bits_rep_set [of b L a ?b False])
    show "PAGE_SIZE dvd a" using r(5) assms(3) by blast
    have "a \<notin> set (xs @ ys)" using r(3) s by auto
    moreover have "a \<notin> set (L j)" if "j < MAX_ORDER" "j \<noteq> k" for j
      using on_one_list [OF assms(1,2) that(1) assms(3)] that(2) by blast
    ultimately have "\<not> on_list (L(k := xs @ ys)) a" unfolding on_list_def by (metis fun_upd_apply)
    moreover have "on_list (L(k := xs @ ys)) c \<longleftrightarrow> on_list L c" if "c \<noteq> a" for c
    proof -
      have "c \<in> set ((L(k := xs @ ys)) j) \<longleftrightarrow> c \<in> set (L j)" for j using that s by auto
      then show ?thesis unfolding on_list_def by blast
    qed
    ultimately show "on_list (L(k := xs @ ys)) c \<longleftrightarrow> (if c = a then False else on_list L c)" for c
      by simp
  qed (use assms(1) in \<open>auto simp: buddy_rep_def unlinked_fields unlinked_head\<close>)
  ultimately show ?thesis using rm by (auto simp: buddy_rep_def)
qed

lemma unlink_rep:
  assumes "buddy_rep b L" "k < MAX_ORDER" "a \<in> set (L k)"
  shows "unlink b k a = Some (unlinked b k a)"
proof -
  obtain xs ys where "L k = xs @ a # ys" using assms(3) split_list by metis
  from links_in_list(5) [OF assms(1,2) this] show ?thesis by (simp add: unlink_eq)
qed

subsection \<open>try\_remove refines conditional removal\<close>

lemma next_cursor:
  assumes "buddy_rep b L" "k < MAX_ORDER" "L k = xs @ a # ys"
  shows "(if node_next b a = 0 then None else Some (node_next b a)) = hd_opt ys"
  using links_in_list(1,3) [OF assms] by (cases ys) auto

lemma try_remove_walk_rep:
  assumes "buddy_rep b L" "k < MAX_ORDER"
  shows "L k = xs @ ys \<Longrightarrow> t \<notin> set xs \<Longrightarrow> try_remove_walk (hd_opt ys) k t b =
    Some (if t \<in> set (L k) then (True, unlinked b k t) else (False, b))"
proof (induction ys arbitrary: xs)
  case Nil
  then show ?case by (subst try_remove_walk.simps) simp
next
  case (Cons a ys)
  have u: "t \<in> set (L k) \<Longrightarrow> unlink b k t = Some (unlinked b k t)" using unlink_rep [OF assms] .
  show ?case
  proof (cases "a = t")
    case True
    then show ?thesis
      using links_in_list(6) [OF assms Cons.prems(1)] u Cons.prems(1)
      by (subst try_remove_walk.simps) simp
  next
    case False
    then have "try_remove_walk (hd_opt ys) k t b =
      Some (if t \<in> set (L k) then (True, unlinked b k t) else (False, b))"
      using Cons.IH [of "xs @ [a]"] Cons.prems by simp
    then show ?thesis
      using links_in_list(6) [OF assms Cons.prems(1)] next_cursor [OF assms Cons.prems(1)] False
      by (subst try_remove_walk.simps) simp
  qed
qed

lemma try_remove_rep:
  assumes "buddy_rep b L" "k < MAX_ORDER" "PAGE_SIZE dvd t"
  shows "try_remove b k t = Some (if t \<in> set (L k) then (True, unlinked b k t) else (False, b))"
proof (cases "covered b t")
  case True
  have "t \<in> set (L k) \<longleftrightarrow> head_bit b t \<and> node_order b t = k"
    using assms True list_repD(5) [OF assms(1)]
    by (auto simp: buddy_rep_def bits_rep_def on_list_def)
  then show ?thesis using True unlink_rep [OF assms(1,2)] by (auto simp: try_remove_def)
next
  case False
  then show ?thesis
    using try_remove_walk_rep [OF assms(1,2), of "[]" "L k" t] list_repD(1) [OF assms(1,2)]
    by (simp add: try_remove_def)
qed

subsection \<open>The allocation scans\<close>

text \<open>Both scans end by taking one block off its list and pushing the unused halves.\<close>

definition taken :: "buddy \<Rightarrow> nat \<Rightarrow> nat \<Rightarrow> usize \<Rightarrow> buddy" where
  "taken b order j a =
    (let b = split_down (unlinked b j a) a order j
     in b\<lparr>free_pages := usub (free_pages b) (2 ^ order)\<rparr>)"

lemma pop_eq_unlinked:
  assumes "node_prev b a = 0"
  shows "head_bit_set (if node_next b a \<noteq> 0
      then set_head (set_prev (set_head b k None) (node_next b a) 0) k (Some (node_next b a))
      else set_head (set_head b k None) k None) a False = unlinked b k a"
  using assms by (cases b) (simp add: unlinked_def Let_def set_head_def set_prev_def)

lemma alloc_scan_hit:
  assumes "buddy_rep b L" "j < MAX_ORDER" "L j = a # xs"
  shows "alloc_scan b order j = Some (Some a, taken b order j a)"
proof -
  note l = links_in_list [OF assms(1,2), of "[]" a xs, simplified, OF assms(3)]
  have "check_links (set_head b j None) (node_next b a) 0"
    using l(6) env_links [of "set_head b j None" b] by simp
  moreover have "free_lists b j = Some a" using list_repD(1) [OF assms(1,2)] assms(3) by simp
  ultimately show ?thesis
    using pop_eq_unlinked [OF l(2), of j] assms(2)
    by (subst alloc_scan.simps, cases "node_next b a = 0") (simp_all add: Let_def taken_def)
qed

lemma alloc_scan_miss:
  assumes "buddy_rep b L" "j < MAX_ORDER" "L j = []"
  shows "alloc_scan b order j = alloc_scan b order (j + 1)"
  using list_repD(1) [OF assms(1,2)] assms(2,3) by (subst alloc_scan.simps) simp

lemma alloc_scan_rep:
  assumes "buddy_rep b L"
  shows "j \<le> MAX_ORDER \<Longrightarrow>
    (alloc_scan b order j = Some (None, b) \<and> (\<forall>i. j \<le> i \<and> i < MAX_ORDER \<longrightarrow> L i = [])) \<or>
    (\<exists>i a. j \<le> i \<and> i < MAX_ORDER \<and> a \<in> set (L i) \<and>
      alloc_scan b order j = Some (Some a, taken b order i a))"
proof (induction "MAX_ORDER - j" arbitrary: j)
  case 0
  then show ?case by (subst alloc_scan.simps) auto
next
  case (Suc n)
  then have j: "j < MAX_ORDER" by simp
  show ?case
  proof (cases "L j")
    case Nil
    have "n = MAX_ORDER - (j + 1)" "j + 1 \<le> MAX_ORDER" using Suc.hyps(2) by auto
    from Suc.hyps(1) [OF this] show ?thesis
      unfolding alloc_scan_miss [OF assms j Nil] using Nil by (metis Suc_eq_plus1 Suc_leI le_neq_implies_less Suc_leD)
  next
    case (Cons a xs)
    then show ?thesis using alloc_scan_hit [OF assms j Cons] j by auto
  qed
qed

lemma below_walk_rep:
  assumes "buddy_rep b L" "k < MAX_ORDER"
  shows "L k = xs @ ys \<Longrightarrow> \<exists>r. below_walk (hd_opt ys) order limit b = Some r \<and>
    (case r of None \<Rightarrow> \<forall>a\<in>set ys. \<not> uadd a (block_size order) \<le> limit
     | Some a \<Rightarrow> a \<in> set ys \<and> uadd a (block_size order) \<le> limit)"
proof (induction ys arbitrary: xs)
  case Nil
  then show ?case by (subst below_walk.simps) simp
next
  case (Cons a ys)
  have ck: "check_links b (node_next b a) 0" using links_in_list(6) [OF assms Cons.prems] .
  show ?case
  proof (cases "uadd a (block_size order) \<le> limit")
    case True
    then show ?thesis using ck by (subst below_walk.simps) simp
  next
    case False
    have "L k = (xs @ [a]) @ ys" using Cons.prems by simp
    from Cons.IH [OF this] obtain r where r: "below_walk (hd_opt ys) order limit b = Some r"
      "case r of None \<Rightarrow> \<forall>a\<in>set ys. \<not> uadd a (block_size order) \<le> limit
       | Some a \<Rightarrow> a \<in> set ys \<and> uadd a (block_size order) \<le> limit" by blast
    have "below_walk (hd_opt (a # ys)) order limit b = Some r"
      using r(1) ck next_cursor [OF assms Cons.prems] False by (subst below_walk.simps) simp
    then show ?thesis using r(2) False by (auto split: option.splits)
  qed
qed

lemma below_scan_rep:
  assumes "buddy_rep b L"
  shows "j \<le> MAX_ORDER \<Longrightarrow>
    (below_scan b order limit j = Some (None, b) \<and>
      (\<forall>i a. j \<le> i \<and> i < MAX_ORDER \<and> a \<in> set (L i) \<longrightarrow> \<not> uadd a (block_size order) \<le> limit)) \<or>
    (\<exists>i a. j \<le> i \<and> i < MAX_ORDER \<and> a \<in> set (L i) \<and> uadd a (block_size order) \<le> limit \<and>
      below_scan b order limit j = Some (Some a, taken b order i a))"
proof (induction "MAX_ORDER - j" arbitrary: j)
  case 0
  then show ?case by (subst below_scan.simps) auto
next
  case (Suc n)
  then have j: "j < MAX_ORDER" by simp
  obtain r where r: "below_walk (free_lists b j) order limit b = Some r"
    "case r of None \<Rightarrow> \<forall>a\<in>set (L j). \<not> uadd a (block_size order) \<le> limit
       | Some a \<Rightarrow> a \<in> set (L j) \<and> uadd a (block_size order) \<le> limit"
    using below_walk_rep [OF assms j, of "[]" "L j" order limit] list_repD(1) [OF assms j] by auto
  show ?case
  proof (cases r)
    case None
    have "below_scan b order limit j = below_scan b order limit (j + 1)"
      using r(1) None j by (subst below_scan.simps) simp
    moreover have "\<forall>a\<in>set (L j). \<not> uadd a (block_size order) \<le> limit" using r(2) None by simp
    moreover have "n = MAX_ORDER - (j + 1)" "j + 1 \<le> MAX_ORDER" using Suc.hyps(2) by auto
    note Suc.hyps(1) [OF this]
    ultimately show ?thesis by (metis Suc_eq_plus1 Suc_leI le_neq_implies_less Suc_leD)
  next
    case (Some a)
    then have "below_scan b order limit j = Some (Some a, taken b order j a)"
      using r j unlink_rep [OF assms j]
      by (subst below_scan.simps) (simp add: taken_def Let_def)
    then show ?thesis using Some r(2) j by auto
  qed
qed

lemma census_walk_rep:
  assumes "buddy_rep b L" "k < MAX_ORDER"
  shows "L k = xs @ ys \<Longrightarrow> n + length ys \<le> 4000000 \<Longrightarrow> census_walk (hd_opt ys) n b = n + length ys"
proof (induction ys arbitrary: xs n)
  case Nil
  then show ?case by (subst census_walk.simps) simp
next
  case (Cons a ys)
  then show ?case
    using Cons.IH [of "xs @ [a]" "n + 1"] next_cursor [OF assms Cons.prems(1)]
    by (subst census_walk.simps) simp
qed

end
