(* ===== verification/Buddy_Blocks.thy ===== *)
theory Buddy_Blocks
  imports Buddy_Lists
begin

text \<open>
  The page allocator seen as a set of free pages.  A block of order \<open>k\<close> at address \<open>a\<close> is the
  aligned run \<open>block_pages k a\<close> of \<open>2 ^ k\<close> pages.  \<open>blocks_ok\<close> says that the blocks on the free
  lists are aligned, inside RAM, clear of the reserved ranges, pairwise disjoint, and that no
  two buddies are both free (everything that can be merged is merged).  \<open>buddy_ok b F\<close> adds
  that the represented free pages are exactly \<open>F\<close> and that the page counter counts them.
\<close>

named_theorems block_facts "aligned page runs"

subsection \<open>Aligned runs of pages\<close>

definition block_pages :: "nat \<Rightarrow> usize \<Rightarrow> nat set" where
  "block_pages k a = {a div PAGE_SIZE ..< a div PAGE_SIZE + 2 ^ k}"

lemma block_pages_finite [simp]: "finite (block_pages k a)"
  by (simp add: block_pages_def)

lemma block_pages_card [simp]: "card (block_pages k a) = 2 ^ k"
  by (simp add: block_pages_def)

lemma head_page: "a div PAGE_SIZE \<in> block_pages k a"
  by (simp add: block_pages_def)

lemma block_size_dvd_page: "block_size k dvd a \<Longrightarrow> PAGE_SIZE dvd a"
  unfolding block_size_eq by (rule dvd_mult_left)

lemma block_size_Suc: "block_size (Suc k) = 2 * block_size k"
  by (simp add: block_size_eq)

lemma block_size_mono: "k \<le> j \<Longrightarrow> block_size k dvd block_size j"
  by (simp add: block_size_eq le_imp_power_dvd)

lemma block_pages_shift:
  "PAGE_SIZE dvd a \<Longrightarrow> (a + block_size k) div PAGE_SIZE = a div PAGE_SIZE + 2 ^ k"
  by (simp add: block_size_eq)

lemma aligned_page: "block_size k dvd a \<Longrightarrow> 2 ^ k dvd a div PAGE_SIZE"
  by (auto simp: block_size_eq elim!: dvdE)

lemma block_pages_split:
  "block_size k dvd a \<Longrightarrow> block_pages (Suc k) a = block_pages k a \<union> block_pages k (a + block_size k)"
  using block_pages_shift [OF block_size_dvd_page [of k a], of k] by (auto simp: block_pages_def)

lemma block_pages_halves:
  "block_size k dvd a \<Longrightarrow> block_pages k a \<inter> block_pages k (a + block_size k) = {}"
  using block_pages_shift [OF block_size_dvd_page [of k a], of k] by (auto simp: block_pages_def)

lemma dyadic:
  fixes p q :: nat
  assumes "2 ^ k dvd p" "2 ^ j dvd q" "k \<le> j" "x \<in> {p..<p + 2 ^ k}" "x \<in> {q..<q + 2 ^ j}"
  shows "{p..<p + 2 ^ k} \<subseteq> {q..<q + 2 ^ j}"
proof -
  have d: "(2::nat) ^ k dvd 2 ^ j" using assms(3) by (rule le_imp_power_dvd)
  have "2 ^ k dvd q" using d assms(2) by (rule dvd_trans)
  obtain m n l where m: "p = 2 ^ k * m" and n: "q = 2 ^ k * n" and l: "(2::nat) ^ j = 2 ^ k * l"
    using assms(1) \<open>2 ^ k dvd q\<close> d by (auto elim!: dvdE)
  have "2 ^ k * m < 2 ^ k * (n + l)" "2 ^ k * n < 2 ^ k * (m + 1)"
    using assms(4,5) m n l by (auto simp: algebra_simps)
  then have "m < n + l" "n < m + 1" unfolding mult_less_cancel1 by blast+
  then have "n \<le> m" "m + 1 \<le> n + l" by linarith+
  then have "2 ^ k * n \<le> 2 ^ k * m" "2 ^ k * (m + 1) \<le> 2 ^ k * (n + l)"
    by (metis mult_le_mono2)+
  then show ?thesis using m n l by (auto simp: algebra_simps)
qed

lemma block_pages_nested:
  assumes "block_size k dvd a" "block_size j dvd c" "k \<le> j" "x \<in> block_pages k a" "x \<in> block_pages j c"
  shows "block_pages k a \<subseteq> block_pages j c"
  using dyadic [OF aligned_page [OF assms(1)] aligned_page [OF assms(2)] assms(3)] assms(4,5)
  unfolding block_pages_def by blast

lemma block_pages_inj:
  "PAGE_SIZE dvd a \<Longrightarrow> PAGE_SIZE dvd c \<Longrightarrow> block_pages k a = block_pages k c \<Longrightarrow> a = c"
proof -
  assume "PAGE_SIZE dvd a" "PAGE_SIZE dvd c" "block_pages k a = block_pages k c"
  moreover have "Min (block_pages k a) = a div PAGE_SIZE" for a
    unfolding block_pages_def by (intro Min_eqI) auto
  ultimately show "a = c" using page_div_inj by metis
qed

subsection \<open>The buddy of a block\<close>

lemma bit_aligned: "2 ^ k dvd (a::nat) \<Longrightarrow> bit a n \<Longrightarrow> k \<le> n"
  by (auto elim!: dvdE simp flip: push_bit_eq_mult simp: bit_push_bit_iff mult.commute)

lemma xor_pow_set:
  fixes a :: nat
  assumes "bit a k"
  shows "a XOR 2 ^ k = a - 2 ^ k" "2 ^ k \<le> a"
proof -
  let ?c = "a XOR 2 ^ k"
  have c: "\<not> bit ?c k" using assms by (simp add: bit_xor_iff bit_exp_iff)
  have a: "a = ?c OR 2 ^ k"
    by (rule bit_eqI) (use assms in \<open>auto simp: bit_or_iff bit_xor_iff bit_exp_iff\<close>)
  have "?c AND 2 ^ k = 0" using c by (simp add: and_exp_eq_0_iff_not_bit)
  then have "?c OR 2 ^ k = ?c + 2 ^ k" by (simp add: disjunctive_add_eq_or)
  then have "a = ?c + 2 ^ k" using a by simp
  then show "a XOR 2 ^ k = a - 2 ^ k" "2 ^ k \<le> a" by linarith+
qed

lemma xor_pow_clear:
  fixes a :: nat
  assumes "\<not> bit a k"
  shows "a XOR 2 ^ k = a + 2 ^ k"
proof -
  have "bit (a XOR 2 ^ k) k" using assms by (simp add: bit_xor_iff bit_exp_iff)
  from xor_pow_set [OF this] show ?thesis by (simp add: xor.assoc)
qed

lemma block_size_pow: "block_size k = 2 ^ (k + 12)"
  by (simp add: block_size_eq PAGE_SIZE_def power_add)

lemma buddy_addr:
  assumes "block_size k dvd a"
  shows "block_size (Suc k) dvd a \<and> a XOR block_size k = a + block_size k \<or>
    block_size k \<le> a \<and> block_size (Suc k) dvd a - block_size k \<and> a XOR block_size k = a - block_size k"
proof (cases "bit a (k + 12)")
  case True
  obtain m where m: "a = 2 ^ (k + 12) * m" using assms unfolding block_size_pow by (elim dvdE)
  have "odd m" using True unfolding m bit_iff_odd by simp
  then obtain n where "m = Suc (2 * n)" by (auto elim: oddE)
  then have "a - block_size k = 2 ^ (Suc k + 12) * n" unfolding m block_size_pow by (simp add: power_add)
  then show ?thesis using xor_pow_set [OF True] by (simp add: block_size_pow)
next
  case False
  obtain m where m: "a = 2 ^ (k + 12) * m" using assms unfolding block_size_pow by (elim dvdE)
  have "even m" using False unfolding m bit_iff_odd by simp
  then obtain n where "m = 2 * n" by (auto elim: evenE)
  then have "a = 2 ^ (Suc k + 12) * n" unfolding m by (simp add: power_add)
  then show ?thesis using xor_pow_clear [OF False] unfolding block_size_pow by simp
qed

lemma buddy_lower:
  assumes "block_size (Suc k) dvd a"
  shows "a XOR block_size k = a + block_size k"
proof -
  have d: "block_size k dvd a"
    using assms by (auto simp: block_size_eq intro: dvd_trans [of _ "PAGE_SIZE * 2 ^ Suc k"])
  have "\<not> block_size (Suc k) dvd a - block_size k" if "block_size k \<le> a"
  proof
    assume "block_size (Suc k) dvd a - block_size k"
    then have "block_size (Suc k) dvd block_size k" using assms that by (metis dvd_diffD1)
    then show False
      using dvd_imp_le [of "block_size (Suc k)" "block_size k"] block_size_Suc [of k]
        block_size_pos [of k] by linarith
  qed
  then show ?thesis using buddy_addr [OF d] by blast
qed

lemma buddy_xor_self: "(a XOR block_size k) XOR block_size k = (a::nat)"
  by (simp add: xor.assoc)

lemma buddy_xor_neq: "a XOR block_size k \<noteq> (a::nat)"
  by (metis block_size_pos less_irrefl xor.left_neutral xor_self_eq xor.assoc)

lemma buddy_merge:
  assumes "block_size k dvd a"
  shows "block_size k dvd a XOR block_size k"
    "block_size (Suc k) dvd min a (a XOR block_size k)"
    "block_pages (Suc k) (min a (a XOR block_size k)) =
      block_pages k a \<union> block_pages k (a XOR block_size k)"
    "block_pages k a \<inter> block_pages k (a XOR block_size k) = {}"
    "max a (a XOR block_size k) = min a (a XOR block_size k) + block_size k"
proof -
  consider (lo) "block_size (Suc k) dvd a" "a XOR block_size k = a + block_size k"
    | (hi) "block_size k \<le> a" "block_size (Suc k) dvd a - block_size k"
      "a XOR block_size k = a - block_size k"
    using buddy_addr [OF assms] by blast
  note cases = this
  have k: "block_size k dvd a - block_size k" using assms by (simp add: dvd_diff_nat)
  show "block_size k dvd a XOR block_size k"
    by (rule cases) (use assms k in simp_all)
  have pos: "\<not> a \<le> a - block_size k" if "block_size k \<le> a"
    using block_size_pos [of k] that by linarith
  show "block_size (Suc k) dvd min a (a XOR block_size k)"
    by (rule cases) (use pos in \<open>simp_all add: min_def\<close>)
  show "block_pages (Suc k) (min a (a XOR block_size k)) =
      block_pages k a \<union> block_pages k (a XOR block_size k)"
    by (rule cases) (use pos block_pages_split [OF assms] block_pages_split [OF k] in \<open>auto simp: min_def\<close>)
  show "block_pages k a \<inter> block_pages k (a XOR block_size k) = {}"
    by (rule cases) (use block_pages_halves [OF assms] block_pages_halves [OF k] in \<open>auto simp: Int_commute\<close>)
  show "max a (a XOR block_size k) = min a (a XOR block_size k) + block_size k"
    by (rule cases) (auto simp: min_def max_def)
qed

subsection \<open>The block invariant\<close>

definition reserved_ranges :: "buddy \<Rightarrow> (usize \<times> usize) list" where
  "reserved_ranges b = (bitmap_phys b, bitmap_phys_end b) # reserved b"

lemma overlaps_iff:
  "overlaps_reserved b a sz \<longleftrightarrow>
    (\<exists>s e. (s, e) \<in> set (reserved_ranges b) \<and> s \<noteq> e \<and> a < e \<and> s < uadd a sz)"
  by (auto simp: overlaps_reserved_def reserved_ranges_def Let_def list_ex_iff)

text \<open>The environment the lists live in: RAM ends within the physical address width and the
  reserved ranges are not inverted.\<close>

definition env_ok :: "buddy \<Rightarrow> bool" where
  "env_ok b \<longleftrightarrow> phys_end b \<le> 2 ^ 52 \<and> (\<forall>(s, e)\<in>set (reserved_ranges b). s \<le> e)"

definition good_block :: "buddy \<Rightarrow> nat \<Rightarrow> usize \<Rightarrow> bool" where
  "good_block b k a \<longleftrightarrow> block_size k dvd a \<and> 0 < a \<and> a + block_size k \<le> phys_end b \<and>
    \<not> overlaps_reserved b a (block_size k)"

definition blocks :: "lists \<Rightarrow> (nat \<times> usize) set" where
  "blocks L = {(k, a). k < MAX_ORDER \<and> a \<in> set (L k)}"

definition pages_of :: "(nat \<times> usize) \<Rightarrow> nat set" where
  "pages_of x = block_pages (fst x) (snd x)"

definition free_page_set :: "lists \<Rightarrow> nat set" where
  "free_page_set L = \<Union> (pages_of ` blocks L)"

definition merged :: "lists \<Rightarrow> bool" where
  "merged L \<longleftrightarrow> (\<forall>k a. k + 1 < MAX_ORDER \<longrightarrow> a \<in> set (L k) \<longrightarrow> a XOR block_size k \<notin> set (L k))"

definition blocks_ok :: "buddy \<Rightarrow> lists \<Rightarrow> bool" where
  "blocks_ok b L \<longleftrightarrow> (\<forall>(k, a)\<in>blocks L. good_block b k a) \<and>
    (\<forall>x\<in>blocks L. \<forall>y\<in>blocks L. x \<noteq> y \<longrightarrow> pages_of x \<inter> pages_of y = {}) \<and> merged L"

definition buddy_ok :: "buddy \<Rightarrow> nat set \<Rightarrow> bool" where
  "buddy_ok b F \<longleftrightarrow> env_ok b \<and> free_pages b = card F \<and>
    (\<exists>L. buddy_rep b L \<and> blocks_ok b L \<and> F = free_page_set L)"

lemma blocks_push: "k < MAX_ORDER \<Longrightarrow> blocks (L(k := a # L k)) = insert (k, a) (blocks L)"
  by (auto simp: blocks_def split: if_splits)

lemma blocks_remove:
  assumes "distinct (L k)" "k < MAX_ORDER"
  shows "blocks (L(k := remove1 a (L k))) = blocks L - {(k, a)}"
  using assms by (auto simp: blocks_def split: if_splits)

lemma free_page_set_push:
  "k < MAX_ORDER \<Longrightarrow> free_page_set (L(k := a # L k)) = block_pages k a \<union> free_page_set L"
  by (simp add: free_page_set_def blocks_push pages_of_def)

lemma free_page_set_remove:
  assumes "blocks_ok b L" "distinct (L k)" "k < MAX_ORDER" "a \<in> set (L k)"
  shows "free_page_set (L(k := remove1 a (L k))) = free_page_set L - block_pages k a"
proof -
  have "(k, a) \<in> blocks L" using assms by (simp add: blocks_def)
  then have "pages_of x \<inter> block_pages k a = {}" if "x \<in> blocks L - {(k, a)}" for x
    using assms(1) that unfolding blocks_ok_def pages_of_def by fastforce
  with \<open>(k, a) \<in> blocks L\<close> show ?thesis
    unfolding free_page_set_def blocks_remove [of L k, OF assms(2,3)] by (fastforce simp: pages_of_def)
qed

lemma blocks_ok_env:
  assumes "buddy_env b' = buddy_env b"
  shows "good_block b' = good_block b" "blocks_ok b' = blocks_ok b" "env_ok b' = env_ok b"
proof -
  show "env_ok b' = env_ok b" by (simp add: env_ok_def reserved_ranges_def buddy_envD [OF assms])
  show "good_block b' = good_block b"
    by (intro ext) (simp add: good_block_def buddy_envD [OF assms] env_overlaps [OF assms])
  then show "blocks_ok b' = blocks_ok b" by (intro ext) (simp add: blocks_ok_def)
qed

subsection \<open>Adding and removing a block\<close>

lemma overlaps_union:
  assumes "env_ok b" "a + sz + tz < 2 ^ 64"
    "\<not> overlaps_reserved b a sz" "\<not> overlaps_reserved b (a + sz) tz"
  shows "\<not> overlaps_reserved b a (sz + tz)"
proof -
  have u: "uadd a sz = a + sz" "uadd (a + sz) tz = a + sz + tz" "uadd a (sz + tz) = a + sz + tz"
    using assms(2) by (simp_all add: uadd_def)
  have "\<not> (a < e \<and> s < a + sz + tz)" if r: "(s, e) \<in> set (reserved_ranges b)" "s \<noteq> e" for s e
  proof -
    have "\<not> (a < e \<and> s < a + sz)" using assms(3) r unfolding overlaps_iff u by blast
    moreover have "\<not> (a + sz < e \<and> s < a + sz + tz)" using assms(4) r unfolding overlaps_iff u by blast
    moreover have "s < e" using assms(1) r by (auto simp: env_ok_def)
    ultimately show ?thesis by linarith
  qed
  then show ?thesis unfolding overlaps_iff u by blast
qed

lemma good_merge:
  assumes "good_block b k a" "good_block b k (a XOR block_size k)" "env_ok b"
  shows "good_block b (Suc k) (min a (a XOR block_size k))"
proof -
  let ?lo = "min a (a XOR block_size k)" and ?hi = "max a (a XOR block_size k)"
  have d: "block_size k dvd a" using assms(1) by (simp add: good_block_def)
  have hi: "?hi = ?lo + block_size k" using buddy_merge(5) [OF d] .
  have g: "good_block b k ?lo" "good_block b k ?hi" using assms(1,2) by (auto simp: min_def max_def)
  then have end_ok: "?lo + block_size k + block_size k \<le> phys_end b" using hi by (simp add: good_block_def)
  then have "?lo + block_size k + block_size k < 2 ^ 64" using assms(3) by (simp add: env_ok_def)
  then have "\<not> overlaps_reserved b ?lo (block_size k + block_size k)"
    using overlaps_union [OF assms(3), of ?lo "block_size k" "block_size k"] g hi by (simp add: good_block_def)
  moreover have "block_size (Suc k) = block_size k + block_size k" by (simp add: block_size_Suc)
  ultimately show ?thesis
    using g(1) end_ok buddy_merge(2) [OF d] by (simp add: good_block_def)
qed

lemma blocks_ok_push:
  assumes "blocks_ok b L" "k < MAX_ORDER" "good_block b k a" "block_pages k a \<inter> free_page_set L = {}"
    "k + 1 < MAX_ORDER \<Longrightarrow> a XOR block_size k \<notin> set (L k)"
  shows "blocks_ok b (L(k := a # L k))"
proof -
  have "pages_of x \<inter> pages_of (k, a) = {}" if "x \<in> blocks L" for x
    using assms(4) that by (fastforce simp: free_page_set_def pages_of_def)
  then have dis: "\<forall>x\<in>insert (k, a) (blocks L). \<forall>y\<in>insert (k, a) (blocks L). x \<noteq> y \<longrightarrow> pages_of x \<inter> pages_of y = {}"
    using assms(1) unfolding blocks_ok_def by (metis Int_commute insertE)
  have "c XOR block_size k \<noteq> a" if "c \<in> set (L k)" "k + 1 < MAX_ORDER" for c
    using assms(5) that buddy_xor_self [of c k] by metis
  then have "merged (L(k := a # L k))"
    using assms(1,5) buddy_xor_neq [of a k] unfolding blocks_ok_def merged_def by auto
  with dis assms(1,3) show ?thesis unfolding blocks_ok_def blocks_push [OF assms(2)] by blast
qed

lemma blocks_ok_remove:
  assumes "blocks_ok b L" "distinct (L k)" "k < MAX_ORDER"
  shows "blocks_ok b (L(k := remove1 a (L k)))"
proof -
  have "blocks (L(k := remove1 a (L k))) \<subseteq> blocks L"
    unfolding blocks_remove [of L k, OF assms(2,3)] by blast
  moreover have "merged (L(k := remove1 a (L k)))"
    using assms(1) set_remove1_subset [of a "L k"] unfolding blocks_ok_def merged_def by auto
  ultimately show ?thesis using assms(1) unfolding blocks_ok_def by (meson subset_iff)
qed

lemma good_not_on_list:
  assumes "block_pages k a \<inter> free_page_set L = {}"
  shows "\<not> on_list L a"
proof
  assume "on_list L a"
  then obtain j where "(j, a) \<in> blocks L" by (auto simp: on_list_def blocks_def)
  then have "a div PAGE_SIZE \<in> free_page_set L"
    using head_page [of a j] by (force simp: free_page_set_def pages_of_def)
  with assms head_page [of a k] show False by blast
qed

lemma good_blockD:
  "good_block b k a \<Longrightarrow> a \<noteq> 0 \<and> PAGE_SIZE dvd a \<and> a < phys_end b"
  using block_size_pos [of k] block_size_dvd_page [of k a] unfolding good_block_def by linarith

lemma push_front_ok:
  assumes "buddy_rep b L" "blocks_ok b L" "k < MAX_ORDER" "good_block b k a"
    "block_pages k a \<inter> free_page_set L = {}"
    "k + 1 < MAX_ORDER \<Longrightarrow> a XOR block_size k \<notin> set (L k)"
  shows "buddy_rep (push_front b k a) (L(k := a # L k))" "blocks_ok (push_front b k a) (L(k := a # L k))"
    "free_page_set (L(k := a # L k)) = block_pages k a \<union> free_page_set L"
  using push_front_rep [OF assms(1,3) good_not_on_list [OF assms(5)]] good_blockD [OF assms(4)]
    blocks_ok_push [OF assms(2-6)] blocks_ok_env(2) [OF push_front_fields(5)]
    free_page_set_push [OF assms(3)] by auto

lemma unlinked_ok:
  assumes "buddy_rep b L" "blocks_ok b L" "k < MAX_ORDER" "a \<in> set (L k)"
  shows "buddy_rep (unlinked b k a) (L(k := remove1 a (L k)))"
    "blocks_ok (unlinked b k a) (L(k := remove1 a (L k)))"
    "free_page_set (L(k := remove1 a (L k))) = free_page_set L - block_pages k a"
    "good_block b k a" "block_pages k a \<subseteq> free_page_set L"
proof -
  have d: "distinct (L k)" using list_repD(3) [OF assms(1,3)] .
  show "buddy_rep (unlinked b k a) (L(k := remove1 a (L k)))" using unlinked_rep assms(1,3,4) .
  show "blocks_ok (unlinked b k a) (L(k := remove1 a (L k)))"
    using blocks_ok_remove [where L = L, OF assms(2) d assms(3)] blocks_ok_env(2) [OF unlinked_fields(5)] by simp
  show "free_page_set (L(k := remove1 a (L k))) = free_page_set L - block_pages k a"
    using free_page_set_remove [where L = L, OF assms(2) d assms(3,4)] .
  have "(k, a) \<in> blocks L" using assms(3,4) by (simp add: blocks_def)
  then show "good_block b k a" "block_pages k a \<subseteq> free_page_set L"
    using assms(2) by (auto simp: blocks_ok_def free_page_set_def pages_of_def)
qed

subsection \<open>Accounting does not touch the lists\<close>

definition core :: "buddy \<Rightarrow> buddy" where
  "core b = b\<lparr>total_pages := 0, free_pages := 0, bad_frees := 0, tags := None, tag_pages := 0,
    site_key := (\<lambda>_. 0), site_pages := (\<lambda>_. 0), site_peak := (\<lambda>_. 0)\<rparr>"

lemma coreD:
  assumes "core b' = core b"
  shows "free_lists b' = free_lists b" "node_next b' = node_next b" "node_prev b' = node_prev b"
    "node_order b' = node_order b" "free_head b' = free_head b" "cover_end b' = cover_end b"
    "bitmap_phys b' = bitmap_phys b" "bitmap_phys_end b' = bitmap_phys_end b"
    "reserved b' = reserved b" "phys_end b' = phys_end b"
  using arg_cong [OF assms, of free_lists] arg_cong [OF assms, of node_next]
    arg_cong [OF assms, of node_prev] arg_cong [OF assms, of node_order]
    arg_cong [OF assms, of free_head] arg_cong [OF assms, of cover_end]
    arg_cong [OF assms, of bitmap_phys] arg_cong [OF assms, of bitmap_phys_end]
    arg_cong [OF assms, of reserved] arg_cong [OF assms, of phys_end]
  by (simp_all add: core_def)

lemma core_same:
  assumes c: "core b' = core b"
  shows "buddy_rep b' L \<longleftrightarrow> buddy_rep b L" "blocks_ok b' L \<longleftrightarrow> blocks_ok b L"
    "env_ok b' \<longleftrightarrow> env_ok b" "good_block b' k a \<longleftrightarrow> good_block b k a"
    "overlaps_reserved b' a sz \<longleftrightarrow> overlaps_reserved b a sz"
proof -
  note d = coreD [OF c]
  have "head_bit b' = head_bit b" "covered b' = covered b"
    using head_bit_cong d by (auto simp: covered_def fun_eq_iff)
  then show "buddy_rep b' L \<longleftrightarrow> buddy_rep b L"
    by (simp add: buddy_rep_def list_rep_def bits_rep_def d)
  have o: "overlaps_reserved b' = overlaps_reserved b"
    by (intro ext) (simp add: overlaps_reserved_def d)
  then have "good_block b' = good_block b" by (intro ext) (simp add: good_block_def d)
  then show "blocks_ok b' L \<longleftrightarrow> blocks_ok b L" "good_block b' k a \<longleftrightarrow> good_block b k a"
    by (simp_all add: blocks_ok_def)
  show "env_ok b' \<longleftrightarrow> env_ok b" by (simp add: env_ok_def reserved_ranges_def d)
  show "overlaps_reserved b' a sz \<longleftrightarrow> overlaps_reserved b a sz" using o by simp
qed

lemma charge_core [simp]: "core (charge b k n) = core b" "free_pages (charge b k n) = free_pages b"
  "bad_frees (charge b k n) = bad_frees b"
  by (simp_all add: charge_def core_def Let_def)

lemma untag_run_core:
  "core (untag_run b t ps r n) = core b \<and> free_pages (untag_run b t ps r n) = free_pages b \<and>
    bad_frees (untag_run b t ps r n) = bad_frees b"
proof (induction ps arbitrary: b t r n)
  case Nil
  then show ?case by (simp add: Let_def charge_core) (simp add: core_def charge_def)
next
  case (Cons p ps)
  show ?case by (simp add: Let_def Cons.IH)
qed

lemma untag_block_core [simp]:
  "core (untag_block b a k) = core b" "free_pages (untag_block b a k) = free_pages b"
  "bad_frees (untag_block b a k) = bad_frees b"
  using untag_run_core by (auto simp: untag_block_def Let_def split: option.splits)

lemma tag_block_core [simp]:
  "core (tag_block b a k s) = core b" "free_pages (tag_block b a k s) = free_pages b"
  by (auto simp: tag_block_def core_def Let_def split: option.splits)

lemma site_slot_core [simp]:
  "core (snd (site_slot b loc)) = core b" "free_pages (snd (site_slot b loc)) = free_pages b"
  by (auto simp: site_slot_def core_def Let_def split: prod.splits)

lemma track_core [simp]:
  "core (track b loc a k) = core b" "free_pages (track b loc a k) = free_pages b"
  by (auto simp: track_def Let_def case_prod_unfold split: option.splits)

lemma core_ok:
  "core b' = core b \<Longrightarrow> free_pages b' = free_pages b \<Longrightarrow> buddy_ok b' F \<longleftrightarrow> buddy_ok b F"
  using core_same [of b' b] by (simp add: buddy_ok_def)

subsection \<open>Coalescing\<close>

lemma coalesce_ok:
  assumes "buddy_rep b L" "blocks_ok b L" "env_ok b" "k < MAX_ORDER" "good_block b k a"
    "block_pages k a \<inter> free_page_set L = {}"
  shows "\<exists>b' a' k' L'. coalesce b a k = Some (b', a', k') \<and> buddy_rep b' L' \<and> blocks_ok b' L' \<and>
    buddy_env b' = buddy_env b \<and> k' < MAX_ORDER \<and> good_block b' k' a' \<and>
    block_pages k' a' \<inter> free_page_set L' = {} \<and>
    block_pages k' a' \<union> free_page_set L' = block_pages k a \<union> free_page_set L \<and>
    (k' + 1 < MAX_ORDER \<longrightarrow> a' XOR block_size k' \<notin> set (L' k'))"
  using assms
proof (induction "MAX_ORDER - k" arbitrary: b a k L rule: less_induct)
  case less
  let ?bud = "a XOR block_size k"
  have d: "block_size k dvd a" using less.prems(5) by (simp add: good_block_def)
  note m = buddy_merge [OF d]
  have tr: "try_remove b k ?bud =
      Some (if ?bud \<in> set (L k) then (True, unlinked b k ?bud) else (False, b))"
    using try_remove_rep less.prems(1,4) block_size_dvd_page [OF m(1)] .
  show ?case
  proof (cases "k + 1 < MAX_ORDER \<and> ?bud \<in> set (L k)")
    case False
    then have "coalesce b a k = Some (b, a, k)"
      using tr by (subst coalesce.simps) (auto simp: Let_def)
    with False show ?thesis using less.prems by blast
  next
    case True
    let ?b = "unlinked b k ?bud" and ?L = "L(k := remove1 ?bud (L k))"
    note u = unlinked_ok [OF less.prems(1,2,4) conjunct2 [OF True]]
    note e = blocks_ok_env [OF unlinked_fields(5), of b k ?bud]
    have "coalesce b a k = coalesce ?b (min a ?bud) (Suc k)"
      using tr True u(4) by (subst coalesce.simps) (simp add: Let_def good_block_def)
    moreover have "block_pages (Suc k) (min a ?bud) \<inter> free_page_set ?L = {}"
      unfolding m(3) u(3) using less.prems(6) by blast
    moreover have "block_pages (Suc k) (min a ?bud) \<union> free_page_set ?L =
      block_pages k a \<union> free_page_set L"
      unfolding m(3) u(3) using u(5) by blast
    moreover have "good_block ?b (Suc k) (min a ?bud)"
      using good_merge [OF less.prems(5) u(4) less.prems(3)] e(1) by simp
    moreover have "MAX_ORDER - Suc k < MAX_ORDER - k" "Suc k < MAX_ORDER" using True by auto
    ultimately show ?thesis
      using less.hyps [OF _ u(1,2)] e(3) less.prems(3) unlinked_fields(5) by metis
  qed
qed

subsection \<open>Freeing a block\<close>

lemma free_accepted:
  assumes "k < MAX_ORDER" "good_block b k a" "env_ok b" "\<not> (covered b a \<and> head_bit b a)"
  shows "free b a k =
    (case coalesce ((untag_block b a k)\<lparr>free_pages := uadd (free_pages b) (2 ^ k)\<rparr>) a k of
       None \<Rightarrow> None | Some (b, a, k) \<Rightarrow> Some (push_front b k a))"
proof -
  have sz: "a + block_size k < 2 ^ 64" using assms(2,3) by (simp add: good_block_def env_ok_def)
  have "a AND (block_size k - 1) = 0"
    using assms(2) and_mask_mod [of a "k + 12"] by (simp add: good_block_def block_size_pow)
  then show ?thesis
    using assms sz by (auto simp: free_def Let_def good_block_def checked_add_def)
qed

lemma head_bit_free:
  assumes "buddy_rep b L" "covered b a" "head_bit b a" "PAGE_SIZE dvd a"
  shows "a div PAGE_SIZE \<in> free_page_set L"
proof -
  have "on_list L a" using assms by (auto simp: buddy_rep_def bits_rep_def)
  then obtain j where "(j, a) \<in> blocks L" by (auto simp: on_list_def blocks_def)
  then show ?thesis using head_page [of a j] by (force simp: free_page_set_def pages_of_def)
qed

lemma free_page_set_bound:
  assumes "blocks_ok b L"
  shows "free_page_set L \<subseteq> {..<phys_end b div PAGE_SIZE}" "finite (free_page_set L)"
proof -
  have "pages_of (k, a) \<subseteq> {..<phys_end b div PAGE_SIZE}" if "(k, a) \<in> blocks L" for k a
  proof -
    have g: "good_block b k a" using assms that by (auto simp: blocks_ok_def)
    then have "(a + block_size k) div PAGE_SIZE \<le> phys_end b div PAGE_SIZE"
      by (intro div_le_mono) (simp add: good_block_def)
    then show ?thesis
      using block_pages_shift [of a k] good_blockD [OF g] by (auto simp: pages_of_def block_pages_def)
  qed
  then show *: "free_page_set L \<subseteq> {..<phys_end b div PAGE_SIZE}"
    unfolding free_page_set_def by fastforce
  show "finite (free_page_set L)" using finite_subset [OF *] by simp
qed

lemma page_count_small:
  assumes "env_ok b" "F \<subseteq> {..<phys_end b div PAGE_SIZE}"
  shows "card F < 2 ^ 64"
proof -
  have "card F \<le> phys_end b div PAGE_SIZE" using card_mono [OF _ assms(2)] by simp
  also have "\<dots> \<le> phys_end b" by (rule div_le_dividend)
  also have "\<dots> < 2 ^ 64" using assms(1) by (simp add: env_ok_def)
  finally show ?thesis .
qed

lemma free_ok:
  assumes "buddy_ok b F" "k < MAX_ORDER" "good_block b k a" "block_pages k a \<inter> F = {}"
  shows "\<exists>b'. free b a k = Some b' \<and> buddy_ok b' (F \<union> block_pages k a) \<and>
    bad_frees b' = bad_frees b \<and> phys_end b' = phys_end b \<and> overlaps_reserved b' = overlaps_reserved b"
proof -
  obtain L where L: "buddy_rep b L" "blocks_ok b L" "F = free_page_set L"
    and e: "env_ok b" "free_pages b = card F"
    using assms(1) by (auto simp: buddy_ok_def)
  let ?b = "(untag_block b a k)\<lparr>free_pages := uadd (free_pages b) (2 ^ k)\<rparr>"
  have c: "core ?b = core b" using untag_block_core(1) [of b a k] by (simp add: core_def)
  note cs = core_same [OF c]
  have pre: "buddy_rep ?b L" "blocks_ok ?b L" "env_ok ?b" "good_block ?b k a"
    using L e assms(3) cs by auto
  have "block_pages k a \<inter> free_page_set L = {}" using assms(4) L(3) by simp
  from coalesce_ok [OF pre(1-3) assms(2) pre(4) this] obtain b' a' k' L' where
    r: "coalesce ?b a k = Some (b', a', k')" "buddy_rep b' L'" "blocks_ok b' L'"
    "buddy_env b' = buddy_env ?b" "k' < MAX_ORDER" "good_block b' k' a'"
    "block_pages k' a' \<inter> free_page_set L' = {}"
    "block_pages k' a' \<union> free_page_set L' = block_pages k a \<union> free_page_set L"
    "k' + 1 < MAX_ORDER \<Longrightarrow> a' XOR block_size k' \<notin> set (L' k')" by blast
  let ?r = "push_front b' k' a'"
  note p = push_front_ok [OF r(2,3,5-7,9)]
  have env: "buddy_env ?r = buddy_env ?b" using r(4) push_front_fields(5) by simp
  have "\<not> (covered b a \<and> head_bit b a)"
    using head_bit_free [OF L(1)] good_blockD [OF assms(3)] head_page [of a k] assms(4) L(3) by blast
  then have "free b a k = Some ?r" using free_accepted [OF assms(2,3) e(1)] r(1) by simp
  moreover have G: "free_page_set (L'(k' := a' # L' k')) = F \<union> block_pages k a"
    using p(3) r(8) L(3) by blast
  have "free_pages ?r = card (F \<union> block_pages k a)"
  proof -
    have "F \<union> block_pages k a \<subseteq> {..<phys_end ?r div PAGE_SIZE}"
      using free_page_set_bound(1) [OF p(2)] G by simp
    then have "card (F \<union> block_pages k a) < 2 ^ 64"
      using page_count_small [of ?r] blocks_ok_env(3) [OF env] pre(3) by simp
    moreover have "card (F \<union> block_pages k a) = card F + 2 ^ k"
      using card_Un_disjoint [of F "block_pages k a"] assms(4) free_page_set_bound(2) [OF L(2)] L(3)
      by (simp add: Int_commute)
    ultimately show ?thesis using buddy_envD(6) [OF env] e(2) by simp
  qed
  moreover have "bad_frees ?r = bad_frees b" "phys_end ?r = phys_end b"
    "overlaps_reserved ?r = overlaps_reserved b"
    using buddy_envD [OF env] env_overlaps [OF env] coreD(10) [OF c] cs(5) by (simp_all add: fun_eq_iff)
  ultimately show ?thesis
    using p(1,2) G blocks_ok_env(3) [OF env] pre(3) unfolding buddy_ok_def by auto
qed

subsection \<open>Splitting a block\<close>

lemma overlaps_sub:
  assumes "\<not> overlaps_reserved b a sz" "a \<le> c" "c + tz \<le> a + sz" "a + sz < 2 ^ 64"
  shows "\<not> overlaps_reserved b c tz"
proof -
  have u: "uadd a sz = a + sz" "uadd c tz = c + tz" using assms(3,4) by (simp_all add: uadd_def)
  show ?thesis
    using assms(1-3) unfolding overlaps_iff u by (meson le_less_trans less_le_trans)
qed

lemma good_halves:
  assumes "good_block b (Suc m) a" "env_ok b"
  shows "good_block b m a" "good_block b m (a + block_size m)" "(a + block_size m) XOR block_size m = a"
proof -
  have d: "block_size (Suc m) dvd a" "block_size m dvd a"
    using assms(1) by (auto simp: good_block_def block_size_Suc intro: dvd_mult_right)
  have s: "block_size (Suc m) = block_size m + block_size m" by (simp add: block_size_Suc)
  have w: "a + block_size (Suc m) < 2 ^ 64" using assms by (simp add: good_block_def env_ok_def)
  have o: "\<not> overlaps_reserved b a (block_size (Suc m))" using assms(1) by (simp add: good_block_def)
  show "good_block b m a" "good_block b m (a + block_size m)"
    using assms(1) d overlaps_sub [OF o _ _ w, of a "block_size m"]
      overlaps_sub [OF o _ _ w, of "a + block_size m" "block_size m"]
    by (auto simp: good_block_def s)
  have "a XOR block_size m = a + block_size m" using buddy_lower [OF d(1)] .
  then show "(a + block_size m) XOR block_size m = a" using buddy_xor_self by metis
qed

lemma split_down_Suc:
  "lo \<le> m \<Longrightarrow> split_down b a lo (Suc m) = split_down (push_front b m (a + block_size m)) a lo m"
  by (simp add: split_down_def)

lemma split_down_ok:
  assumes "lo \<le> hi" "hi < MAX_ORDER" "env_ok b" "buddy_rep b L" "blocks_ok b L" "good_block b hi a"
    "block_pages hi a \<inter> free_page_set L = {}"
  shows "good_block b lo a \<and> block_pages lo a \<subseteq> block_pages hi a \<and>
    buddy_env (split_down b a lo hi) = buddy_env b \<and>
    (\<exists>L'. buddy_rep (split_down b a lo hi) L' \<and> blocks_ok (split_down b a lo hi) L' \<and>
      free_page_set L' = free_page_set L \<union> (block_pages hi a - block_pages lo a))"
  using assms
proof (induction hi arbitrary: b L)
  case 0
  then show ?case by (auto simp: split_down_def)
next
  case (Suc m)
  show ?case
  proof (cases "lo = Suc m")
    case True
    then show ?thesis using Suc.prems by (auto simp: split_down_def)
  next
    case False
    then have lo: "lo \<le> m" using Suc.prems(1) by simp
    note h = good_halves [OF Suc.prems(6,3)]
    have d: "block_size m dvd a" using h(1) by (simp add: good_block_def)
    note sp = block_pages_split [OF d] and di = block_pages_halves [OF d]
    let ?c = "a + block_size m"
    have "\<not> on_list L a" using good_not_on_list [of m a L] Suc.prems(7) sp by blast
    then have "?c XOR block_size m \<notin> set (L m)" using h(3) Suc.prems(2) by (auto simp: on_list_def)
    moreover have "block_pages m ?c \<inter> free_page_set L = {}" using Suc.prems(7) sp by blast
    moreover have m: "m < MAX_ORDER" using Suc.prems(2) by simp
    ultimately have p: "buddy_rep (push_front b m ?c) (L(m := ?c # L m))"
      "blocks_ok (push_front b m ?c) (L(m := ?c # L m))"
      "free_page_set (L(m := ?c # L m)) = block_pages m ?c \<union> free_page_set L"
      using push_front_ok [OF Suc.prems(4,5) m h(2)] by blast+
    note e = blocks_ok_env [OF push_front_fields(5), of b m ?c]
    have "block_pages m a \<inter> free_page_set (L(m := ?c # L m)) = {}"
      unfolding p(3) using di Suc.prems(7) sp by blast
    from Suc.IH [OF lo m _ p(1,2) _ this] e h(1) Suc.prems(3)
    show ?thesis
      unfolding split_down_Suc [OF lo] p(3) sp using di push_front_fields(5) [of b m ?c]
      by (auto 0 3)
  qed
qed

lemma taken_ok:
  assumes "buddy_rep b L" "blocks_ok b L" "env_ok b" "free_pages b = card (free_page_set L)"
    "order \<le> j" "j < MAX_ORDER" "a \<in> set (L j)"
  shows "good_block b order a" "block_pages order a \<subseteq> free_page_set L"
    "buddy_ok (taken b order j a) (free_page_set L - block_pages order a)"
    "phys_end (taken b order j a) = phys_end b"
    "overlaps_reserved (taken b order j a) = overlaps_reserved b"
proof -
  note u = unlinked_ok [OF assms(1,2,6,7)]
  note e = blocks_ok_env [OF unlinked_fields(5), of b j a]
  let ?F = "free_page_set L" and ?s = "split_down (unlinked b j a) a order j"
  have "block_pages j a \<inter> free_page_set (L(j := remove1 a (L j))) = {}" using u(3) by blast
  with split_down_ok [OF assms(5,6) _ u(1,2)] e u(4) assms(3) obtain L' where
    g: "good_block b order a" and sub: "block_pages order a \<subseteq> block_pages j a"
    and env: "buddy_env ?s = buddy_env b"
    and L': "buddy_rep ?s L'" "blocks_ok ?s L'"
    "free_page_set L' = (?F - block_pages j a) \<union> (block_pages j a - block_pages order a)"
    unfolding u(3) using unlinked_fields(5) by metis
  show "good_block b order a" by (rule g)
  show subF: "block_pages order a \<subseteq> ?F" using sub u(5) by blast
  have F': "free_page_set L' = ?F - block_pages order a" unfolding L'(3) using sub u(5) by blast
  have c: "core (taken b order j a) = core ?s" by (simp add: taken_def core_def Let_def)
  show "phys_end (taken b order j a) = phys_end b"
    using coreD(10) [OF c] buddy_envD(5) [OF env] by simp
  show "overlaps_reserved (taken b order j a) = overlaps_reserved b"
    using core_same(5) [OF c] env_overlaps [OF env] by (intro ext) simp
  have "card (?F - block_pages order a) = card ?F - 2 ^ order"
    using subF by (simp add: card_Diff_subset)
  moreover have "2 ^ order \<le> card ?F"
    using card_mono [OF free_page_set_bound(2) [OF assms(2)] subF] by simp
  moreover have "card ?F < 2 ^ 64"
    using page_count_small [OF assms(3) free_page_set_bound(1) [OF assms(2)]] .
  ultimately have "free_pages (taken b order j a) = card (?F - block_pages order a)"
    using buddy_envD(6) [OF env] assms(4) by (simp add: taken_def Let_def)
  then show "buddy_ok (taken b order j a) (?F - block_pages order a)"
    using L' F' core_same [OF c] blocks_ok_env(3) [OF env] assms(3) unfolding buddy_ok_def by auto
qed

subsection \<open>A free aligned run lies in one free block\<close>

lemma block_within:
  assumes "blocks_ok b L" "block_size k dvd a" "x \<in> block_pages k a" "x \<in> free_page_set L"
  shows "(\<exists>j c. k \<le> j \<and> j < MAX_ORDER \<and> c \<in> set (L j) \<and> block_pages k a \<subseteq> block_pages j c) \<or>
    (\<exists>j c. j < k \<and> j < MAX_ORDER \<and> c \<in> set (L j) \<and> x \<in> block_pages j c \<and> block_pages j c \<subseteq> block_pages k a)"
proof -
  obtain j c where jc: "(j, c) \<in> blocks L" "x \<in> block_pages j c"
    using assms(4) by (auto simp: free_page_set_def pages_of_def)
  then have "block_size j dvd c" "j < MAX_ORDER" "c \<in> set (L j)"
    using assms(1) by (auto simp: blocks_ok_def good_block_def blocks_def)
  then show ?thesis
    using block_pages_nested [OF assms(2) _ _ assms(3) jc(2)]
      block_pages_nested [OF _ assms(2) _ jc(2) assms(3)] jc(2) by (meson le_less_linear less_imp_le)
qed

lemma free_run_in_block:
  assumes "blocks_ok b L"
  shows "k < MAX_ORDER \<Longrightarrow> block_size k dvd a \<Longrightarrow> block_pages k a \<subseteq> free_page_set L \<Longrightarrow>
    \<exists>j c. k \<le> j \<and> j < MAX_ORDER \<and> c \<in> set (L j) \<and> block_pages k a \<subseteq> block_pages j c"
proof (induction k arbitrary: a)
  case 0
  have "a div PAGE_SIZE \<in> free_page_set L" using 0(3) head_page [of a 0] by blast
  from block_within [OF assms 0(2) head_page this] show ?case by (metis not_less_zero)
next
  case (Suc k)
  have d: "block_size k dvd a" using Suc.prems(2) by (auto simp: block_size_Suc intro: dvd_mult_right)
  let ?c = "a + block_size k"
  have dc: "block_size k dvd ?c" using d by simp
  note sp = block_pages_split [OF d]
  obtain i x where i: "k \<le> i" "i < MAX_ORDER" "x \<in> set (L i)" "block_pages k a \<subseteq> block_pages i x"
    using Suc.IH [OF _ d] Suc.prems sp by fastforce
  obtain j y where j: "k \<le> j" "j < MAX_ORDER" "y \<in> set (L j)" "block_pages k ?c \<subseteq> block_pages j y"
    using Suc.IH [OF _ dc] Suc.prems sp by fastforce
  have g: "block_size i dvd x" "block_size j dvd y"
    using assms i j by (auto simp: blocks_ok_def good_block_def blocks_def)
  have big: "block_pages (Suc k) a \<subseteq> block_pages n z"
    if "Suc k \<le> n" "block_size n dvd z" "p \<in> block_pages n z" "p \<in> block_pages (Suc k) a" for n z p
    using block_pages_nested [OF Suc.prems(2) that(2,1,4,3)] .
  show ?case
  proof (cases "i = k \<and> j = k")
    case False
    then consider "Suc k \<le> i" | "Suc k \<le> j" using i(1) j(1) by linarith
    then show ?thesis
      using big [OF _ g(1), of "a div PAGE_SIZE"] big [OF _ g(2), of "?c div PAGE_SIZE"]
        head_page [of a k] head_page [of ?c k] i j sp by cases blast+
  next
    case True
    have "block_pages k a = block_pages k x" "block_pages k ?c = block_pages k y"
      using True i(4) j(4) by (metis block_pages_card block_pages_finite card_subset_eq)+
    then have "a = x" "?c = y"
      using block_pages_inj block_size_dvd_page d dc g True by metis+
    then have "a \<in> set (L k)" "a + block_size k \<in> set (L k)" using True i(3) j(3) by auto
    moreover have "a XOR block_size k = a + block_size k"
      using buddy_lower [OF Suc.prems(2)] .
    ultimately show ?thesis
      using assms Suc.prems(1) by (fastforce simp: blocks_ok_def merged_def)
  qed
qed

subsection \<open>A small allocator state\<close>

text \<open>One MiB of free RAM above the low reserved megabyte, as a single block of order 8.\<close>

definition empty_buddy :: buddy where
  "empty_buddy = buddy_initial\<lparr>phys_end := 2097152\<rparr>"

definition small_buddy :: buddy where
  "small_buddy = (push_front empty_buddy 8 1048576)\<lparr>free_pages := 256\<rparr>"

lemma empty_buddy_rep:
  "buddy_rep empty_buddy (\<lambda>_. [])" "blocks_ok empty_buddy (\<lambda>_. [])" "env_ok empty_buddy"
  "free_page_set (\<lambda>_. []) = {}" "good_block empty_buddy 8 1048576"
  by (auto simp: buddy_rep_def list_rep_def bits_rep_def covered_def buddy_initial_def
      empty_buddy_def blocks_ok_def blocks_def merged_def env_ok_def reserved_ranges_def
      free_page_set_def good_block_def block_size_eq PAGE_SIZE_def overlaps_iff)

lemma empty_buddy_ok: "buddy_ok empty_buddy {}"
  using empty_buddy_rep(1-4) unfolding buddy_ok_def
  by (auto simp: empty_buddy_def buddy_initial_def)

lemma small_buddy_ok: "buddy_ok small_buddy (block_pages 8 1048576)"
proof -
  let ?L = "\<lambda>_. []" and ?p = "push_front empty_buddy 8 1048576"
  note e = empty_buddy_rep
  have m: "8 < MAX_ORDER" by (simp add: MAX_ORDER_def)
  have p: "buddy_rep ?p (?L(8 := [1048576]))" "blocks_ok ?p (?L(8 := [1048576]))"
    "free_page_set (?L(8 := [1048576])) = block_pages 8 1048576"
    using push_front_ok [OF e(1,2) m e(5)] e(4) by auto
  have c: "core small_buddy = core ?p" by (simp add: small_buddy_def core_def)
  have "env_ok small_buddy"
    using core_same(3) [OF c] blocks_ok_env(3) [OF push_front_fields(5)] e(3) by blast
  moreover have "free_pages small_buddy = card (block_pages 8 1048576)"
    by (simp add: small_buddy_def)
  ultimately show ?thesis using p core_same(1,2) [OF c] unfolding buddy_ok_def by metis
qed

end
