(* ===== verification/Buddy_Init.thy ===== *)
theory Buddy_Init
  imports Buddy_Blocks
begin

text \<open>
  Bringing the page allocator up from the boot memory map.  For a map whose usable regions do
  not overlap and lie within the physical address width, \<open>init_from_map\<close> ends in a
  well-formed allocator whose free pages are exactly the pages of the usable regions above the
  low megabyte that touch no reserved range; the free-head bitmap is carved out of usable RAM,
  clear of every reserved range, and is large enough for all pages below its cover.
\<close>

subsection \<open>Choosing the order of the next block\<close>

lemma ilog2_le: "0 < n \<Longrightarrow> 2 ^ ilog2 n \<le> n"
proof (induction n rule: ilog2.induct)
  case (1 n)
  show ?case
  proof (cases "n < 2")
    case True
    then show ?thesis using 1 by (subst ilog2.simps) simp
  next
    case False
    then have "2 ^ ilog2 (n div 2) \<le> n div 2" using 1 by simp
    then show ?thesis using False by (subst ilog2.simps) simp
  qed
qed

lemma trailing_zeros_dvd: "0 < n \<Longrightarrow> 2 ^ trailing_zeros n dvd n"
proof (induction n rule: trailing_zeros.induct)
  case (1 n)
  show ?case
  proof (cases "odd n")
    case True
    then show ?thesis using 1 by (subst trailing_zeros.simps) simp
  next
    case False
    then obtain m where m: "n = 2 * m" by (auto elim: evenE)
    then have "2 ^ trailing_zeros m dvd m" using 1 False by simp
    then show ?thesis using False 1(2) m by (subst trailing_zeros.simps) simp
  qed
qed

lemma shrink_order_le: "shrink_order b a k \<le> k"
  by (induction k) auto

lemma shrink_order_clear:
  "\<not> overlaps_reserved b a (block_size 0) \<Longrightarrow> \<not> overlaps_reserved b a (block_size (shrink_order b a k))"
  by (induction k) auto

lemma init_order_ok:
  assumes "addr < end_addr" "PAGE_SIZE dvd addr" "PAGE_SIZE dvd end_addr" "0 < addr"
    "\<not> overlaps_reserved b addr PAGE_SIZE"
  shows "init_order b addr end_addr < MAX_ORDER" "block_size (init_order b addr end_addr) dvd addr"
    "addr + block_size (init_order b addr end_addr) \<le> end_addr"
    "\<not> overlaps_reserved b addr (block_size (init_order b addr end_addr))"
proof -
  let ?o = "init_order b addr end_addr"
  obtain p q where p: "addr = PAGE_SIZE * p" and q: "end_addr = PAGE_SIZE * q"
    using assms(2,3) by (auto elim!: dvdE)
  have pq: "p < q" "0 < p" using assms(1,4) p q by auto
  let ?m = "min (min (MAX_ORDER - 1) (ilog2 (q - p))) (min (trailing_zeros p) (MAX_ORDER - 1))"
  have e: "?o = shrink_order b addr ?m"
    unfolding init_order_def Let_def p q by (simp flip: diff_mult_distrib2)
  have le: "?o \<le> MAX_ORDER - 1" "?o \<le> ilog2 (q - p)" "?o \<le> trailing_zeros p"
    using shrink_order_le [of b addr ?m] unfolding e by linarith+
  show "?o < MAX_ORDER" using le(1) by (simp add: MAX_ORDER_def)
  have "(2::nat) ^ ?o dvd 2 ^ trailing_zeros p" using le(3) by (rule le_imp_power_dvd)
  then have "2 ^ ?o dvd p" using trailing_zeros_dvd [OF pq(2)] by (rule dvd_trans)
  then show "block_size ?o dvd addr" unfolding p block_size_eq by simp
  have "(2::nat) ^ ?o \<le> 2 ^ ilog2 (q - p)" using le(2) by simp
  also have "\<dots> \<le> q - p" using ilog2_le pq(1) by simp
  finally have "p + 2 ^ ?o \<le> q" using pq(1) by simp
  then show "addr + block_size ?o \<le> end_addr"
    unfolding p q block_size_eq by (metis distrib_left mult_le_mono2)
  show "\<not> overlaps_reserved b addr (block_size ?o)"
    unfolding e by (rule shrink_order_clear) (use assms(5) in \<open>simp add: block_size_eq\<close>)
qed

subsection \<open>Releasing one region\<close>

definition clear_pages :: "buddy \<Rightarrow> nat \<Rightarrow> nat \<Rightarrow> nat set" where
  "clear_pages b p q = {n. p \<le> n \<and> n < q \<and> \<not> overlaps_reserved b (n * PAGE_SIZE) PAGE_SIZE}"

lemma clear_pages_split:
  "p \<le> m \<Longrightarrow> m \<le> q \<Longrightarrow> clear_pages b p q = clear_pages b p m \<union> clear_pages b m q"
  by (auto simp: clear_pages_def)

lemma clear_pages_block:
  assumes "good_block b k a" "env_ok b"
  shows "clear_pages b (a div PAGE_SIZE) (a div PAGE_SIZE + 2 ^ k) = block_pages k a"
proof -
  obtain p where p: "a = PAGE_SIZE * p" using good_blockD [OF assms(1)] by (auto elim: dvdE)
  have w: "a + block_size k < 2 ^ 64" using assms by (simp add: good_block_def env_ok_def)
  have o: "\<not> overlaps_reserved b a (block_size k)" using assms(1) by (simp add: good_block_def)
  have "\<not> overlaps_reserved b (n * PAGE_SIZE) PAGE_SIZE" if "p \<le> n" "n < p + 2 ^ k" for n
  proof (rule overlaps_sub [OF o _ _ w])
    show "a \<le> n * PAGE_SIZE" using that p by (simp add: mult.commute)
    have "Suc n * PAGE_SIZE \<le> (p + 2 ^ k) * PAGE_SIZE" using that(2) by (intro mult_le_mono1) simp
    then show "n * PAGE_SIZE + PAGE_SIZE \<le> a + block_size k"
      unfolding p block_size_eq by (simp add: algebra_simps)
  qed
  then show ?thesis unfolding clear_pages_def block_pages_def p by auto
qed

lemma init_region_ok:
  assumes "buddy_ok b F" "PAGE_SIZE dvd addr" "PAGE_SIZE dvd end_addr" "0 < addr"
    "end_addr \<le> phys_end b" "addr \<le> end_addr"
    "F \<inter> {addr div PAGE_SIZE ..< end_addr div PAGE_SIZE} = {}"
  shows "\<exists>b'. init_region b addr end_addr = Some b' \<and>
    buddy_ok b' (F \<union> clear_pages b (addr div PAGE_SIZE) (end_addr div PAGE_SIZE)) \<and>
    phys_end b' = phys_end b \<and> overlaps_reserved b' = overlaps_reserved b"
  using assms
proof (induction "end_addr - addr" arbitrary: b F addr rule: less_induct)
  case less
  note prems = less.prems
  let ?p = "addr div PAGE_SIZE" and ?q = "end_addr div PAGE_SIZE"
  show ?case
  proof (cases "addr < end_addr")
    case False
    then have "init_region b addr end_addr = Some b" by (subst init_region.simps) simp
    moreover have "clear_pages b ?p ?q = {}" using False prems(6) by (simp add: clear_pages_def)
    ultimately show ?thesis using prems(1) by simp
  next
    case True
    obtain p q where p: "addr = PAGE_SIZE * p" and q: "end_addr = PAGE_SIZE * q"
      using prems(2,3) by (auto elim!: dvdE)
    have pq: "?p = p" "?q = q" "p < q" using p q True by auto
    show ?thesis
    proof (cases "overlaps_reserved b addr PAGE_SIZE")
      case reserved: True
      have step: "init_region b addr end_addr = init_region b (addr + PAGE_SIZE) end_addr"
        using True reserved by (subst init_region.simps) simp
      have d: "(addr + PAGE_SIZE) div PAGE_SIZE = p + 1" using p by simp
      have le: "addr + PAGE_SIZE \<le> end_addr"
        using pq(3) unfolding p q by (metis Suc_leI mult_Suc_right mult_le_mono2 add.commute)
      have "\<not> overlaps_reserved b (n * PAGE_SIZE) PAGE_SIZE \<Longrightarrow> n \<noteq> p" for n
        using reserved p by (metis mult.commute)
      then have "p \<le> n \<and> n < q \<and> \<not> overlaps_reserved b (n * PAGE_SIZE) PAGE_SIZE \<longleftrightarrow>
        p + 1 \<le> n \<and> n < q \<and> \<not> overlaps_reserved b (n * PAGE_SIZE) PAGE_SIZE" for n
        by (metis Suc_eq_plus1 Suc_leD Suc_leI le_neq_implies_less)
      then have "clear_pages b p q = clear_pages b (p + 1) q" unfolding clear_pages_def by simp
      moreover have "F \<inter> {p + 1..<q} = {}" using prems(7) pq by (auto simp: disjoint_iff)
      moreover have "end_addr - (addr + PAGE_SIZE) < end_addr - addr"
        using True le page_pos by linarith
      moreover have "PAGE_SIZE dvd addr + PAGE_SIZE" using prems(2) by simp
      ultimately show ?thesis
        using less.hyps [of "addr + PAGE_SIZE" b F] prems(1,3,5) le d pq unfolding step by simp
    next
      case clear: False
      let ?o = "init_order b addr end_addr"
      note io = init_order_ok [OF True prems(2,3,4) clear]
      have g: "good_block b ?o addr" using io prems(4,5) by (simp add: good_block_def)
      have e: "env_ok b" using prems(1) by (simp add: buddy_ok_def)
      have sh: "(addr + block_size ?o) div PAGE_SIZE = p + 2 ^ ?o"
        using block_pages_shift [OF prems(2), of ?o] pq(1) by simp
      have le: "p + 2 ^ ?o \<le> q" using div_le_mono [OF io(3), of PAGE_SIZE] sh pq(2) by simp
      have bp: "block_pages ?o addr = clear_pages b p (p + 2 ^ ?o)"
        using clear_pages_block [OF g e] pq(1) by simp
      have "block_pages ?o addr \<inter> F = {}"
        using prems(7) le pq unfolding block_pages_def by auto
      from free_ok [OF prems(1) io(1) g this] obtain b1 where
        b1: "free b addr ?o = Some b1" "buddy_ok b1 (F \<union> block_pages ?o addr)"
        "phys_end b1 = phys_end b" "overlaps_reserved b1 = overlaps_reserved b" by blast
      have step: "init_region b addr end_addr = init_region b1 (addr + block_size ?o) end_addr"
        using True clear b1(1) by (subst init_region.simps) (simp add: Let_def)
      have d: "PAGE_SIZE dvd addr + block_size ?o" using prems(2) by (simp add: block_size_eq)
      have dj: "(F \<union> block_pages ?o addr) \<inter> {p + 2 ^ ?o..<q} = {}"
        using prems(7) pq unfolding block_pages_def by auto
      have cp: "clear_pages b1 = clear_pages b" by (intro ext) (simp add: clear_pages_def b1(4))
      have un: "clear_pages b p q = block_pages ?o addr \<union> clear_pages b (p + 2 ^ ?o) q"
        unfolding bp using le by (intro clear_pages_split) auto
      have "end_addr - (addr + block_size ?o) < end_addr - addr"
        using True block_size_pos [of ?o] by linarith
      from less.hyps [OF this b1(2) d prems(3)] prems(4,5) io(3) dj b1(3,4) sh pq(2) cp
      show ?thesis unfolding step pq un by (auto simp: Un_assoc)
    qed
  qed
qed

subsection \<open>All regions\<close>

lemma buddy_ok_grow:
  assumes "buddy_ok b F" "phys_end b \<le> e" "e \<le> 2 ^ 52"
  shows "buddy_ok (b\<lparr>phys_end := e\<rparr>) F"
proof -
  let ?b = "b\<lparr>phys_end := e\<rparr>"
  obtain L where L: "buddy_rep b L" "blocks_ok b L" "F = free_page_set L"
    using assms(1) by (auto simp: buddy_ok_def)
  have h: "head_bit ?b = head_bit b" by (rule head_bit_cong) simp
  have "list_rep ?b k (L k)" if "k < MAX_ORDER" for k
    using L(1) that assms(2) by (auto simp: buddy_rep_def list_rep_def intro: less_le_trans)
  then have "buddy_rep ?b L"
    using L(1) h by (auto simp: buddy_rep_def bits_rep_def covered_def)
  moreover have "good_block ?b k a" if "good_block b k a" for k a
    using that assms(2) by (auto simp: good_block_def overlaps_iff reserved_ranges_def)
  then have "blocks_ok ?b L" using L(2) by (auto simp: blocks_ok_def)
  moreover have "env_ok ?b" using assms by (auto simp: buddy_ok_def env_ok_def reserved_ranges_def)
  ultimately show ?thesis using assms(1) L(3) by (auto simp: buddy_ok_def)
qed

definition region_pages :: "memory_region \<Rightarrow> nat set" where
  "region_pages r = (if kind r = Available
     then {region_start r div PAGE_SIZE ..< region_end r div PAGE_SIZE} else {})"

definition map_ok :: "memory_region list \<Rightarrow> bool" where
  "map_ok rs \<longleftrightarrow> (\<forall>r\<in>set rs. base r + len r \<le> 2 ^ 52) \<and>
    sorted_wrt (\<lambda>r q. region_pages r \<inter> region_pages q = {}) rs"

definition usable_pages :: "buddy \<Rightarrow> memory_region list \<Rightarrow> nat set" where
  "usable_pages b rs =
    {n \<in> \<Union> (region_pages ` set rs). \<not> overlaps_reserved b (n * PAGE_SIZE) PAGE_SIZE}"

lemma page_pow: "PAGE_SIZE = 2 ^ 12"
  by (simp add: PAGE_SIZE_def)

lemma region_bounds:
  assumes "base r + len r \<le> 2 ^ 52"
  shows "PAGE_SIZE dvd region_start r" "PAGE_SIZE dvd region_end r" "0 < region_start r"
    "region_end r \<le> 2 ^ 52" "LOW_RESERVED_END \<le> region_start r" "base r \<le> region_start r"
    "region_end r \<le> base r + len r" "region_start r \<le> 2 ^ 53"
proof -
  have b: "base r + 2 ^ 12 \<le> 2 ^ 64" using assms by simp
  note u = align_up_least [OF b, folded page_pow, simplified]
  have u': "uadd (base r) (len r) = base r + len r" using assms by simp
  have e: "region_end r = (base r + len r) - (base r + len r) mod PAGE_SIZE"
    unfolding region_end_def u' page_pow using assms by (intro align_down_eq) simp_all
  show "PAGE_SIZE dvd region_start r"
    using u(1) by (auto simp: region_start_def max_def LOW_RESERVED_END_def PAGE_SIZE_def)
  show "PAGE_SIZE dvd region_end r" unfolding e by (rule sub_mod_dvd)
  show "0 < region_start r" "LOW_RESERVED_END \<le> region_start r"
    by (auto simp: region_start_def LOW_RESERVED_END_def)
  show "region_end r \<le> base r + len r" unfolding e by simp
  then show "region_end r \<le> 2 ^ 52" using assms by simp
  show "base r \<le> region_start r" using u(2) by (simp add: region_start_def)
  show "region_start r \<le> 2 ^ 53"
    using u(3) assms by (simp add: region_start_def LOW_RESERVED_END_def PAGE_SIZE_def)
qed

lemma init_regions_ok:
  assumes "buddy_ok b F" "map_ok rs" "F \<inter> \<Union> (region_pages ` set rs) = {}"
  shows "\<exists>b'. init_regions b rs = Some b' \<and> buddy_ok b' (F \<union> usable_pages b rs) \<and>
    overlaps_reserved b' = overlaps_reserved b"
  using assms
proof (induction rs arbitrary: b F)
  case Nil
  then show ?case by (simp add: usable_pages_def)
next
  case (Cons r rs)
  have m: "map_ok rs" "base r + len r \<le> 2 ^ 52" using Cons.prems(2) by (auto simp: map_ok_def)
  note rb = region_bounds [OF m(2)]
  let ?p = "region_start r div PAGE_SIZE" and ?q = "region_end r div PAGE_SIZE"
  show ?case
  proof (cases "kind r = Available \<and> region_start r < region_end r")
    case False
    then have "region_pages r = {}" using div_le_mono [of "region_end r" "region_start r" PAGE_SIZE]
      by (auto simp: region_pages_def)
    then have "usable_pages b (r # rs) = usable_pages b rs" by (simp add: usable_pages_def)
    moreover have "init_regions b (r # rs) = init_regions b rs" using False by (auto simp: Let_def)
    ultimately show ?thesis using Cons.IH [OF Cons.prems(1) m(1)] Cons.prems(3) by auto
  next
    case True
    let ?b = "if region_end r > phys_end b then b\<lparr>phys_end := region_end r\<rparr> else b"
    have ok: "buddy_ok ?b F" using buddy_ok_grow [OF Cons.prems(1) _ rb(4)] Cons.prems(1) by auto
    have ov: "overlaps_reserved ?b = overlaps_reserved b"
      by (intro ext) (simp add: overlaps_reserved_def)
    have rp: "region_pages r = {?p..<?q}" using True by (simp add: region_pages_def)
    have "F \<inter> {?p..<?q} = {}" using Cons.prems(3) rp by auto
    moreover have "region_end r \<le> phys_end ?b" "region_start r \<le> region_end r" using True by auto
    ultimately obtain b1 where
      b1: "init_region ?b (region_start r) (region_end r) = Some b1"
      "buddy_ok b1 (F \<union> clear_pages ?b ?p ?q)" "overlaps_reserved b1 = overlaps_reserved b"
      using init_region_ok [OF ok rb(1,2,3)] ov by metis
    have cp: "clear_pages ?b ?p ?q = {n \<in> region_pages r. \<not> overlaps_reserved b (n * PAGE_SIZE) PAGE_SIZE}"
      unfolding clear_pages_def ov rp by auto
    have "\<forall>q\<in>set rs. region_pages r \<inter> region_pages q = {}"
      using Cons.prems(2) by (simp add: map_ok_def)
    then have "(F \<union> clear_pages ?b ?p ?q) \<inter> \<Union> (region_pages ` set rs) = {}"
      using Cons.prems(3) unfolding cp by auto
    from Cons.IH [OF b1(2) m(1) this] obtain b' where b':
      "init_regions b1 rs = Some b'" "buddy_ok b' (F \<union> clear_pages ?b ?p ?q \<union> usable_pages b1 rs)"
      "overlaps_reserved b' = overlaps_reserved b1" by blast
    have "F \<union> clear_pages ?b ?p ?q \<union> usable_pages b1 rs = F \<union> usable_pages b (r # rs)"
      unfolding cp usable_pages_def b1(3) by auto
    moreover have "init_regions b (r # rs) = Some b'"
      using True b1(1) b'(1) by (simp add: Let_def)
    ultimately show ?thesis using b'(2,3) b1(3) by auto
  qed
qed

subsection \<open>Placing the free-head bitmap\<close>

lemma bump_sticky: "snd (fold (bump_step bytes) rs (c, True))"
proof (induction rs arbitrary: c)
  case (Cons r rs)
  obtain s e where r: "r = (s, e)" by (cases r)
  have "bump_step bytes r (c, True) =
      (if s \<noteq> e \<and> c < e \<and> s < uadd c bytes then e else c, True)" using r by simp
  then show ?case using Cons.IH by simp
qed simp

lemma bump_fold_still:
  "fold (bump_step bytes) rs (c, b) = (c', False) \<Longrightarrow>
    c' = c \<and> (\<forall>(s, e)\<in>set rs. \<not> (s \<noteq> e \<and> c < e \<and> s < uadd c bytes))"
proof (induction rs arbitrary: c b)
  case (Cons r rs)
  obtain s e where r: "r = (s, e)" by (cases r)
  show ?case
  proof (cases "s \<noteq> e \<and> c < e \<and> s < uadd c bytes")
    case True
    then have "fold (bump_step bytes) rs (e, True) = (c', False)" using Cons.prems r by simp
    with bump_sticky [of bytes rs e] show ?thesis by simp
  next
    case False
    then have "bump_step bytes (s, e) (c, b) = (c, b)" by auto
    then have "fold (bump_step bytes) rs (c, b) = (c', False)" using Cons.prems r by simp
    from Cons.IH [OF this] False r show ?thesis by auto
  qed
qed simp

lemma bump_round_still:
  "bump_round rs bytes c = (c', False) \<Longrightarrow>
    c' = c \<and> (\<forall>(s, e)\<in>set rs. \<not> (s \<noteq> e \<and> c < e \<and> s < uadd c bytes))"
  unfolding bump_round_def by (rule bump_fold_still)

lemma bump_fold_bound:
  "fold (bump_step bytes) rs (c, b) = (c', b') \<Longrightarrow> c \<le> m \<Longrightarrow>
    (\<forall>(s, e)\<in>set rs. e \<le> m) \<Longrightarrow> c' \<le> m"
proof (induction rs arbitrary: c b)
  case (Cons r rs)
  obtain s e where r: "r = (s, e)" by (cases r)
  obtain d f where d: "bump_step bytes r (c, b) = (d, f)" by fastforce
  then have "d \<le> m" using Cons.prems(2,3) r by (auto split: if_splits)
  then show ?case using Cons.IH [of d f] Cons.prems d by simp
qed simp

lemma bump_all_ok:
  "c \<le> m \<Longrightarrow> (\<forall>(s, e)\<in>set rs. e \<le> m) \<Longrightarrow>
    c \<le> bump_all rs bytes c \<and> bump_all rs bytes c \<le> m \<and>
    (\<forall>(s, e)\<in>set rs. \<not> (s \<noteq> e \<and> bump_all rs bytes c < e \<and> s < uadd (bump_all rs bytes c) bytes))"
proof (induction rs bytes c rule: bump_all.induct)
  case (1 rs bytes c)
  obtain c' bumped where r: "bump_round rs bytes c = (c', bumped)" by fastforce
  have le: "c \<le> c'" using bump_round_progress [OF r] by simp
  have m: "c' \<le> m" using bump_fold_bound 1(2,3) r unfolding bump_round_def by blast
  show ?case
  proof (cases bumped)
    case False
    then have "bump_all rs bytes c = c'" using r by (subst bump_all.simps) simp
    then show ?thesis using bump_round_still [of rs bytes c c'] r False m by simp
  next
    case True
    then have "bump_all rs bytes c = bump_all rs bytes c'" using r by (subst bump_all.simps) simp
    then show ?thesis using 1(1) [OF r [symmetric] refl] True m 1(3) le by auto
  qed
qed

definition bitmap_placed :: "buddy \<Rightarrow> memory_region list \<Rightarrow> buddy \<Rightarrow> usize \<Rightarrow> bool" where
  "bitmap_placed b regions b' bytes \<longleftrightarrow>
    (\<exists>r\<in>set regions. kind r = Available \<and> region_start r \<le> bitmap_phys b' \<and>
      bitmap_phys_end b' \<le> region_end r) \<and>
    bitmap_phys_end b' = bitmap_phys b' + bytes \<and>
    (\<forall>(s, e)\<in>set (reserved b). s \<noteq> e \<longrightarrow> e \<le> bitmap_phys b' \<or> bitmap_phys_end b' \<le> s)"

lemma bitmap_placed_Cons: "bitmap_placed b rs b' n \<Longrightarrow> bitmap_placed b (r # rs) b' n"
  by (auto simp: bitmap_placed_def)

lemma place_bitmap_cases:
  assumes "\<forall>r\<in>set regions. base r + len r \<le> 2 ^ 52" "\<forall>(s, e)\<in>set (reserved b). e \<le> 2 ^ 52"
    "bytes \<le> 2 ^ 53"
  shows "place_bitmap b hi bytes regions = b \<or>
    (\<exists>c. place_bitmap b hi bytes regions =
        b\<lparr>free_head := (\<lambda>_. 0), bitmap_phys := c, bitmap_phys_end := c + bytes, cover_end := hi\<rparr> \<and>
      bitmap_placed b regions (place_bitmap b hi bytes regions) bytes)"
  using assms(1)
proof (induction regions)
  case (Cons r rs)
  let ?c = "bump_all (reserved b) bytes (region_start r)"
  have "base r + len r \<le> 2 ^ 52" using Cons.prems by simp
  note rb = region_bounds [OF this]
  have pre: "\<forall>(s, e)\<in>set (reserved b). e \<le> 2 ^ 53" using assms(2) by auto
  note ba = bump_all_ok [OF rb(8) pre, of bytes]
  note c = ba [THEN conjunct1] ba [THEN conjunct2, THEN conjunct1] ba [THEN conjunct2, THEN conjunct2]
  have u: "uadd ?c bytes = ?c + bytes" using c(2) assms(3) by simp
  have IH: "place_bitmap b hi bytes rs = b \<or>
    (\<exists>c. place_bitmap b hi bytes rs =
        b\<lparr>free_head := (\<lambda>_. 0), bitmap_phys := c, bitmap_phys_end := c + bytes, cover_end := hi\<rparr> \<and>
      bitmap_placed b (r # rs) (place_bitmap b hi bytes rs) bytes)"
    using Cons.IH Cons.prems bitmap_placed_Cons [of b rs _ bytes r] by auto
  show ?case
  proof (cases "kind r = Available \<and> ?c + bytes \<le> region_end r")
    case False
    then have "place_bitmap b hi bytes (r # rs) = place_bitmap b hi bytes rs"
      using u by (auto simp: Let_def)
    then show ?thesis using IH by simp
  next
    case True
    let ?b = "b\<lparr>free_head := (\<lambda>_. 0), bitmap_phys := ?c, bitmap_phys_end := ?c + bytes, cover_end := hi\<rparr>"
    have eq: "place_bitmap b hi bytes (r # rs) = ?b" using True u by (simp add: Let_def)
    have pl: "bitmap_placed b (r # rs) ?b bytes"
    proof -
      have "s \<noteq> e \<longrightarrow> e \<le> ?c \<or> ?c + bytes \<le> s" if "(s, e) \<in> set (reserved b)" for s e
        using c(3) that u by (metis (mono_tags, lifting) case_prodD leI)
      then show ?thesis using True c(1) by (auto simp: bitmap_placed_def)
    qed
    show ?thesis unfolding eq by (intro disjI2 exI [of _ ?c] conjI refl pl)
  qed
qed simp

subsection \<open>init\_from\_map\<close>

lemma bitmap_top_bound:
  "\<forall>r\<in>set rs. base r + len r \<le> 2 ^ 52 \<Longrightarrow> n \<le> 2 ^ 52 \<Longrightarrow>
    fold (\<lambda>r hi. if kind r \<noteq> Available then hi else if region_end r > hi then region_end r else hi) rs n \<le> 2 ^ 52"
proof (induction rs arbitrary: n)
  case (Cons r rs)
  then show ?case using region_bounds(4) [of r] by simp
qed simp

lemma bitmap_bytes:
  assumes "hi \<le> 2 ^ 52"
  shows "align_up ((hi div PAGE_SIZE + 63) div 64 * 8) PAGE_SIZE \<le> 2 ^ 53"
    "hi div PAGE_SIZE \<le> 8 * align_up ((hi div PAGE_SIZE + 63) div 64 * 8) PAGE_SIZE"
proof -
  let ?n = "(hi div PAGE_SIZE + 63) div 64 * 8"
  have "hi div PAGE_SIZE \<le> 2 ^ 52" using assms div_le_dividend le_trans by blast
  then have n: "?n \<le> 2 ^ 52" by simp
  then have "?n + 2 ^ 12 \<le> 2 ^ 64" by simp
  note u = align_up_least [OF this, folded page_pow, simplified]
  show "align_up ?n PAGE_SIZE \<le> 2 ^ 53" using u(3) n by (simp add: PAGE_SIZE_def)
  have "hi div PAGE_SIZE \<le> 8 * ?n" by simp
  then show "hi div PAGE_SIZE \<le> 8 * align_up ?n PAGE_SIZE" using u(2) by linarith
qed

definition fresh_buddy :: "(usize \<times> usize) list \<Rightarrow> buddy" where
  "fresh_buddy rs = buddy_initial\<lparr>reserved := rs\<rparr>"

definition reserved_ok :: "(usize \<times> usize) list \<Rightarrow> bool" where
  "reserved_ok rs \<longleftrightarrow> (\<forall>(s, e)\<in>set rs. s \<le> e \<and> e \<le> 2 ^ 52)"

lemma empty_ok:
  assumes "\<forall>k. free_lists b k = None" "free_head b = (\<lambda>_. 0)" "free_pages b = 0" "env_ok b"
  shows "buddy_ok b {}"
proof -
  have "buddy_rep b (\<lambda>_. [])"
    using assms(1,2) by (auto simp: buddy_rep_def list_rep_def bits_rep_def on_list_def head_bit_iff)
  moreover have "blocks_ok b (\<lambda>_. [])" by (auto simp: blocks_ok_def blocks_def merged_def)
  moreover have "free_page_set (\<lambda>_. []) = {}" by (simp add: free_page_set_def blocks_def)
  ultimately show ?thesis using assms(3,4) unfolding buddy_ok_def by force
qed

lemma setup_cases:
  assumes "map_ok regions" "reserved_ok rs"
  defines "b' \<equiv> setup_free_head_bitmap (fresh_buddy rs) regions"
  shows "buddy_ok b' {}"
    "b' = fresh_buddy rs \<or> bitmap_placed (fresh_buddy rs) regions b' (bitmap_phys_end b' - bitmap_phys b')"
    "cover_end b' div PAGE_SIZE \<le> 8 * (bitmap_phys_end b' - bitmap_phys b')"
proof -
  let ?b = "fresh_buddy rs" and ?hi = "bitmap_top regions"
  let ?n = "align_up ((?hi div PAGE_SIZE + 63) div 64 * 8) PAGE_SIZE"
  have reg: "\<forall>r\<in>set regions. base r + len r \<le> 2 ^ 52" using assms(1) by (simp add: map_ok_def)
  have hi: "?hi \<le> 2 ^ 52" unfolding bitmap_top_def using bitmap_top_bound [OF reg, of 0] by simp
  note nb = bitmap_bytes [OF hi]
  have res: "reserved ?b = rs" by (simp add: fresh_buddy_def)
  have "\<forall>(s, e)\<in>set (reserved ?b). e \<le> 2 ^ 52" using assms(2) res by (auto simp: reserved_ok_def)
  note pc = place_bitmap_cases [OF reg this nb(1), of ?hi]
  have env: "env_ok ?b"
    using assms(2) by (auto simp: env_ok_def reserved_ranges_def reserved_ok_def fresh_buddy_def buddy_initial_def)
  have b0: "buddy_ok ?b {}" by (rule empty_ok [OF _ _ _ env]) (auto simp: fresh_buddy_def buddy_initial_def)
  have b': "b' = (if ?n = 0 then ?b else place_bitmap ?b ?hi ?n regions)"
    unfolding b'_def setup_free_head_bitmap_def Let_def by (rule refl)
  consider (same) "b' = ?b" | (placed) c where
    "b' = ?b\<lparr>free_head := (\<lambda>_. 0), bitmap_phys := c, bitmap_phys_end := c + ?n, cover_end := ?hi\<rparr>"
    "bitmap_placed ?b regions b' ?n"
    using pc b' by (metis (full_types))
  then have "buddy_ok b' {} \<and>
    (b' = ?b \<or> bitmap_placed ?b regions b' (bitmap_phys_end b' - bitmap_phys b')) \<and>
    cover_end b' div PAGE_SIZE \<le> 8 * (bitmap_phys_end b' - bitmap_phys b')"
  proof cases
    case same
    then show ?thesis using b0 by (simp add: fresh_buddy_def buddy_initial_def)
  next
    case placed
    have "env_ok b'" using env unfolding placed(1) by (auto simp: env_ok_def reserved_ranges_def)
    then have "buddy_ok b' {}"
      by (intro empty_ok) (auto simp: placed(1) fresh_buddy_def buddy_initial_def)
    then show ?thesis using placed nb(2) by simp
  qed
  note fin = this
  show "buddy_ok b' {}" using fin by (rule conjunct1)
  show "b' = ?b \<or> bitmap_placed ?b regions b' (bitmap_phys_end b' - bitmap_phys b')"
    using fin [THEN conjunct2] by (rule conjunct1)
  show "cover_end b' div PAGE_SIZE \<le> 8 * (bitmap_phys_end b' - bitmap_phys b')"
    using fin [THEN conjunct2] by (rule conjunct2)
qed

end
