(* ===== verification/Buddy_Correct.thy ===== *)
theory Buddy_Correct
  imports Buddy_Init
begin

text \<open>
  What the page allocator promises, and the interface through which the rest of memory
  management uses single frames.  The interface \<open>frame_allocator\<close> speaks of a state, its set of
  free pages, taking one frame and giving one back; it is interpreted on the buddy allocator.
\<close>

subsection \<open>Allocation and freeing\<close>

lemma alloc_untracked_result:
  assumes "buddy_ok b F" "order < MAX_ORDER"
  shows "(alloc_untracked b order = Some (None, b) \<and>
      (\<forall>a. block_size order dvd a \<longrightarrow> \<not> block_pages order a \<subseteq> F)) \<or>
    (\<exists>a b'. alloc_untracked b order = Some (Some a, b') \<and> good_block b order a \<and>
      block_pages order a \<subseteq> F \<and> buddy_ok b' (F - block_pages order a) \<and>
      phys_end b' = phys_end b \<and> overlaps_reserved b' = overlaps_reserved b)"
proof -
  obtain L where L: "buddy_rep b L" "blocks_ok b L" "F = free_page_set L" "env_ok b"
    "free_pages b = card (free_page_set L)"
    using assms(1) by (auto simp: buddy_ok_def)
  have e: "alloc_untracked b order = alloc_scan b order order"
    using assms(2) by (simp add: alloc_untracked_def)
  from alloc_scan_rep [OF L(1), of order order] assms(2)
  consider (none) "alloc_scan b order order = Some (None, b)" "\<forall>i. order \<le> i \<and> i < MAX_ORDER \<longrightarrow> L i = []"
    | (some) i a where "order \<le> i" "i < MAX_ORDER" "a \<in> set (L i)"
      "alloc_scan b order order = Some (Some a, taken b order i a)" by auto
  then show ?thesis
  proof cases
    case none
    then have "\<not> block_pages order a \<subseteq> F" if "block_size order dvd a" for a
      using free_run_in_block [OF L(2) assms(2) that] L(3) by (metis empty_iff empty_set)
    then show ?thesis using none(1) e by simp
  next
    case some
    from taken_ok [OF L(1,2,4,5) some(1-3)] show ?thesis using some(4) e L(3) by auto
  qed
qed


text \<open>C1: allocating \<open>2 ^ order\<close> pages never panics or loops on a well-formed allocator.  It fails
  only if no aligned run of that many free pages exists anywhere, and then changes nothing;
  otherwise it returns an aligned, non-null, in-RAM, unreserved run that was entirely free,
  removes exactly those pages from the free set and keeps the allocator well formed.\<close>

theorem alloc_untracked_correct:
  assumes "buddy_ok b F" "order < MAX_ORDER"
  shows "\<exists>r b'. alloc_untracked b order = Some (r, b') \<and>
    (case r of
       None \<Rightarrow> b' = b \<and> (\<forall>a. block_size order dvd a \<longrightarrow> \<not> block_pages order a \<subseteq> F)
     | Some a \<Rightarrow> block_size order dvd a \<and> a \<noteq> 0 \<and> a + block_size order \<le> phys_end b \<and>
         \<not> overlaps_reserved b a (block_size order) \<and>
         block_pages order a \<subseteq> F \<and> buddy_ok b' (F - block_pages order a))"
  using alloc_untracked_result [OF assms] by (auto simp: good_block_def)

theorem alloc_untracked_correct_witness:
  "buddy_ok small_buddy (block_pages 8 1048576) \<and> 3 < MAX_ORDER \<and>
   (\<exists>r b'. alloc_untracked small_buddy 3 = Some (r, b') \<and>
    (case r of
       None \<Rightarrow> b' = small_buddy \<and> (\<forall>a. block_size 3 dvd a \<longrightarrow> \<not> block_pages 3 a \<subseteq> block_pages 8 1048576)
     | Some a \<Rightarrow> block_size 3 dvd a \<and> a \<noteq> 0 \<and> a + block_size 3 \<le> phys_end small_buddy \<and>
         \<not> overlaps_reserved small_buddy a (block_size 3) \<and>
         block_pages 3 a \<subseteq> block_pages 8 1048576 \<and>
         buddy_ok b' (block_pages 8 1048576 - block_pages 3 a)))"
proof -
  have m: "3 < MAX_ORDER" by (simp add: MAX_ORDER_def)
  from alloc_untracked_correct [OF small_buddy_ok m] small_buddy_ok m show ?thesis by blast
qed

text \<open>C2: freeing a block whose pages are not free (aligned, non-null, in RAM, unreserved) never
  panics, is accepted, adds exactly those pages to the free set and keeps the allocator well
  formed, in particular fully merged: afterwards no two buddies are both free.\<close>

theorem free_correct:
  assumes "buddy_ok b F" "order < MAX_ORDER" "block_size order dvd a" "a \<noteq> 0"
    "a + block_size order \<le> phys_end b" "\<not> overlaps_reserved b a (block_size order)"
    "block_pages order a \<inter> F = {}"
  shows "\<exists>b'. free b a order = Some b' \<and> bad_frees b' = bad_frees b \<and>
    buddy_ok b' (F \<union> block_pages order a)"
  using free_ok [OF assms(1,2) _ assms(7)] assms(3-6) by (auto simp: good_block_def)

theorem free_correct_witness:
  "\<exists>b'. free empty_buddy 1048576 8 = Some b' \<and> bad_frees b' = bad_frees empty_buddy \<and>
    buddy_ok b' ({} \<union> block_pages 8 1048576)"
  by (rule free_correct [OF empty_buddy_ok])
    (use empty_buddy_rep(5) in \<open>simp_all add: MAX_ORDER_def good_block_def\<close>)

text \<open>C6: a block that was just allocated can always be freed again, and allocating and freeing
  it gives back the same set of free pages.\<close>

theorem alloc_free_roundtrip:
  assumes "buddy_ok b F" "order < MAX_ORDER" "alloc_untracked b order = Some (Some a, b1)"
  shows "\<exists>b2. free b1 a order = Some b2 \<and> buddy_ok b2 F"
proof -
  from alloc_untracked_result [OF assms(1,2)] assms(3) have
    g: "good_block b order a" "block_pages order a \<subseteq> F" "buddy_ok b1 (F - block_pages order a)"
    "phys_end b1 = phys_end b" "overlaps_reserved b1 = overlaps_reserved b" by auto
  then have "good_block b1 order a" by (simp add: good_block_def)
  from free_ok [OF g(3) assms(2) this] show ?thesis using g(2) by (auto simp: Un_absorb2)
qed

lemma small_buddy_alloc: "\<exists>b1. alloc_untracked small_buddy 8 = Some (Some 1048576, b1)"
  by (simp add: alloc_untracked_def alloc_scan.simps [of _ 8 8] small_buddy_def push_front_fields
      empty_buddy_def buddy_initial_def MAX_ORDER_def Let_def check_links_def link_ok_def)

theorem alloc_free_roundtrip_witness:
  "\<exists>b1 b2. alloc_untracked small_buddy 8 = Some (Some 1048576, b1) \<and>
    free b1 1048576 8 = Some b2 \<and> buddy_ok b2 (block_pages 8 1048576)"
proof -
  obtain b1 where b1: "alloc_untracked small_buddy 8 = Some (Some 1048576, b1)"
    using small_buddy_alloc by blast
  have "8 < MAX_ORDER" by (simp add: MAX_ORDER_def)
  from alloc_free_roundtrip [OF small_buddy_ok this b1] b1 show ?thesis by blast
qed





text \<open>C3: initialisation.  From a memory map whose usable regions are disjoint and within the
  physical address width, and any registered reserved ranges, the allocator comes up well
  formed; its free pages are exactly the pages of the usable regions above the first megabyte
  that touch neither a reserved range nor the free-head bitmap, and \<open>total_pages\<close> counts them.\<close>

theorem init_from_map_correct:
  assumes "map_ok regions" "reserved_ok rs"
  defines "b0 \<equiv> setup_free_head_bitmap (fresh_buddy rs) regions"
  shows "\<exists>b. init_from_map (fresh_buddy rs) regions = Some b \<and> buddy_ok b (usable_pages b0 regions) \<and>
    total_pages b = card (usable_pages b0 regions)"
proof -
  have "buddy_ok b0 {}" using setup_cases(1) [OF assms(1,2)] by (simp add: b0_def)
  from init_regions_ok [OF this assms(1)] obtain b' where
    b': "init_regions b0 regions = Some b'" "buddy_ok b' (usable_pages b0 regions)" by auto
  let ?b = "b'\<lparr>total_pages := free_pages b'\<rparr>"
  have "core ?b = core b'" "free_pages ?b = free_pages b'" by (simp_all add: core_def)
  then have "buddy_ok ?b (usable_pages b0 regions)" using core_ok b'(2) by blast
  moreover have "total_pages ?b = card (usable_pages b0 regions)"
    using b'(2) by (simp add: buddy_ok_def)
  ultimately show ?thesis using b'(1) by (simp add: init_from_map_def b0_def)
qed

theorem init_from_map_correct_witness:
  "let rs = [(1404928, 1409024)];
       regions = [\<lparr>base = 0, len = 3145728, kind = Available\<rparr>,
                  \<lparr>base = 4194304, len = 4096, kind = Reserved\<rparr>];
       b0 = setup_free_head_bitmap (fresh_buddy rs) regions
   in map_ok regions \<and> reserved_ok rs \<and>
     (\<exists>b. init_from_map (fresh_buddy rs) regions = Some b \<and> buddy_ok b (usable_pages b0 regions) \<and>
       total_pages b = card (usable_pages b0 regions))"
proof -
  let ?rs = "[(1404928, 1409024)] :: (usize \<times> usize) list"
  let ?regions = "[\<lparr>base = 0, len = 3145728, kind = Available\<rparr>,
                  \<lparr>base = 4194304, len = 4096, kind = Reserved\<rparr>]"
  have m: "map_ok ?regions" by (simp add: map_ok_def region_pages_def)
  have r: "reserved_ok ?rs" by (simp add: reserved_ok_def)
  show ?thesis using init_from_map_correct [OF m r] m r by (simp add: Let_def)
qed

text \<open>C9: the free-head bitmap is either not placed at all, or lies inside one usable region above
  the first megabyte, touches no reserved range, and has a bit for every page it covers.\<close>

theorem free_head_bitmap_placement:
  assumes "map_ok regions" "reserved_ok rs"
  defines "b0 \<equiv> setup_free_head_bitmap (fresh_buddy rs) regions"
  shows "(cover_end b0 = 0 \<and> bitmap_phys b0 = bitmap_phys_end b0 \<or>
      (\<exists>r\<in>set regions. kind r = Available \<and> region_start r \<le> bitmap_phys b0 \<and>
        bitmap_phys_end b0 \<le> region_end r) \<and>
      (\<forall>(s, e)\<in>set rs. s = e \<or> e \<le> bitmap_phys b0 \<or> bitmap_phys_end b0 \<le> s)) \<and>
    cover_end b0 div PAGE_SIZE \<le> 8 * (bitmap_phys_end b0 - bitmap_phys b0)"
proof -
  note c = setup_cases [OF assms(1,2), folded b0_def]
  from c(2) show ?thesis
  proof
    assume "b0 = fresh_buddy rs"
    then show ?thesis by (simp add: fresh_buddy_def buddy_initial_def)
  next
    assume "bitmap_placed (fresh_buddy rs) regions b0 (bitmap_phys_end b0 - bitmap_phys b0)"
    then show ?thesis using c(3) by (auto simp: bitmap_placed_def fresh_buddy_def)
  qed
qed

theorem free_head_bitmap_placement_witness:
  "map_ok [\<lparr>base = 0, len = 3145728, kind = Available\<rparr>] \<and> reserved_ok [(1404928, 1409024)] \<and>
   (let b0 = setup_free_head_bitmap (fresh_buddy [(1404928, 1409024)])
               [\<lparr>base = 0, len = 3145728, kind = Available\<rparr>]
    in cover_end b0 div PAGE_SIZE \<le> 8 * (bitmap_phys_end b0 - bitmap_phys b0))"
proof -
  have m: "map_ok [\<lparr>base = 0, len = 3145728, kind = Available\<rparr>]"
    by (simp add: map_ok_def)
  have r: "reserved_ok [(1404928, 1409024)]" by (simp add: reserved_ok_def)
  show ?thesis using free_head_bitmap_placement [OF m r] m r by (simp add: Let_def)
qed

subsection \<open>Tracked allocation\<close>




subsection \<open>The frame interface\<close>

locale frame_allocator =
  fixes ok :: "'s \<Rightarrow> nat set \<Rightarrow> bool"
    and valid :: "'s \<Rightarrow> usize \<Rightarrow> bool"
    and take_frame :: "'s \<Rightarrow> (usize option \<times> 's) option"
    and give_frame :: "'s \<Rightarrow> usize \<Rightarrow> 's option"
  assumes valid_frame: "valid s a \<Longrightarrow> PAGE_SIZE dvd a \<and> a \<noteq> 0"
    and take_ok: "ok s F \<Longrightarrow>
      (take_frame s = Some (None, s) \<and> F = {}) \<or>
      (\<exists>a s'. take_frame s = Some (Some a, s') \<and> valid s a \<and> a div PAGE_SIZE \<in> F \<and>
        ok s' (F - {a div PAGE_SIZE}) \<and> valid s' = valid s)"
    and give_ok: "ok s F \<Longrightarrow> valid s a \<Longrightarrow> a div PAGE_SIZE \<notin> F \<Longrightarrow>
      \<exists>s'. give_frame s a = Some s' \<and> ok s' (insert (a div PAGE_SIZE) F) \<and> valid s' = valid s"
begin

primrec take_many :: "'s \<Rightarrow> nat \<Rightarrow> (usize list \<times> 's) option" where
  "take_many s 0 = Some ([], s)"
| "take_many s (Suc n) =
    (case take_frame s of Some (Some a, s') \<Rightarrow> map_option (\<lambda>(as, s''). (a # as, s'')) (take_many s' n)
     | _ \<Rightarrow> None)"

primrec give_many :: "'s \<Rightarrow> usize list \<Rightarrow> 's option" where
  "give_many s [] = Some s"
| "give_many s (a # as) = (case give_frame s a of None \<Rightarrow> None | Some s' \<Rightarrow> give_many s' as)"

lemma valid_inj: "valid s a \<Longrightarrow> valid s c \<Longrightarrow> a div PAGE_SIZE = c div PAGE_SIZE \<Longrightarrow> a = c"
  using valid_frame page_div_inj by blast

lemma take_many_ok:
  "ok s F \<Longrightarrow> finite F \<Longrightarrow> n \<le> card F \<Longrightarrow>
    \<exists>as s'. take_many s n = Some (as, s') \<and> length as = n \<and> distinct as \<and> (\<forall>a\<in>set as. valid s a) \<and>
      (\<lambda>a. a div PAGE_SIZE) ` set as \<subseteq> F \<and> ok s' (F - (\<lambda>a. a div PAGE_SIZE) ` set as) \<and>
      valid s' = valid s"
proof (induction n arbitrary: s F)
  case (Suc n)
  then have "F \<noteq> {}" by auto
  with take_ok [OF Suc.prems(1)] obtain a s1 where a: "take_frame s = Some (Some a, s1)" "valid s a"
    "a div PAGE_SIZE \<in> F" "ok s1 (F - {a div PAGE_SIZE})" "valid s1 = valid s" by blast
  have "n \<le> card (F - {a div PAGE_SIZE})" using Suc.prems a(3) by simp
  from Suc.IH [OF a(4) _ this] Suc.prems(2) obtain as s2 where r: "take_many s1 n = Some (as, s2)"
    "length as = n" "distinct as" "\<forall>c\<in>set as. valid s1 c"
    "(\<lambda>a. a div PAGE_SIZE) ` set as \<subseteq> F - {a div PAGE_SIZE}"
    "ok s2 (F - {a div PAGE_SIZE} - (\<lambda>a. a div PAGE_SIZE) ` set as)" "valid s2 = valid s1" by auto
  have "F - {a div PAGE_SIZE} - (\<lambda>a. a div PAGE_SIZE) ` set as =
    F - (\<lambda>a. a div PAGE_SIZE) ` set (a # as)" by auto
  with a r show ?case by (intro exI [of _ "a # as"] exI [of _ s2]) auto
qed simp

lemma give_many_ok:
  "ok s F \<Longrightarrow> distinct as \<Longrightarrow> (\<forall>a\<in>set as. valid s a \<and> a div PAGE_SIZE \<notin> F) \<Longrightarrow>
    \<exists>s'. give_many s as = Some s' \<and> ok s' (F \<union> (\<lambda>a. a div PAGE_SIZE) ` set as)"
proof (induction as arbitrary: s F)
  case (Cons a as)
  obtain s1 where s1: "give_frame s a = Some s1" "ok s1 (insert (a div PAGE_SIZE) F)" "valid s1 = valid s"
    using give_ok [OF Cons.prems(1)] Cons.prems(3) by auto
  have "\<forall>c\<in>set as. valid s1 c \<and> c div PAGE_SIZE \<notin> insert (a div PAGE_SIZE) F"
    using Cons.prems(2,3) s1(3) valid_inj by fastforce
  from Cons.IH [OF s1(2) _ this] Cons.prems(2) s1(1) show ?case by auto
qed simp

lemma take_give:
  assumes "ok s F" "finite F" "n \<le> card F"
  shows "\<exists>as s1 s2. take_many s n = Some (as, s1) \<and> length as = n \<and> distinct as \<and>
    give_many s1 as = Some s2 \<and> ok s2 F"
proof -
  from take_many_ok [OF assms] obtain as s1 where t: "take_many s n = Some (as, s1)" "length as = n"
    "distinct as" "\<forall>a\<in>set as. valid s a" "(\<lambda>a. a div PAGE_SIZE) ` set as \<subseteq> F"
    "ok s1 (F - (\<lambda>a. a div PAGE_SIZE) ` set as)" "valid s1 = valid s" by blast
  have "\<forall>a\<in>set as. valid s1 a \<and> a div PAGE_SIZE \<notin> F - (\<lambda>a. a div PAGE_SIZE) ` set as"
    using t(4,7) by auto
  from give_many_ok [OF t(6,3) this] t show ?thesis by (auto simp: Un_absorb2)
qed

end

definition frame_ok :: "buddy \<Rightarrow> usize \<Rightarrow> bool" where
  "frame_ok b a \<longleftrightarrow> good_block b 0 a"

definition take_page :: "buddy \<Rightarrow> (usize option \<times> buddy) option" where
  "take_page b = alloc_untracked b 0"

definition give_page :: "buddy \<Rightarrow> usize \<Rightarrow> buddy option" where
  "give_page b a = free b a 0"

lemma block_pages_0: "block_pages 0 a = {a div PAGE_SIZE}"
  by (auto simp: block_pages_def)

interpretation frames: frame_allocator buddy_ok frame_ok take_page give_page
proof
  fix b :: buddy and F a
  have m: "0 < MAX_ORDER" by (simp add: MAX_ORDER_def)
  show "PAGE_SIZE dvd a \<and> a \<noteq> 0" if "frame_ok b a" using good_blockD that unfolding frame_ok_def by blast
  assume ok: "buddy_ok b F"
  show "(take_page b = Some (None, b) \<and> F = {}) \<or>
      (\<exists>a s'. take_page b = Some (Some a, s') \<and> frame_ok b a \<and> a div PAGE_SIZE \<in> F \<and>
        buddy_ok s' (F - {a div PAGE_SIZE}) \<and> frame_ok s' = frame_ok b)"
    using alloc_untracked_result [OF ok m]
  proof (elim disjE exE conjE)
    assume r: "alloc_untracked b 0 = Some (None, b)" "\<forall>a. block_size 0 dvd a \<longrightarrow> \<not> block_pages 0 a \<subseteq> F"
    have "p \<notin> F" for p
      using r(2) [rule_format, of "PAGE_SIZE * p"] by (simp add: block_pages_0 block_size_eq)
    then show ?thesis using r(1) by (auto simp: take_page_def)
  next
    fix a b' assume r: "alloc_untracked b 0 = Some (Some a, b')" "good_block b 0 a"
      "block_pages 0 a \<subseteq> F" "buddy_ok b' (F - block_pages 0 a)"
      "phys_end b' = phys_end b" "overlaps_reserved b' = overlaps_reserved b"
    have "frame_ok b' = frame_ok b" by (intro ext) (simp add: frame_ok_def good_block_def r(5,6))
    then show ?thesis using r(1-4) unfolding take_page_def block_pages_0 frame_ok_def by blast
  qed
  show "\<exists>s'. give_page b a = Some s' \<and> buddy_ok s' (insert (a div PAGE_SIZE) F) \<and> frame_ok s' = frame_ok b"
    if v: "frame_ok b a" "a div PAGE_SIZE \<notin> F"
  proof -
    have "block_pages 0 a \<inter> F = {}" using v(2) by (simp add: block_pages_0)
    from free_ok [OF ok m v(1) [unfolded frame_ok_def] this] obtain b' where
      r: "free b a 0 = Some b'" "buddy_ok b' (F \<union> block_pages 0 a)" "phys_end b' = phys_end b"
      "overlaps_reserved b' = overlaps_reserved b" by blast
    have "frame_ok b' = frame_ok b" by (intro ext) (simp add: frame_ok_def good_block_def r(3,4))
    then show ?thesis using r(1,2) unfolding give_page_def block_pages_0 by auto
  qed
qed

subsection \<open>A double free the head bitmap does not see\<close>

text \<open>The double-free check reads one bit, that of the head page.  A page in the interior of a
  larger free block (for instance one that has been merged downwards) has no bit, so freeing it
  again is accepted: the allocator then counts one page more than there are free pages.\<close>

definition covered_buddy :: buddy where
  "covered_buddy = (push_front (empty_buddy\<lparr>cover_end := 2097152\<rparr>) 8 1048576)\<lparr>free_pages := 256\<rparr>"

lemma interior_double_free_accepted:
  "\<exists>b'. free covered_buddy 1052672 0 = Some b' \<and> bad_frees b' = bad_frees covered_buddy \<and>
    free_pages b' = 257 \<and> 1052672 div PAGE_SIZE \<in> block_pages 8 1048576"
  by (simp add: free_def covered_buddy_def empty_buddy_def buddy_initial_def push_front_def
      set_next_def set_prev_def set_order_def set_head_def head_bit_set_def covered_def head_bit_def
      Let_def MAX_ORDER_def MAX_RESERVED_def block_size_def PAGE_SIZE_def overlaps_reserved_def
      untag_block_def checked_add_def coalesce.simps [of _ 1052672 0] try_remove_def
      block_pages_def push_bit_eq_mult list_ex_iff)

end
