(* ===== verification/Handle_Table.thy ===== *)
theory Handle_Table
  imports Kernel_Prelude
begin

text \<open>
  The interface of a table that hands out numeric handles: capability tokens and IPC port
  numbers.  A table is a finite map from live handles to objects.  Allocation under an unused
  handle extends the map by exactly that handle, releasing removes exactly that handle.  The
  handle counters of both tables wrap around without checking whether the handle is still in
  use, so the freshness of the handle is a premise of the allocation law.
\<close>

locale handle_table =
  fixes inv :: "'s \<Rightarrow> bool"
    and lookup :: "'s \<Rightarrow> 'k \<Rightarrow> 'v option"
    and alloc :: "'s \<Rightarrow> 'a \<Rightarrow> ('k \<times> 's) option"
    and release :: "'s \<Rightarrow> 'k \<Rightarrow> 's"
    and make :: "'a \<Rightarrow> 'v"
  assumes alloc_map: "inv s \<Longrightarrow> alloc s x = Some (k, s') \<Longrightarrow> lookup s k = None \<Longrightarrow>
      inv s' \<and> lookup s' = (lookup s)(k \<mapsto> make x)"
    and release_map: "inv s \<Longrightarrow> inv (release s k) \<and> lookup (release s k) = (lookup s)(k := None)"
begin

lemma release_all:
  "inv s \<Longrightarrow> inv (fold (\<lambda>k s. release s k) ks s) \<and>
    lookup (fold (\<lambda>k s. release s k) ks s) = (\<lambda>k. if k \<in> set ks then None else lookup s k)"
proof (induction ks arbitrary: s)
  case (Cons k ks)
  note r = release_map [OF Cons.prems, of k]
  from Cons.IH [OF r [THEN conjunct1]] show ?case
    unfolding r [THEN conjunct2] by (simp add: fun_eq_iff)
qed simp

lemma alloc_release:
  assumes "inv s" "alloc s x = Some (k, s')" "lookup s k = None"
  shows "inv (release s' k)" "lookup (release s' k) = lookup s"
proof -
  note a = alloc_map [OF assms]
  note r = release_map [OF a [THEN conjunct1], of k]
  show "inv (release s' k)" using r by (rule conjunct1)
  show "lookup (release s' k) = lookup s"
    unfolding r [THEN conjunct2] a [THEN conjunct2] using assms(3) by (simp add: fun_eq_iff)
qed

lemma release_keeps_other:
  assumes "inv s" "k \<noteq> j"
  shows "lookup (release s j) k = lookup s k"
  using release_map [OF assms(1), of j] assms(2) by simp

end

end
