(* ===== verification/Ipc_Port.thy ===== *)
theory Ipc_Port
  imports Fifo Handle_Table
begin

text \<open>
  IPC ports, \<open>ipc/src/port.rs\<close>, \<open>message.rs\<close> and \<open>channel.rs\<close>.  The table is an open-addressed
  hash table of \<open>LIVE_BUCKETS\<close> entries with linear probing over at most \<open>PROBE_LIMIT\<close> buckets and
  tombstones; every entry holds a ring of \<open>QUEUE_DEPTH\<close> message slots.  Port numbers and pids are
  \<open>u32\<close> values kept as naturals.  Waking a task (\<open>sched::unblock_port\<close>) is an entry of the log
  \<open>woken\<close>.  A handler is server code: what it replies and does to the state is the parameter
  \<open>run_handler\<close>.  \<open>send\<close> calls itself to deliver the reply; None is a call that does not return.
\<close>

definition MAX_PORTS :: nat where "MAX_PORTS = 65536"
definition QUEUE_DEPTH :: nat where "QUEUE_DEPTH = 16"
definition EMPTY_ID :: nat where "EMPTY_ID = 0"
definition TOMBSTONE_ID :: nat where "TOMBSTONE_ID = 2 ^ 32 - 1"
definition LIVE_BUCKETS :: nat where "LIVE_BUCKETS = 512"
definition PROBE_LIMIT :: nat where "PROBE_LIMIT = 16"
definition BATCH :: nat where "BATCH = 64"

definition MESSAGE_INLINE_BYTES :: nat where "MESSAGE_INLINE_BYTES = 440"

record message =
  tag :: nat
  reply_port :: nat
  data :: "u8 list"
  has_cap :: nat
  cap :: nat

definition message_empty :: message where
  "message_empty = \<lparr>tag = 0, reply_port = 2 ^ 32 - 1, data = replicate MESSAGE_INLINE_BYTES 0,
    has_cap = 0, cap = 0\<rparr>"

datatype send_error = PortNotFound | QueueFull

record 'h port_entry =
  entry_id :: nat
  owner_pid :: nat
  queue :: "message option list"
  qhead :: nat
  qtail :: nat
  handler :: "'h option"

definition entry_empty :: "'h port_entry" where
  "entry_empty = \<lparr>entry_id = EMPTY_ID, owner_pid = 0, queue = replicate QUEUE_DEPTH None,
    qhead = 0, qtail = 0, handler = None\<rparr>"

definition entry_tombstone :: "'h port_entry" where
  "entry_tombstone = \<lparr>entry_id = TOMBSTONE_ID, owner_pid = 0, queue = replicate QUEUE_DEPTH None,
    qhead = 0, qtail = 0, handler = None\<rparr>"

definition is_free :: "'h port_entry \<Rightarrow> bool" where
  "is_free e \<longleftrightarrow> entry_id e = EMPTY_ID"

definition is_tombstone :: "'h port_entry \<Rightarrow> bool" where
  "is_tombstone e \<longleftrightarrow> entry_id e = TOMBSTONE_ID"

definition is_available :: "'h port_entry \<Rightarrow> bool" where
  "is_available e \<longleftrightarrow> is_free e \<or> is_tombstone e"

definition enqueue :: "'h port_entry \<Rightarrow> message \<Rightarrow> bool \<times> 'h port_entry" where
  "enqueue e msg =
    (let nxt = (qtail e + 1) mod QUEUE_DEPTH in
     if nxt = qhead e then (False, e)
     else (True, e\<lparr>queue := (queue e)[qtail e := Some msg], qtail := nxt\<rparr>))"

definition dequeue :: "'h port_entry \<Rightarrow> message option \<times> 'h port_entry" where
  "dequeue e =
    (if qhead e = qtail e then (None, e)
     else (queue e ! qhead e,
           e\<lparr>queue := (queue e)[qhead e := None], qhead := (qhead e + 1) mod QUEUE_DEPTH\<rparr>))"

subsection \<open>The table\<close>

record 'h port_table =
  buckets :: "'h port_entry list"
  next_id :: nat

definition port_table_new :: "'h port_table" where
  "port_table_new = \<lparr>buckets = replicate LIVE_BUCKETS entry_empty, next_id = 0\<rparr>"

definition probe_seq :: "nat \<Rightarrow> nat list" where
  "probe_seq p = map (\<lambda>i. (p mod LIVE_BUCKETS + i) mod LIVE_BUCKETS) [0..<PROBE_LIMIT]"

fun find_probe :: "'h port_entry list \<Rightarrow> nat \<Rightarrow> nat list \<Rightarrow> nat option" where
  "find_probe bs p [] = None"
| "find_probe bs p (idx # rest) =
    (if is_free (bs ! idx) then None
     else if is_tombstone (bs ! idx) then find_probe bs p rest
     else if entry_id (bs ! idx) = p then Some idx
     else find_probe bs p rest)"

definition find_port :: "'h port_table \<Rightarrow> nat \<Rightarrow> nat option" where
  "find_port t p = find_probe (buckets t) p (probe_seq p)"

definition find_mut :: "'h port_table \<Rightarrow> nat \<Rightarrow> nat option" where
  "find_mut t p = find_probe (buckets t) p (probe_seq p)"

definition occupancy :: "'h port_table \<Rightarrow> nat" where
  "occupancy t = length (filter (\<lambda>b. \<not> is_available b) (buckets t))"

fun alloc_loop :: "nat \<Rightarrow> 'h port_table \<Rightarrow> nat \<Rightarrow> (nat \<times> nat) option \<times> 'h port_table" where
  "alloc_loop 0 t pid = (None, t)"
| "alloc_loop (Suc n) t pid =
    (let id_raw = next_id t;
         t = t\<lparr>next_id := uadd id_raw 1\<rparr>;
         new = id_raw mod (MAX_PORTS - 1) + 1
     in case find (\<lambda>idx. is_available (buckets t ! idx)) (probe_seq new) of
          Some idx \<Rightarrow>
            (Some (new, idx),
             t\<lparr>buckets := (buckets t)[idx :=
                (buckets t ! idx)\<lparr>entry_id := new, owner_pid := pid, qhead := 0, qtail := 0,
                  handler := None,
                  queue := map (\<lambda>_. None) (queue (buckets t ! idx))\<rparr>]\<rparr>)
        | None \<Rightarrow> alloc_loop n t pid)"

definition alloc_port :: "'h port_table \<Rightarrow> nat \<Rightarrow> (nat \<times> nat) option \<times> 'h port_table" where
  "alloc_port t pid = alloc_loop MAX_PORTS t pid"

subsection \<open>Operations on the global table\<close>

record 'h ipc =
  table :: "'h port_table"
  woken :: "nat list"

definition set_bucket :: "'h ipc \<Rightarrow> nat \<Rightarrow> 'h port_entry \<Rightarrow> 'h ipc" where
  "set_bucket s idx e = s\<lparr>table := (table s)\<lparr>buckets := (buckets (table s))[idx := e]\<rparr>\<rparr>"

fun release_scan ::
  "nat \<Rightarrow> nat \<Rightarrow> 'h port_entry list \<Rightarrow> 'h port_entry list \<times> nat list" where
  "release_scan pid n [] = ([], [])"
| "release_scan pid n (b # bs) =
    (if n = BATCH then (b # bs, [])
     else if \<not> is_free b \<and> \<not> is_tombstone b \<and> owner_pid b = pid then
       (let (bs', closed) = release_scan pid (n + 1) bs in (entry_tombstone # bs', entry_id b # closed))
     else (let (bs', closed) = release_scan pid n bs in (b # bs', closed)))"

definition owned :: "nat \<Rightarrow> 'h port_entry \<Rightarrow> bool" where
  "owned pid b \<longleftrightarrow> \<not> is_available b \<and> owner_pid b = pid"

lemma entry_tombstone_simps [simp]:
  "is_tombstone entry_tombstone" "\<not> is_free entry_tombstone" "is_available entry_tombstone"
  "\<not> owned pid entry_tombstone" "is_free entry_empty" "is_available entry_empty"
  by (simp_all add: is_tombstone_def is_free_def is_available_def entry_tombstone_def
      entry_empty_def EMPTY_ID_def TOMBSTONE_ID_def owned_def)

lemma release_scan_owned:
  "release_scan pid n bs = (bs', closed) \<Longrightarrow> n \<le> BATCH \<Longrightarrow>
    length bs' = length bs \<and> n + length closed \<le> BATCH \<and>
    length (filter (owned pid) bs) = length (filter (owned pid) bs') + length closed \<and>
    (n + length closed < BATCH \<longrightarrow> filter (owned pid) bs' = [])"
proof (induction pid n bs arbitrary: bs' closed rule: release_scan.induct)
  case (2 pid n b bs)
  obtain cs xs where r: "release_scan pid (n + 1) bs = (cs, xs)" by fastforce
  obtain ds ys where q: "release_scan pid n bs = (ds, ys)" by fastforce
  consider (full) "n = BATCH" | (hit) "n \<noteq> BATCH" "owned pid b" | (miss) "n \<noteq> BATCH" "\<not> owned pid b"
    by blast
  then show ?case
  proof cases
    case full
    then show ?thesis using "2.prems"(1) by simp
  next
    case hit
    then have o: "\<not> is_free b \<and> \<not> is_tombstone b \<and> owner_pid b = pid"
      by (simp add: owned_def is_available_def)
    have "bs' = entry_tombstone # cs" "closed = entry_id b # xs"
      using "2.prems"(1) hit(1) o r by (auto split: if_splits)
    then show ?thesis using "2.IH"(1) [OF hit(1) o r] "2.prems"(2) hit by simp
  next
    case miss
    then have o: "\<not> (\<not> is_free b \<and> \<not> is_tombstone b \<and> owner_pid b = pid)"
      by (simp add: owned_def is_available_def)
    have "bs' = b # ds" "closed = ys" using "2.prems"(1) miss(1) o q by (auto split: if_splits)
    then show ?thesis using "2.IH"(2) [OF miss(1) o q] "2.prems"(2) miss(2) by simp
  qed
qed simp

function release_by_owner :: "nat \<Rightarrow> 'h ipc \<Rightarrow> 'h ipc" where
  "release_by_owner pid s =
    (let (bs, closed) = release_scan pid 0 (buckets (table s));
         s = s\<lparr>table := (table s)\<lparr>buckets := bs\<rparr>, woken := woken s @ closed\<rparr>
     in if length closed < BATCH then s else release_by_owner pid s)"
  by pat_completeness auto
termination
proof (relation "measure (\<lambda>(pid, s). length (filter (owned pid) (buckets (table s))))")
  fix pid and s s' :: "'h ipc" and x bs closed
  assume x: "x = release_scan pid 0 (buckets (table s))" "(bs, closed) = x"
    "s' = s\<lparr>table := (table s)\<lparr>buckets := bs\<rparr>, woken := woken s @ closed\<rparr>" "\<not> length closed < BATCH"
  have "release_scan pid 0 (buckets (table s)) = (bs, closed)" using x(1,2) by simp
  from release_scan_owned [OF this] x(4)
  have "length (filter (owned pid) bs) < length (filter (owned pid) (buckets (table s)))"
    by (simp add: BATCH_def)
  then show "((pid, s'), pid, s) \<in> measure (\<lambda>(pid, s). length (filter (owned pid) (buckets (table s))))"
    using x(3) by simp
qed simp

declare release_by_owner.simps [simp del]

definition close_port :: "nat \<Rightarrow> 'h ipc \<Rightarrow> 'h ipc" where
  "close_port p s =
    (case find_mut (table s) p of None \<Rightarrow> s | Some idx \<Rightarrow> set_bucket s idx entry_tombstone)"

definition create_port :: "nat \<Rightarrow> 'h ipc \<Rightarrow> nat option \<times> 'h ipc" where
  "create_port pid s =
    (let (r, t) = alloc_port (table s) pid in (map_option fst r, s\<lparr>table := t\<rparr>))"

definition census :: "'h ipc \<Rightarrow> nat \<times> nat" where
  "census s = (occupancy (table s), LIVE_BUCKETS)"

text \<open>\<open>send\<close>: the handler may change the state, and its reply is sent on in turn.\<close>

partial_function (option) send ::
  "('h \<Rightarrow> message \<Rightarrow> nat \<Rightarrow> nat \<Rightarrow> 'h ipc \<Rightarrow> message \<times> 'h ipc) \<times> nat \<Rightarrow> nat \<times> message \<Rightarrow> 'h ipc \<Rightarrow>
    ((send_error option) \<times> 'h ipc) option" where
  "send env pm s =
    (case find_mut (table s) (fst pm) of
       None \<Rightarrow> Some (Some PortNotFound, s)
     | Some idx \<Rightarrow>
         (case handler (buckets (table s) ! idx) of
            Some h \<Rightarrow>
              if reply_port (snd pm) \<noteq> 2 ^ 32 - 1
              then Option.bind
                (send env
                  (reply_port (snd pm),
                   fst (fst env h (snd pm) (snd env) (entry_id (buckets (table s) ! idx)) s))
                  (snd (fst env h (snd pm) (snd env) (entry_id (buckets (table s) ! idx)) s)))
                (\<lambda>r. Some (None, snd r))
              else Some (None, snd (fst env h (snd pm) (snd env) (entry_id (buckets (table s) ! idx)) s))
          | None \<Rightarrow>
              (case enqueue (buckets (table s) ! idx) (snd pm) of
                 (ok, e) \<Rightarrow>
                   if ok then
                     Some (None, (set_bucket s idx e)\<lparr>woken :=
                       (if owner_pid (buckets (table s) ! idx) \<noteq> snd env then woken s @ [fst pm] else woken s)\<rparr>)
                   else Some (Some QueueFull, s))))"

definition register_handler :: "nat \<Rightarrow> 'h \<Rightarrow> 'h ipc \<Rightarrow> bool \<times> 'h ipc" where
  "register_handler p h s =
    (case find_mut (table s) p of
       None \<Rightarrow> (False, s)
     | Some idx \<Rightarrow> (True, set_bucket s idx ((buckets (table s) ! idx)\<lparr>handler := Some h\<rparr>)))"

definition port_stats :: "nat \<Rightarrow> 'h ipc \<Rightarrow> (nat \<times> nat) option" where
  "port_stats p s =
    (case find_port (table s) p of
       None \<Rightarrow> None
     | Some idx \<Rightarrow>
         let b = buckets (table s) ! idx
         in Some ((qtail b + QUEUE_DEPTH - qhead b) mod QUEUE_DEPTH, QUEUE_DEPTH - 1))"

definition recv :: "nat \<Rightarrow> 'h ipc \<Rightarrow> message option \<times> 'h ipc" where
  "recv p s =
    (case find_mut (table s) p of
       None \<Rightarrow> (None, s)
     | Some idx \<Rightarrow> let (m, e) = dequeue (buckets (table s) ! idx) in (m, set_bucket s idx e))"

definition recv_as :: "nat \<Rightarrow> nat \<Rightarrow> 'h ipc \<Rightarrow> message option \<times> 'h ipc" where
  "recv_as p caller s =
    (case find_mut (table s) p of
       None \<Rightarrow> (None, s)
     | Some idx \<Rightarrow>
         if owner_pid (buckets (table s) ! idx) \<noteq> caller then (None, s)
         else let (m, e) = dequeue (buckets (table s) ! idx) in (m, set_bucket s idx e))"

definition is_owner :: "nat \<Rightarrow> nat \<Rightarrow> 'h ipc \<Rightarrow> bool" where
  "is_owner p pid s =
    (case find_port (table s) p of None \<Rightarrow> False | Some idx \<Rightarrow> owner_pid (buckets (table s) ! idx) = pid)"

subsection \<open>Channels (channel.rs)\<close>

record channel =
  client :: nat
  server :: nat

definition channel_new :: "nat \<Rightarrow> 'h ipc \<Rightarrow> channel option \<times> 'h ipc" where
  "channel_new pid s =
    (case create_port pid s of
       (None, s) \<Rightarrow> (None, s)
     | (Some c, s) \<Rightarrow>
         (case create_port pid s of
            (Some p, s) \<Rightarrow> (Some \<lparr>client = c, server = p\<rparr>, s)
          | (None, s) \<Rightarrow> (None, close_port c s)))"

end
