(* ===== verification/Ipc_Correct.thy ===== *)
theory Ipc_Correct
  imports Ipc_Port
begin

text \<open>
  Correctness of the port table.  \<open>port_inv\<close> says that the entries' rings are well formed, that
  live port numbers are distinct, and that every live entry is reachable by probing: all
  buckets before it in its probe sequence have been used.  Under it lookup finds exactly the
  live entries; creating and closing ports implement the handle-table interface and the message
  queue of a port implements the bounded-queue interface.
\<close>

abbreviation live :: "'h port_entry \<Rightarrow> bool" where
  "live e \<equiv> \<not> is_available e"

abbreviation bucket :: "'h ipc \<Rightarrow> nat \<Rightarrow> 'h port_entry" where
  "bucket s i \<equiv> buckets (table s) ! i"

definition probe_at :: "nat \<Rightarrow> nat \<Rightarrow> nat" where
  "probe_at p k = (p mod LIVE_BUCKETS + k) mod LIVE_BUCKETS"

definition entry_ok :: "'h port_entry \<Rightarrow> bool" where
  "entry_ok e \<longleftrightarrow> ring_ok QUEUE_DEPTH (queue e) (qhead e) (qtail e)"

definition reachable :: "'h port_entry list \<Rightarrow> nat \<Rightarrow> bool" where
  "reachable bs i \<longleftrightarrow> (\<exists>k<PROBE_LIMIT. i = probe_at (entry_id (bs ! i)) k \<and>
    (\<forall>j<k. \<not> is_free (bs ! probe_at (entry_id (bs ! i)) j)))"

definition buckets_inv :: "'h port_entry list \<Rightarrow> bool" where
  "buckets_inv bs \<longleftrightarrow> length bs = LIVE_BUCKETS \<and> (\<forall>e\<in>set bs. entry_ok e) \<and>
    (\<forall>i<LIVE_BUCKETS. live (bs ! i) \<longrightarrow> reachable bs i) \<and>
    (\<forall>i<LIVE_BUCKETS. \<forall>j<LIVE_BUCKETS. live (bs ! i) \<longrightarrow> live (bs ! j) \<longrightarrow>
      entry_id (bs ! i) = entry_id (bs ! j) \<longrightarrow> i = j)"

definition port_inv :: "'h ipc \<Rightarrow> bool" where
  "port_inv s \<longleftrightarrow> buckets_inv (buckets (table s))"

lemma probe_seq_eq: "probe_seq p = map (probe_at p) [0..<PROBE_LIMIT]"
  by (simp add: probe_seq_def probe_at_def)

lemma probe_at_less [simp]: "probe_at p k < LIVE_BUCKETS"
  by (simp add: probe_at_def LIVE_BUCKETS_def)

lemma find_probe_sound:
  "find_probe bs p xs = Some i \<Longrightarrow> i \<in> set xs \<and> live (bs ! i) \<and> entry_id (bs ! i) = p"
  by (induction xs) (auto simp: is_available_def split: if_splits)

lemma find_probe_complete:
  "k < length xs \<Longrightarrow> live (bs ! (xs ! k)) \<Longrightarrow> entry_id (bs ! (xs ! k)) = p \<Longrightarrow>
    (\<forall>j<k. \<not> is_free (bs ! (xs ! j))) \<Longrightarrow> \<exists>i. find_probe bs p xs = Some i"
proof (induction xs arbitrary: k)
  case (Cons x xs)
  show ?case
  proof (cases k)
    case 0
    then show ?thesis using Cons.prems by (auto simp: is_available_def)
  next
    case (Suc m)
    have "\<not> is_free (bs ! x)" using Cons.prems(4) Suc by fastforce
    moreover have "\<exists>i. find_probe bs p xs = Some i"
      using Cons.prems Suc by (intro Cons.IH [of m]) fastforce+
    ultimately show ?thesis by auto
  qed
qed simp

lemma find_port_iff:
  assumes "buckets_inv (buckets t)"
  shows "find_port t p = Some i \<longleftrightarrow>
    i < LIVE_BUCKETS \<and> live (buckets t ! i) \<and> entry_id (buckets t ! i) = p"
proof
  assume "find_port t p = Some i"
  from find_probe_sound [OF this [unfolded find_port_def]]
  show "i < LIVE_BUCKETS \<and> live (buckets t ! i) \<and> entry_id (buckets t ! i) = p"
    by (auto simp: probe_seq_eq)
next
  assume i: "i < LIVE_BUCKETS \<and> live (buckets t ! i) \<and> entry_id (buckets t ! i) = p"
  then obtain k where k: "k < PROBE_LIMIT" "i = probe_at p k"
    "\<forall>j<k. \<not> is_free (buckets t ! probe_at p j)"
    using assms unfolding buckets_inv_def reachable_def by blast
  then obtain j where j: "find_port t p = Some j"
    using find_probe_complete [of k "probe_seq p" "buckets t" p] i
    unfolding find_port_def by (auto simp: probe_seq_eq)
  from find_probe_sound [OF this [unfolded find_port_def]]
  have "j < LIVE_BUCKETS" "live (buckets t ! j)" "entry_id (buckets t ! j) = p"
    by (auto simp: probe_seq_eq)
  then have "j = i" using assms i unfolding buckets_inv_def by blast
  then show "find_port t p = Some i" using j by simp
qed

lemma find_mut_eq: "find_mut = find_port"
  by (intro ext) (simp add: find_mut_def find_port_def)

lemma find_port_None:
  assumes "buckets_inv (buckets t)"
  shows "find_port t p = None \<longleftrightarrow>
    (\<forall>i<LIVE_BUCKETS. live (buckets t ! i) \<longrightarrow> entry_id (buckets t ! i) \<noteq> p)"
  using find_port_iff [OF assms, of p] by (metis not_None_eq option.distinct(1))

subsection \<open>Replacing one bucket\<close>

lemma buckets_inv_update:
  assumes "buckets_inv bs" "i < LIVE_BUCKETS" "entry_ok e" "\<not> is_free e"
    "live e \<Longrightarrow> \<exists>k<PROBE_LIMIT. i = probe_at (entry_id e) k \<and>
       (\<forall>j<k. \<not> is_free (bs ! probe_at (entry_id e) j))"
    "live e \<Longrightarrow> \<forall>j<LIVE_BUCKETS. j \<noteq> i \<longrightarrow> live (bs ! j) \<longrightarrow> entry_id (bs ! j) \<noteq> entry_id e"
  shows "buckets_inv (bs[i := e])"
proof -
  have l: "length bs = LIVE_BUCKETS" using assms(1) by (simp add: buckets_inv_def)
  have nf: "\<not> is_free (bs[i := e] ! j)" if "\<not> is_free (bs ! j)" for j
    using that assms(4) l assms(2) by (cases "j = i") auto
  have "\<forall>x\<in>set (bs[i := e]). entry_ok x"
    using assms(1,3) set_update_subset_insert [of bs i e] unfolding buckets_inv_def by blast
  moreover have "reachable (bs[i := e]) j" if "j < LIVE_BUCKETS" "live (bs[i := e] ! j)" for j
  proof (cases "j = i")
    case True
    then have "live e" using that l by simp
    from assms(5) [OF this] show ?thesis
      using True l assms(2) nf unfolding reachable_def by auto
  next
    case False
    then have "reachable bs j" using assms(1) that by (auto simp: buckets_inv_def)
    then show ?thesis using False nf unfolding reachable_def by auto
  qed
  moreover have "j = m" if "j < LIVE_BUCKETS" "m < LIVE_BUCKETS" "live (bs[i := e] ! j)"
    "live (bs[i := e] ! m)" "entry_id (bs[i := e] ! j) = entry_id (bs[i := e] ! m)" for j m
  proof -
    have "live e \<Longrightarrow> x < LIVE_BUCKETS \<Longrightarrow> x \<noteq> i \<Longrightarrow> live (bs ! x) \<Longrightarrow> entry_id (bs ! x) \<noteq> entry_id e" for x
      using assms(6) by blast
    then show ?thesis
      using that l assms(1) unfolding buckets_inv_def by (cases "j = i"; cases "m = i") auto
  qed
  ultimately show ?thesis using l unfolding buckets_inv_def by simp
qed

lemma buckets_inv_same_id:
  assumes "buckets_inv bs" "i < LIVE_BUCKETS" "live (bs ! i)" "entry_ok e"
    "entry_id e = entry_id (bs ! i)"
  shows "buckets_inv (bs[i := e])"
proof (rule buckets_inv_update [OF assms(1,2,4)])
  have "is_available e = is_available (bs ! i)" "is_free e = is_free (bs ! i)"
    using assms(5) by (simp_all add: is_available_def is_free_def is_tombstone_def)
  then show "\<not> is_free e" using assms(3) by (simp add: is_available_def)
  show "\<exists>k<PROBE_LIMIT. i = probe_at (entry_id e) k \<and> (\<forall>j<k. \<not> is_free (bs ! probe_at (entry_id e) j))"
    using assms(1-3) unfolding assms(5) buckets_inv_def reachable_def by blast
  show "\<forall>j<LIVE_BUCKETS. j \<noteq> i \<longrightarrow> live (bs ! j) \<longrightarrow> entry_id (bs ! j) \<noteq> entry_id e"
    using assms(1-3) unfolding assms(5) buckets_inv_def by blast
qed

lemma entry_ok_fresh:
  "entry_ok entry_tombstone" "entry_ok entry_empty"
  by (simp_all add: entry_ok_def ring_ok_def entry_tombstone_def entry_empty_def QUEUE_DEPTH_def
      ring_count_def)

lemma port_inv_new: "port_inv \<lparr>table = port_table_new, woken = w\<rparr>"
  by (auto simp: port_inv_def buckets_inv_def port_table_new_def entry_ok_fresh LIVE_BUCKETS_def)

subsection \<open>The table as a map from port numbers to views\<close>

type_synonym 'h view = "nat \<times> message list \<times> 'h option"

definition items :: "'h port_entry \<Rightarrow> message list" where
  "items e = ring_items (queue e) (qhead e) (qtail e)"

definition view :: "'h port_entry \<Rightarrow> 'h view" where
  "view e = (owner_pid e, items e, handler e)"

definition port_lookup :: "'h ipc \<Rightarrow> nat \<Rightarrow> 'h view option" where
  "port_lookup s p = map_option (\<lambda>i. view (bucket s i)) (find_port (table s) p)"

lemma port_lookup_iff:
  assumes "port_inv s"
  shows "port_lookup s p = Some v \<longleftrightarrow>
    (\<exists>i<LIVE_BUCKETS. live (bucket s i) \<and> entry_id (bucket s i) = p \<and> view (bucket s i) = v)"
  unfolding port_lookup_def map_option_eq_Some
  using find_port_iff [OF assms [unfolded port_inv_def]] by blast

lemma set_bucket_table [simp]:
  "buckets (table (set_bucket s i e)) = (buckets (table s))[i := e]"
  "next_id (table (set_bucket s i e)) = next_id (table s)" "woken (set_bucket s i e) = woken s"
  by (simp_all add: set_bucket_def)

lemma inv_length: "port_inv s \<Longrightarrow> length (buckets (table s)) = LIVE_BUCKETS"
  by (simp add: port_inv_def buckets_inv_def)

lemma inv_entry: "port_inv s \<Longrightarrow> i < LIVE_BUCKETS \<Longrightarrow> entry_ok (bucket s i)"
  by (auto simp: port_inv_def buckets_inv_def)

lemma lookup_replace:
  assumes "port_inv s" "port_inv s'" "buckets (table s') = (buckets (table s))[i := e]"
    "i < LIVE_BUCKETS" "\<And>j. j < LIVE_BUCKETS \<Longrightarrow> j \<noteq> i \<Longrightarrow> live (bucket s j) \<Longrightarrow> entry_id (bucket s j) \<noteq> p"
    "live (bucket s i) \<Longrightarrow> entry_id (bucket s i) = p" "live e \<Longrightarrow> entry_id e = p"
  shows "port_lookup s' = (port_lookup s)(p := if live e then Some (view e) else None)"
proof (intro ext option_eqI)
  fix q v
  have b: "bucket s' j = (if j = i then e else bucket s j)" if "j < LIVE_BUCKETS" for j
    using assms(3) that inv_length [OF assms(1)] by (simp add: nth_list_update)
  show "port_lookup s' q = Some v \<longleftrightarrow>
    ((port_lookup s)(p := if live e then Some (view e) else None)) q = Some v"
  proof (cases "q = p")
    case True
    have "port_lookup s' p = Some v \<longleftrightarrow> live e \<and> view e = v"
      unfolding port_lookup_iff [OF assms(2)]
    proof
      assume "\<exists>j<LIVE_BUCKETS. live (bucket s' j) \<and> entry_id (bucket s' j) = p \<and> view (bucket s' j) = v"
      then obtain j where j: "j < LIVE_BUCKETS" "live (bucket s' j)" "entry_id (bucket s' j) = p"
        "view (bucket s' j) = v" by blast
      have "j = i" using b [OF j(1)] j(2,3) assms(5) [OF j(1)] by (cases "j = i") simp_all
      then show "live e \<and> view e = v" using b [OF j(1)] j by simp
    next
      assume "live e \<and> view e = v"
      then show "\<exists>j<LIVE_BUCKETS. live (bucket s' j) \<and> entry_id (bucket s' j) = p \<and> view (bucket s' j) = v"
        using b [OF assms(4)] assms(4,7) by (intro exI [of _ i]) simp
    qed
    then show ?thesis using True by auto
  next
    case False
    have "live (bucket s' j) \<and> entry_id (bucket s' j) = q \<and> view (bucket s' j) = v \<longleftrightarrow>
      live (bucket s j) \<and> entry_id (bucket s j) = q \<and> view (bucket s j) = v"
      if "j < LIVE_BUCKETS" for j
      using b [OF that] assms(6,7) False by (cases "j = i") auto
    then have "port_lookup s' q = Some v \<longleftrightarrow> port_lookup s q = Some v"
      unfolding port_lookup_iff [OF assms(2)] port_lookup_iff [OF assms(1)] by blast
    then show ?thesis using False by simp
  qed
qed

lemma find_unique_port:
  assumes "port_inv s" "find_port (table s) p = Some i"
  shows "i < LIVE_BUCKETS" "live (bucket s i)" "entry_id (bucket s i) = p"
    "j < LIVE_BUCKETS \<Longrightarrow> j \<noteq> i \<Longrightarrow> live (bucket s j) \<Longrightarrow> entry_id (bucket s j) \<noteq> p"
proof -
  show *: "i < LIVE_BUCKETS" "live (bucket s i)" "entry_id (bucket s i) = p"
    using find_port_iff [OF assms(1) [unfolded port_inv_def]] assms(2) by blast+
  show "entry_id (bucket s j) \<noteq> p" if "j < LIVE_BUCKETS" "j \<noteq> i" "live (bucket s j)"
    using assms(1) * that unfolding port_inv_def buckets_inv_def by blast
qed

lemma update_entry:
  assumes "port_inv s" "find_port (table s) p = Some i" "entry_ok e" "entry_id e = entry_id (bucket s i)"
    "buckets (table s') = (buckets (table s))[i := e]"
  shows "port_inv s'" "port_lookup s' = (port_lookup s)(p \<mapsto> view e)"
proof -
  note f = find_unique_port [OF assms(1,2)]
  show inv: "port_inv s'"
    using buckets_inv_same_id [OF assms(1) [unfolded port_inv_def] f(1,2) assms(3,4)] assms(5)
    by (simp add: port_inv_def)
  have "live e" using f(2) assms(4) by (simp add: is_available_def is_free_def is_tombstone_def)
  then show "port_lookup s' = (port_lookup s)(p \<mapsto> view e)"
    using lookup_replace [OF assms(1) inv assms(5) f(1,4)] f(3) assms(4) by simp
qed

subsection \<open>Closing\<close>

lemma close_port_map:
  assumes "port_inv s"
  shows "port_inv (close_port p s)" "port_lookup (close_port p s) = (port_lookup s)(p := None)"
proof -
  have "port_inv (close_port p s) \<and> port_lookup (close_port p s) = (port_lookup s)(p := None)"
  proof (cases "find_port (table s) p")
    case None
    then have "port_lookup s p = None" by (simp add: port_lookup_def)
    moreover have "close_port p s = s" using None by (simp add: close_port_def find_mut_eq)
    ultimately show ?thesis using assms by (simp add: fun_upd_idem)
  next
    case (Some i)
    note f = find_unique_port [OF assms Some]
    have e: "close_port p s = set_bucket s i entry_tombstone"
      using Some by (simp add: close_port_def find_mut_eq)
    have inv: "port_inv (close_port p s)"
      using buckets_inv_update [OF assms [unfolded port_inv_def] f(1) entry_ok_fresh(1)]
      by (simp add: e port_inv_def)
    from lookup_replace [OF assms inv _ f(1) f(4), of entry_tombstone] f(3)
    show ?thesis using inv by (simp add: e)
  qed
  then show "port_inv (close_port p s)" "port_lookup (close_port p s) = (port_lookup s)(p := None)"
    by simp_all
qed

subsection \<open>Creating\<close>

definition new_id :: "nat \<Rightarrow> nat" where
  "new_id raw = raw mod (MAX_PORTS - 1) + 1"

lemma new_id_range: "0 < new_id raw" "new_id raw < MAX_PORTS" "new_id raw \<noteq> TOMBSTONE_ID"
proof -
  have "raw mod 65535 < 65535" by simp
  then show "0 < new_id raw" "new_id raw < MAX_PORTS" "new_id raw \<noteq> TOMBSTONE_ID"
    unfolding new_id_def MAX_PORTS_def TOMBSTONE_ID_def by simp_all
qed

definition fresh_entry :: "nat \<Rightarrow> nat \<Rightarrow> 'h port_entry \<Rightarrow> 'h port_entry" where
  "fresh_entry new pid e = e\<lparr>entry_id := new, owner_pid := pid, qhead := 0, qtail := 0, handler := None,
    queue := map (\<lambda>_. None) (queue e)\<rparr>"

lemma alloc_loop_step:
  "alloc_loop (Suc n) t pid =
    (case find (\<lambda>i. is_available (buckets t ! i)) (probe_seq (new_id (next_id t))) of
       Some i \<Rightarrow> (Some (new_id (next_id t), i),
         t\<lparr>next_id := uadd (next_id t) 1,
           buckets := (buckets t)[i := fresh_entry (new_id (next_id t)) pid (buckets t ! i)]\<rparr>)
     | None \<Rightarrow> alloc_loop n (t\<lparr>next_id := uadd (next_id t) 1\<rparr>) pid)"
  by (simp add: Let_def new_id_def fresh_entry_def split: option.split)

lemma alloc_loop_Some:
  "alloc_loop n t pid = (Some (p, i), t') \<Longrightarrow>
    \<exists>raw k. p = new_id raw \<and> k < PROBE_LIMIT \<and> i = probe_at p k \<and> is_available (buckets t ! i) \<and>
      (\<forall>j<k. live (buckets t ! probe_at p j)) \<and>
      buckets t' = (buckets t)[i := fresh_entry p pid (buckets t ! i)]"
proof (induction n arbitrary: t)
  case (Suc n)
  let ?new = "new_id (next_id t)"
  show ?case
  proof (cases "find (\<lambda>i. is_available (buckets t ! i)) (probe_seq ?new)")
    case None
    then show ?thesis using Suc.IH [of "t\<lparr>next_id := uadd (next_id t) 1\<rparr>"] Suc.prems
      unfolding alloc_loop_step by simp
  next
    case (Some m)
    then obtain k where "k < PROBE_LIMIT" "m = probe_at ?new k" "is_available (buckets t ! m)"
      "\<forall>j<k. live (buckets t ! probe_at ?new j)"
      unfolding find_Some_iff probe_seq_eq by auto
    moreover have "p = ?new" "i = m" "buckets t' = (buckets t)[m := fresh_entry ?new pid (buckets t ! m)]"
      using Suc.prems Some unfolding alloc_loop_step by auto
    ultimately show ?thesis by blast
  qed
qed simp

lemma fresh_entry_simps:
  "entry_id (fresh_entry p pid e) = p" "view (fresh_entry p pid e) = (pid, [], None)"
  "entry_ok e \<Longrightarrow> entry_ok (fresh_entry p pid e)"
  by (simp_all add: fresh_entry_def view_def items_def ring_items_def ring_count_def entry_ok_def
      ring_ok_def QUEUE_DEPTH_def)

lemma create_port_map:
  assumes "port_inv s" "create_port pid s = (Some p, s')" "port_lookup s p = None"
  shows "port_inv s'" "port_lookup s' = (port_lookup s)(p \<mapsto> (pid, [], None))"
proof -
  obtain i t' where a: "alloc_port (table s) pid = (Some (p, i), t')" "s' = s\<lparr>table := t'\<rparr>"
    using assms(2) by (auto simp: create_port_def split: prod.splits)
  let ?e = "fresh_entry p pid (bucket s i)"
  obtain raw k where k: "p = new_id raw" "k < PROBE_LIMIT" "i = probe_at p k"
    "is_available (bucket s i)" "\<forall>j<k. live (bucket s (probe_at p j))"
    "buckets t' = (buckets (table s))[i := ?e]"
    using alloc_loop_Some [OF a(1) [unfolded alloc_port_def]] by blast
  have i: "i < LIVE_BUCKETS" using k(3) by simp
  have none: "entry_id (bucket s j) \<noteq> p" if "j < LIVE_BUCKETS" "live (bucket s j)" for j
    using assms(3) that find_port_None [OF assms(1) [unfolded port_inv_def], of p]
    by (auto simp: port_lookup_def)
  have e: "live ?e" "\<not> is_free ?e"
    using k(1) new_id_range [of raw]
    by (auto simp: is_available_def is_free_def is_tombstone_def fresh_entry_simps EMPTY_ID_def)
  have b': "buckets (table s') = (buckets (table s))[i := ?e]" using a(2) k(6) by simp
  show inv: "port_inv s'"
    unfolding port_inv_def b'
  proof (rule buckets_inv_update [OF assms(1) [unfolded port_inv_def] i _ e(2)])
    show "entry_ok ?e" using inv_entry [OF assms(1) i] fresh_entry_simps(3) by blast
    show "\<exists>k<PROBE_LIMIT. i = probe_at (entry_id ?e) k \<and>
       (\<forall>j<k. \<not> is_free (bucket s (probe_at (entry_id ?e) j)))"
      using k(2,3,5) by (auto simp: fresh_entry_simps is_available_def)
    show "\<forall>j<LIVE_BUCKETS. j \<noteq> i \<longrightarrow> live (bucket s j) \<longrightarrow> entry_id (bucket s j) \<noteq> entry_id ?e"
      using none by (simp add: fresh_entry_simps)
  qed
  from lookup_replace [OF assms(1) inv b' i, of p] none k(4) e(1)
  show "port_lookup s' = (port_lookup s)(p \<mapsto> (pid, [], None))"
    by (simp add: fresh_entry_simps)
qed

definition port_alloc :: "'h ipc \<Rightarrow> nat \<Rightarrow> (nat \<times> 'h ipc) option" where
  "port_alloc s pid = (case create_port pid s of (None, s') \<Rightarrow> None | (Some p, s') \<Rightarrow> Some (p, s'))"

lemma port_alloc_Some: "port_alloc s pid = Some (p, s') \<longleftrightarrow> create_port pid s = (Some p, s')"
  by (auto simp: port_alloc_def split: prod.splits option.splits)

interpretation ports: handle_table port_inv port_lookup port_alloc "\<lambda>s p. close_port p s"
  "\<lambda>pid. (pid, [], None)"
  unfolding handle_table_def port_alloc_Some
  by (intro conjI allI impI; (rule create_port_map close_port_map; assumption)?)

subsection \<open>The message queue of a port is a bounded queue\<close>

definition entry_enq :: "'h port_entry \<Rightarrow> message \<Rightarrow> 'h port_entry option" where
  "entry_enq e m = (case enqueue e m of (ok, e') \<Rightarrow> if ok then Some e' else None)"

definition entry_deq :: "'h port_entry \<Rightarrow> (message \<times> 'h port_entry) option" where
  "entry_deq e = (case dequeue e of (None, _) \<Rightarrow> None | (Some m, e') \<Rightarrow> Some (m, e'))"

lemma items_length: "entry_ok e \<Longrightarrow> length (items e) = ring_count QUEUE_DEPTH (qhead e) (qtail e)"
  by (simp add: entry_ok_def items_def ring_ok_def ring_length)

interpretation mq: bounded_fifo entry_ok items entry_enq entry_deq "QUEUE_DEPTH - 1"
proof
  fix q q' :: "'h port_entry" and x
  assume ok: "entry_ok q"
  note r = ok [unfolded entry_ok_def] and n = items_length [OF ok]
  show "length (items q) \<le> QUEUE_DEPTH - 1" using ring_count_bound [OF r] n by simp
  show "entry_enq q x = None \<longleftrightarrow> length (items q) = QUEUE_DEPTH - 1"
    using ring_full [OF r] n by (simp add: entry_enq_def enqueue_def Let_def)
  show "entry_ok q' \<and> items q' = items q @ [x]" if "entry_enq q x = Some q'"
    using that ring_push_facts [OF r, of x]
    by (auto simp: entry_enq_def enqueue_def Let_def entry_ok_def items_def split: if_splits)
  show "entry_deq q = None \<longleftrightarrow> items q = []"
    using ring_empty [OF r] n ring_pop_items [OF r] by (auto simp: entry_deq_def dequeue_def)
  show "entry_ok q' \<and> items q = x # items q'" if "entry_deq q = Some (x, q')"
    using that ring_pop_facts [OF r]
    by (auto simp: entry_deq_def dequeue_def entry_ok_def items_def split: if_splits option.splits)
qed

lemma queue_ops_same:
  "entry_enq e m = Some e' \<Longrightarrow> entry_id e' = entry_id e \<and> owner_pid e' = owner_pid e \<and> handler e' = handler e"
  "entry_deq e = Some (m, e') \<Longrightarrow> entry_id e' = entry_id e \<and> owner_pid e' = owner_pid e \<and> handler e' = handler e"
  by (auto simp: entry_enq_def entry_deq_def enqueue_def dequeue_def Let_def split: if_splits option.splits)

lemma lookup_Some:
  assumes "port_inv s" "port_lookup s p = Some (owner, q, h)"
  shows "\<exists>i. find_port (table s) p = Some i \<and> owner_pid (bucket s i) = owner \<and>
    items (bucket s i) = q \<and> handler (bucket s i) = h \<and> entry_ok (bucket s i)"
proof -
  obtain i where i: "find_port (table s) p = Some i" "view (bucket s i) = (owner, q, h)"
    using assms(2) by (auto simp: port_lookup_def)
  then show ?thesis
    using inv_entry [OF assms(1)] find_unique_port(1) [OF assms(1) i(1)] by (auto simp: view_def)
qed

lemma send_queued:
  assumes "port_inv s" "port_lookup s p = Some (owner, q, None)" "length q < QUEUE_DEPTH - 1"
  shows "\<exists>s'. send (run, pid) (p, m) s = Some (None, s') \<and> port_inv s' \<and>
    port_lookup s' = (port_lookup s)(p \<mapsto> (owner, q @ [m], None)) \<and>
    woken s' = (if owner \<noteq> pid then woken s @ [p] else woken s)"
proof -
  obtain i where i: "find_port (table s) p = Some i" "owner_pid (bucket s i) = owner"
    "items (bucket s i) = q" "handler (bucket s i) = None" "entry_ok (bucket s i)"
    using lookup_Some [OF assms(1,2)] by blast
  have "entry_enq (bucket s i) m \<noteq> None" using mq.enq_None [OF i(5)] i(3) assms(3) by simp
  then obtain e where e: "entry_enq (bucket s i) m = Some e" by blast
  note ok = mq.enq_Some [OF i(5) e] and same = queue_ops_same(1) [OF e]
  have en: "enqueue (bucket s i) m = (True, e)"
    using e by (auto simp: entry_enq_def split: prod.splits if_splits)
  let ?s = "(set_bucket s i e)\<lparr>woken := if owner \<noteq> pid then woken s @ [p] else woken s\<rparr>"
  have "send (run, pid) (p, m) s = Some (None, ?s)"
    using i(1,2,4) en by (subst send.simps) (simp add: find_mut_eq)
  moreover have "buckets (table ?s) = (buckets (table s))[i := e]" by simp
  note u = update_entry [OF assms(1) i(1) _ _ this]
  moreover have "view e = (owner, q @ [m], None)" using ok same i by (simp add: view_def)
  ultimately show ?thesis using u ok same by (intro exI [of _ ?s]) simp
qed


lemma recv_as_owner:
  assumes "port_inv s" "port_lookup s p = Some (owner, q, h)"
  shows "\<exists>s'. recv_as p owner s = (hd_opt q, s') \<and> port_inv s' \<and>
    port_lookup s' = (port_lookup s)(p \<mapsto> (owner, tl q, h)) \<and> woken s' = woken s"
proof -
  obtain i where i: "find_port (table s) p = Some i" "owner_pid (bucket s i) = owner"
    "items (bucket s i) = q" "handler (bucket s i) = h" "entry_ok (bucket s i)"
    using lookup_Some [OF assms] by blast
  obtain m e where de: "dequeue (bucket s i) = (m, e)" by fastforce
  have r: "recv_as p owner s = (m, set_bucket s i e)"
    using i(1,2) de by (simp add: recv_as_def find_mut_eq)
  have e: "entry_ok e \<and> entry_id e = entry_id (bucket s i) \<and> view e = (owner, tl q, h) \<and> m = hd_opt q"
  proof (cases "entry_deq (bucket s i)")
    case None
    then have "q = []" using mq.deq_None [OF i(5)] i(3) by simp
    moreover have "qhead (bucket s i) = qtail (bucket s i)"
      using \<open>q = []\<close> i(3) items_length [OF i(5)] ring_empty [OF i(5) [unfolded entry_ok_def]] by simp
    ultimately show ?thesis using de i by (auto simp: dequeue_def view_def)
  next
    case (Some x)
    then obtain y e' where y: "entry_deq (bucket s i) = Some (y, e')" by (cases x) auto
    then have "m = Some y" "e' = e" using de by (auto simp: entry_deq_def split: option.splits)
    then show ?thesis
      using mq.deq_Some [OF i(5) y] queue_ops_same(2) [OF y] i by (simp add: view_def)
  qed
  have b: "buckets (table (set_bucket s i e)) = (buckets (table s))[i := e]" by simp
  show ?thesis
    using r e update_entry [OF assms(1) i(1) _ _ b] by (intro exI [of _ "set_bucket s i e"]) simp
qed

subsection \<open>Closing everything a task owns\<close>

lemma release_scan_buckets:
  "release_scan pid n bs = (bs', closed) \<Longrightarrow>
    length bs' = length bs \<and>
    (\<forall>i<length bs. bs' ! i = bs ! i \<or> owned pid (bs ! i) \<and> bs' ! i = entry_tombstone) \<and>
    set closed \<subseteq> {entry_id b | b. b \<in> set bs \<and> owned pid b} \<and>
    (\<forall>i<length bs. owned pid (bs ! i) \<longrightarrow> entry_id (bs ! i) \<in> set closed \<or> bs' ! i = bs ! i)"
proof (induction pid n bs arbitrary: bs' closed rule: release_scan.induct)
  case (2 pid n b bs)
  obtain cs xs where r: "release_scan pid (n + 1) bs = (cs, xs)" by fastforce
  obtain ds ys where q: "release_scan pid n bs = (ds, ys)" by fastforce
  consider (full) "n = BATCH" | (hit) "n \<noteq> BATCH" "owned pid b" | (miss) "n \<noteq> BATCH" "\<not> owned pid b"
    by blast
  then show ?case
  proof cases
    case full
    then show ?thesis using "2.prems"(1) by auto
  next
    case hit
    then have o: "\<not> is_free b \<and> \<not> is_tombstone b \<and> owner_pid b = pid"
      by (simp add: owned_def is_available_def)
    have "bs' = entry_tombstone # cs" "closed = entry_id b # xs"
      using "2.prems"(1) hit(1) o r by (auto split: if_splits)
    then show ?thesis using "2.IH"(1) [OF hit(1) o r] hit(2) by (auto simp: less_Suc_eq_0_disj)
  next
    case miss
    then have o: "\<not> (\<not> is_free b \<and> \<not> is_tombstone b \<and> owner_pid b = pid)"
      by (simp add: owned_def is_available_def)
    have "bs' = b # ds" "closed = ys" using "2.prems"(1) miss(1) o q by (auto split: if_splits)
    then show ?thesis using "2.IH"(2) [OF miss(1) o q] miss(2) by (auto simp: less_Suc_eq_0_disj)
  qed
qed auto

lemma tombstones_inv:
  assumes "buckets_inv bs" "length cs = length bs"
    "\<forall>i<length bs. cs ! i = bs ! i \<or> cs ! i = entry_tombstone"
  shows "buckets_inv cs"
proof -
  have l: "length bs = LIVE_BUCKETS" using assms(1) by (simp add: buckets_inv_def)
  have c: "cs ! i = bs ! i \<or> cs ! i = entry_tombstone" if "i < LIVE_BUCKETS" for i
    using assms(3) that l by simp
  have lv: "cs ! i = bs ! i \<and> live (bs ! i)" if "i < LIVE_BUCKETS" "live (cs ! i)" for i
    using c [OF that(1)] that(2) by auto
  have ok: "\<forall>e\<in>set cs. entry_ok e"
    using c assms(1,2) l entry_ok_fresh(1) unfolding buckets_inv_def by (metis in_set_conv_nth nth_mem)
  have nf: "\<not> is_free (cs ! i)" if "i < LIVE_BUCKETS" "\<not> is_free (bs ! i)" for i
    using c [OF that(1)] that(2) by auto
  have "reachable cs i" if "i < LIVE_BUCKETS" "live (cs ! i)" for i
  proof -
    have "reachable bs i" using lv [OF that] assms(1) that(1) by (auto simp: buckets_inv_def)
    then show ?thesis using lv [OF that] nf unfolding reachable_def by auto
  qed
  moreover have "i = j" if "i < LIVE_BUCKETS" "j < LIVE_BUCKETS" "live (cs ! i)" "live (cs ! j)"
    "entry_id (cs ! i) = entry_id (cs ! j)" for i j
    using assms(1) lv [OF that(1,3)] lv [OF that(2,4)] that unfolding buckets_inv_def by metis
  ultimately show ?thesis using ok assms(2) l unfolding buckets_inv_def by simp
qed

lemma release_by_owner_step:
  "release_scan pid 0 (buckets (table s)) = (bs, closed) \<Longrightarrow> release_by_owner pid s =
    (let s' = s\<lparr>table := (table s)\<lparr>buckets := bs\<rparr>, woken := woken s @ closed\<rparr>
     in if length closed < BATCH then s' else release_by_owner pid s')"
  by (subst release_by_owner.simps) (simp add: Let_def)

lemma release_by_owner_ok:
  assumes "port_inv s"
  shows "port_inv (release_by_owner pid s) \<and>
    (\<forall>i<LIVE_BUCKETS. bucket (release_by_owner pid s) i =
      (if owned pid (bucket s i) then entry_tombstone else bucket s i)) \<and>
    (\<exists>ps. woken (release_by_owner pid s) = woken s @ ps \<and>
      set ps = {entry_id (bucket s i) | i. i < LIVE_BUCKETS \<and> owned pid (bucket s i)})"
  using assms
proof (induction pid s rule: release_by_owner.induct)
  case (1 pid s)
  obtain bs closed where r: "release_scan pid 0 (buckets (table s)) = (bs, closed)" by fastforce
  let ?s = "s\<lparr>table := (table s)\<lparr>buckets := bs\<rparr>, woken := woken s @ closed\<rparr>"
  note b = release_scan_buckets [OF r] and o = release_scan_owned [OF r]
  have len: "length (buckets (table s)) = LIVE_BUCKETS" using inv_length [OF 1(2)] .
  have tomb: "bucket ?s i = bucket s i \<or> owned pid (bucket s i) \<and> bucket ?s i = entry_tombstone"
    if "i < LIVE_BUCKETS" for i using b that len by simp
  have inv: "port_inv ?s"
    using tombstones_inv [of "buckets (table s)" bs] 1(2) b by (auto simp: port_inv_def)
  have cl: "set closed \<subseteq> {entry_id (bucket s i) | i. i < LIVE_BUCKETS \<and> owned pid (bucket s i)}"
  proof
    fix x assume "x \<in> set closed"
    then obtain e where e: "e \<in> set (buckets (table s))" "owned pid e" "x = entry_id e" using b by blast
    then obtain i where "i < LIVE_BUCKETS" "bucket s i = e" using len by (auto simp: in_set_conv_nth)
    then show "x \<in> {entry_id (bucket s i) | i. i < LIVE_BUCKETS \<and> owned pid (bucket s i)}"
      using e by blast
  qed
  have gone: "entry_id (bucket s i) \<in> set closed \<or> bucket ?s i = bucket s i"
    if "i < LIVE_BUCKETS" "owned pid (bucket s i)" for i using b that len by simp
  show ?case
  proof (cases "length closed < BATCH")
    case True
    then have "filter (owned pid) bs = []" using o by simp
    then have none: "\<not> owned pid (bucket ?s i)" if "i < LIVE_BUCKETS" for i
      using that b len by (simp add: filter_empty_conv)
    have e: "release_by_owner pid s = ?s" using release_by_owner_step [OF r] True by (simp add: Let_def)
    have "set closed = {entry_id (bucket s i) | i. i < LIVE_BUCKETS \<and> owned pid (bucket s i)}"
    proof (rule subset_antisym [OF cl], rule subsetI)
      fix x assume "x \<in> {entry_id (bucket s i) | i. i < LIVE_BUCKETS \<and> owned pid (bucket s i)}"
      then obtain i where i: "i < LIVE_BUCKETS" "owned pid (bucket s i)" "x = entry_id (bucket s i)" by blast
      show "x \<in> set closed" using gone [OF i(1,2)] none [OF i(1)] i(2,3) by metis
    qed
    moreover have "bucket ?s i = (if owned pid (bucket s i) then entry_tombstone else bucket s i)"
      if "i < LIVE_BUCKETS" for i using tomb [OF that] none [OF that] by auto
    ultimately show ?thesis unfolding e using inv by auto
  next
    case False
    have e: "release_by_owner pid s = release_by_owner pid ?s"
      using release_by_owner_step [OF r] False by (simp add: Let_def)
    from 1(1) [OF refl r [symmetric] refl False inv] have IH: "port_inv (release_by_owner pid ?s)"
      "\<forall>i<LIVE_BUCKETS. bucket (release_by_owner pid ?s) i =
        (if owned pid (bucket ?s i) then entry_tombstone else bucket ?s i)"
      "\<exists>ps. woken (release_by_owner pid ?s) = woken ?s @ ps \<and>
        set ps = {entry_id (bucket ?s i) | i. i < LIVE_BUCKETS \<and> owned pid (bucket ?s i)}" by auto
    obtain ps where ps: "woken (release_by_owner pid ?s) = woken s @ closed @ ps"
      "set ps = {entry_id (bucket ?s i) | i. i < LIVE_BUCKETS \<and> owned pid (bucket ?s i)}"
      using IH(3) by auto
    have own: "owned pid (bucket ?s i) \<longleftrightarrow> owned pid (bucket s i) \<and> bucket ?s i = bucket s i"
      if "i < LIVE_BUCKETS" for i using tomb [OF that] by auto
    have "set (closed @ ps) = {entry_id (bucket s i) | i. i < LIVE_BUCKETS \<and> owned pid (bucket s i)}"
    proof (rule subset_antisym)
      show "set (closed @ ps) \<subseteq> {entry_id (bucket s i) | i. i < LIVE_BUCKETS \<and> owned pid (bucket s i)}"
      proof
        fix x assume "x \<in> set (closed @ ps)"
        then consider "x \<in> set closed" | i where "i < LIVE_BUCKETS" "owned pid (bucket ?s i)" "x = entry_id (bucket ?s i)"
          using ps(2) by auto
        then show "x \<in> {entry_id (bucket s i) | i. i < LIVE_BUCKETS \<and> owned pid (bucket s i)}"
          using cl own by cases (blast, metis (mono_tags, lifting) mem_Collect_eq)
      qed
      show "{entry_id (bucket s i) | i. i < LIVE_BUCKETS \<and> owned pid (bucket s i)} \<subseteq> set (closed @ ps)"
      proof
        fix x assume "x \<in> {entry_id (bucket s i) | i. i < LIVE_BUCKETS \<and> owned pid (bucket s i)}"
        then obtain i where i: "i < LIVE_BUCKETS" "owned pid (bucket s i)" "x = entry_id (bucket s i)" by blast
        have "x \<in> set closed \<or> x \<in> set ps"
          using gone [OF i(1,2)] own [OF i(1)] i ps(2) by (metis (mono_tags, lifting) mem_Collect_eq)
        then show "x \<in> set (closed @ ps)" by simp
      qed
    qed
    moreover have "bucket (release_by_owner pid ?s) i =
        (if owned pid (bucket s i) then entry_tombstone else bucket s i)" if "i < LIVE_BUCKETS" for i
      using IH(2) tomb [OF that] own [OF that] that by auto
    ultimately show ?thesis unfolding e using IH(1) ps(1) by blast
  qed
qed

subsection \<open>When creating a port fails\<close>

lemma alloc_loop_None:
  "alloc_loop n t pid = (None, t') \<Longrightarrow> next_id t + n < 2 ^ 64 \<Longrightarrow>
    \<forall>k<n. \<forall>i\<in>set (probe_seq (new_id (next_id t + k))). live (buckets t ! i)"
proof (induction n arbitrary: t)
  case (Suc n)
  let ?t = "t\<lparr>next_id := uadd (next_id t) 1\<rparr>"
  have none: "find (\<lambda>i. is_available (buckets t ! i)) (probe_seq (new_id (next_id t))) = None"
    using Suc.prems(1) unfolding alloc_loop_step by (auto split: option.splits)
  then have r: "alloc_loop n ?t pid = (None, t')" using Suc.prems(1) unfolding alloc_loop_step by simp
  have u: "next_id ?t = next_id t + 1" using Suc.prems(2) by simp
  have "\<forall>k<n. \<forall>i\<in>set (probe_seq (new_id (next_id t + 1 + k))). live (buckets t ! i)"
    using Suc.IH [OF r] Suc.prems(2) u by simp
  moreover have "\<forall>i\<in>set (probe_seq (new_id (next_id t))). live (buckets t ! i)"
    using none by (simp add: find_None_iff)
  ultimately show ?case by (auto simp: less_Suc_eq_0_disj)
qed simp

lemma some_id_hits:
  assumes "i < LIVE_BUCKETS"
  shows "\<exists>k<MAX_PORTS. i \<in> set (probe_seq (new_id (raw + k)))"
proof -
  let ?k = "(i + 511 + 65535 - raw mod 65535) mod 65535"
  have "(raw + ?k) mod 65535 = (raw + (i + 511 + 65535 - raw mod 65535)) mod 65535"
    by (rule mod_add_right_eq)
  also have "\<dots> = (raw mod 65535 + (i + 511 + 65535 - raw mod 65535)) mod 65535"
    by (rule mod_add_left_eq [symmetric])
  also have "raw mod 65535 + (i + 511 + 65535 - raw mod 65535) = (i + 511) + 65535"
    using mod_less_divisor [of 65535 raw] by linarith
  also have "((i + 511) + 65535) mod 65535 = i + 511"
    using assms unfolding mod_add_self2 by (intro mod_less) (simp add: LIVE_BUCKETS_def)
  finally have "new_id (raw + ?k) = i + 512" by (simp add: new_id_def MAX_PORTS_def)
  then have "probe_at (new_id (raw + ?k)) 0 = i" using assms by (simp add: probe_at_def LIVE_BUCKETS_def)
  then have "i \<in> set (probe_seq (new_id (raw + ?k)))"
    unfolding probe_seq_eq set_map by (intro image_eqI [of _ _ 0]) (simp_all add: PROBE_LIMIT_def)
  moreover have "?k < MAX_PORTS" unfolding MAX_PORTS_def by (rule less_trans [of _ 65535]) simp_all
  ultimately show ?thesis by blast
qed

lemma alloc_loop_full:
  "(\<forall>i<LIVE_BUCKETS. live (buckets t ! i)) \<Longrightarrow> \<exists>t'. alloc_loop n t pid = (None, t')"
proof (induction n arbitrary: t)
  case (Suc n)
  have "find (\<lambda>i. is_available (buckets t ! i)) (probe_seq (new_id (next_id t))) = None"
    using Suc.prems by (auto simp: find_None_iff probe_seq_eq)
  then show ?case using Suc.IH [of "t\<lparr>next_id := uadd (next_id t) 1\<rparr>"] Suc.prems
    unfolding alloc_loop_step by simp
qed simp

subsection \<open>Properties\<close>

definition ipc0 :: "'h ipc" where
  "ipc0 = \<lparr>table = port_table_new, woken = []\<rparr>"

definition one_port :: "nat ipc" where
  "one_port = \<lparr>table = \<lparr>buckets = (replicate LIVE_BUCKETS entry_empty)
     [1 := fresh_entry 1 7 entry_empty], next_id = 1\<rparr>, woken = []\<rparr>"

lemma ipc0_inv: "port_inv (ipc0 :: 'h ipc)"
  using port_inv_new [of "[]"] by (simp add: ipc0_def)

lemma alloc_port_hit:
  "find (\<lambda>i. is_available (buckets t ! i)) (probe_seq (new_id (next_id t))) = Some i \<Longrightarrow>
    alloc_port t pid = (Some (new_id (next_id t), i),
      t\<lparr>next_id := uadd (next_id t) 1,
        buckets := (buckets t)[i := fresh_entry (new_id (next_id t)) pid (buckets t ! i)]\<rparr>)"
proof -
  have m: "MAX_PORTS = Suc 65535" by (simp add: MAX_PORTS_def)
  show "find (\<lambda>i. is_available (buckets t ! i)) (probe_seq (new_id (next_id t))) = Some i \<Longrightarrow> ?thesis"
    unfolding alloc_port_def m alloc_loop_step by simp
qed

lemma create_first: "create_port 7 (ipc0 :: nat ipc) = (Some 1, one_port)"
proof -
  have n: "new_id 0 = 1" by (simp add: new_id_def)
  have "find (\<lambda>i. is_available (buckets (port_table_new :: nat port_table) ! i))
      (probe_seq (new_id (next_id (port_table_new :: nat port_table)))) = Some 1"
    by (simp add: n port_table_new_def probe_seq_def PROBE_LIMIT_def LIVE_BUCKETS_def upt_conv_Cons)
  from alloc_port_hit [OF this, of 7] show ?thesis
    by (simp add: create_port_def ipc0_def one_port_def port_table_new_def n LIVE_BUCKETS_def)
qed

lemma lookup_ipc0: "port_lookup ipc0 p = None"
  using find_port_None [of "table ipc0" p] ipc0_inv
  by (simp add: port_lookup_def port_inv_def ipc0_def port_table_new_def)

lemma one_port_ok: "port_inv one_port" "port_lookup one_port 1 = Some (7, [], None)"
  using create_port_map [OF ipc0_inv create_first lookup_ipc0] by simp_all

text \<open>C5: ports are handles.  A port number that is not in use is bound by \<open>create\<close> to a fresh port
  of the caller with an empty queue and no handler, without disturbing any other port, and
  closing it gives back the previous table; the table invariant is kept throughout.\<close>

theorem create_close_port:
  assumes "port_inv s" "create_port pid s = (Some p, s')" "port_lookup s p = None"
  shows "port_inv s' \<and> port_lookup s' = (port_lookup s)(p \<mapsto> (pid, [], None)) \<and>
    port_inv (close_port p s') \<and> port_lookup (close_port p s') = port_lookup s"
  using ports.alloc_map [OF assms(1) _ assms(3), of pid s']
    ports.alloc_release [OF assms(1) _ assms(3), of pid s'] assms(2) by (simp add: port_alloc_Some)

theorem create_close_port_witness:
  "create_port 7 (ipc0 :: nat ipc) = (Some 1, one_port) \<and>
   port_lookup one_port = (port_lookup (ipc0 :: nat ipc))(1 \<mapsto> (7, [], None)) \<and>
   port_lookup (close_port 1 one_port) = port_lookup (ipc0 :: nat ipc)"
  using create_close_port [OF ipc0_inv create_first lookup_ipc0] create_first by blast

text \<open>C4: messages are delivered in order and never lost.  Sending to a port without handler that
  holds fewer than 15 messages appends the message to exactly that port's queue and wakes the
  owner unless it is the sender; the owner's \<open>recv_as\<close> takes the oldest message.\<close>

theorem send_recv_fifo:
  assumes "port_inv s" "port_lookup s p = Some (owner, q, None)" "length q < QUEUE_DEPTH - 1"
  shows "\<exists>s1 s2. send (run, pid) (p, m) s = Some (None, s1) \<and> port_inv s1 \<and>
    port_lookup s1 = (port_lookup s)(p \<mapsto> (owner, q @ [m], None)) \<and>
    woken s1 = (if owner \<noteq> pid then woken s @ [p] else woken s) \<and>
    recv_as p owner s1 = (Some (hd (q @ [m])), s2) \<and> port_inv s2 \<and>
    port_lookup s2 = (port_lookup s)(p \<mapsto> (owner, tl (q @ [m]), None))"
proof -
  from send_queued [OF assms, of run pid m] obtain s1 where s1: "send (run, pid) (p, m) s = Some (None, s1)"
    "port_inv s1" "port_lookup s1 = (port_lookup s)(p \<mapsto> (owner, q @ [m], None))"
    "woken s1 = (if owner \<noteq> pid then woken s @ [p] else woken s)" by blast
  have "port_lookup s1 p = Some (owner, q @ [m], None)" using s1(3) by simp
  from recv_as_owner [OF s1(2) this] obtain s2 where s2: "recv_as p owner s1 = (hd_opt (q @ [m]), s2)"
    "port_inv s2" "port_lookup s2 = (port_lookup s1)(p \<mapsto> (owner, tl (q @ [m]), None))" by blast
  have "hd_opt (q @ [m]) = Some (hd (q @ [m]))" by (cases q) auto
  then show ?thesis using s1 s2 by (intro exI [of _ s1] exI [of _ s2]) simp
qed

theorem send_recv_fifo_witness:
  "\<exists>s1 s2. send ((\<lambda>h m a b s. (m, s)), 9) (1, message_empty) one_port = Some (None, s1) \<and> port_inv s1 \<and>
    port_lookup s1 = (port_lookup one_port)(1 \<mapsto> (7, [] @ [message_empty], None)) \<and>
    woken s1 = (if (7::nat) \<noteq> 9 then woken one_port @ [1] else woken one_port) \<and>
    recv_as 1 7 s1 = (Some (hd ([] @ [message_empty])), s2) \<and> port_inv s2 \<and>
    port_lookup s2 = (port_lookup one_port)(1 \<mapsto> (7, tl ([] @ [message_empty]), None))"
  by (rule send_recv_fifo [OF one_port_ok]) (simp add: QUEUE_DEPTH_def)



text \<open>C14: only the owner receives.  For any other caller \<open>recv_as\<close> returns nothing and leaves the
  state, in particular the queue, untouched.\<close>

theorem recv_as_owner_only:
  assumes "\<not> is_owner p caller s"
  shows "recv_as p caller s = (None, s)"
  using assms by (auto simp: is_owner_def recv_as_def find_mut_eq split: option.splits)

theorem recv_as_owner_only_witness: "recv_as 1 8 one_port = (None, one_port)"
proof (rule recv_as_owner_only)
  obtain i where "find_port (table one_port) 1 = Some i" "owner_pid (bucket one_port i) = 7"
    using lookup_Some [OF one_port_ok] by blast
  then show "\<not> is_owner 1 8 one_port" by (simp add: is_owner_def)
qed

text \<open>C11: when a task exits, all its ports are closed and no one else's, however many batches that
  takes, and a wake-up is issued for exactly the closed ports.\<close>

theorem release_by_owner_exact:
  assumes "port_inv s"
  shows "port_inv (release_by_owner pid s) \<and>
    port_lookup (release_by_owner pid s) =
      (\<lambda>p. case port_lookup s p of None \<Rightarrow> None
           | Some (owner, q, h) \<Rightarrow> if owner = pid then None else Some (owner, q, h)) \<and>
    (\<exists>ps. woken (release_by_owner pid s) = woken s @ ps \<and>
      set ps = {p. \<exists>q h. port_lookup s p = Some (pid, q, h)})"
proof -
  let ?s = "release_by_owner pid s"
  have r: "port_inv ?s" "\<forall>i<LIVE_BUCKETS. bucket ?s i = (if owned pid (bucket s i) then entry_tombstone else bucket s i)"
    "\<exists>ps. woken ?s = woken s @ ps \<and>
      set ps = {entry_id (bucket s i) | i. i < LIVE_BUCKETS \<and> owned pid (bucket s i)}"
    using release_by_owner_ok [OF assms, of pid] by blast+
  have "live (bucket ?s i) \<and> entry_id (bucket ?s i) = p \<and> view (bucket ?s i) = v \<longleftrightarrow>
    live (bucket s i) \<and> entry_id (bucket s i) = p \<and> view (bucket s i) = v \<and> fst v \<noteq> pid"
    if "i < LIVE_BUCKETS" for i p v
    using r(2) that by (cases "owned pid (bucket s i)") (auto simp: owned_def view_def)
  then have "port_lookup ?s p = Some v \<longleftrightarrow> port_lookup s p = Some v \<and> fst v \<noteq> pid" for p v
    unfolding port_lookup_iff [OF r(1)] port_lookup_iff [OF assms] by blast
  then have "port_lookup ?s p = (case port_lookup s p of None \<Rightarrow> None
           | Some (owner, q, h) \<Rightarrow> if owner = pid then None else Some (owner, q, h))" for p
    by (intro option_eqI) (auto split: option.splits)
  moreover have "{entry_id (bucket s i) | i. i < LIVE_BUCKETS \<and> owned pid (bucket s i)} =
    {p. \<exists>q h. port_lookup s p = Some (pid, q, h)}"
    unfolding port_lookup_iff [OF assms] by (auto simp: owned_def view_def)
  ultimately show ?thesis using r(1,3) by auto
qed

theorem release_by_owner_exact_witness:
  "port_inv one_port \<and> port_lookup (release_by_owner 7 one_port) 1 = None"
  using release_by_owner_exact [OF one_port_ok(1), of 7] one_port_ok by simp

text \<open>C12: creating a port fails only when all \<open>LIVE_BUCKETS\<close> buckets hold live ports: the bounded
  probing never makes it fail while a bucket is available.\<close>

theorem create_port_fails_iff_full:
  assumes "port_inv s" "next_id (table s) + MAX_PORTS < 2 ^ 64"
  shows "fst (create_port pid s) = None \<longleftrightarrow> occupancy (table s) = LIVE_BUCKETS"
proof -
  have len: "length (buckets (table s)) = LIVE_BUCKETS" using inv_length [OF assms(1)] .
  have "occupancy (table s) = LIVE_BUCKETS \<longleftrightarrow> (\<forall>b\<in>set (buckets (table s)). live b)"
    unfolding occupancy_def len [symmetric] by (rule length_filter_all)
  then have occ: "occupancy (table s) = LIVE_BUCKETS \<longleftrightarrow> (\<forall>i<LIVE_BUCKETS. live (bucket s i))"
    unfolding all_set_conv_all_nth len .
  have "fst (create_port pid s) = None \<longleftrightarrow> (\<exists>t'. alloc_loop MAX_PORTS (table s) pid = (None, t'))"
    by (auto simp: create_port_def alloc_port_def split: prod.splits)
  moreover have "\<forall>i<LIVE_BUCKETS. live (bucket s i)"
    if "alloc_loop MAX_PORTS (table s) pid = (None, t')" for t'
    using alloc_loop_None [OF that assms(2)] some_id_hits [of _ "next_id (table s)"] by blast
  ultimately show ?thesis using occ alloc_loop_full by blast
qed

theorem create_port_fails_iff_full_witness:
  "fst (create_port 3 one_port) = None \<longleftrightarrow> occupancy (table one_port) = LIVE_BUCKETS"
  by (rule create_port_fails_iff_full [OF one_port_ok(1)]) (simp add: one_port_def MAX_PORTS_def)

subsection \<open>Port numbers are reused while still in use\<close>

text \<open>\<open>alloc\<close> takes the next number of its counter without checking whether a live port has it.
  After 65535 creations the counter comes round: with port 1 still open, the next creation
  returns port number 1 again, to whoever asks.\<close>

definition wrapped :: "nat ipc" where
  "wrapped = one_port\<lparr>table := (table one_port)\<lparr>next_id := 65535\<rparr>\<rparr>"

lemma port_number_reused:
  "port_lookup wrapped 1 = Some (7, [], None)" "fst (create_port 9 wrapped) = Some 1"
proof -
  have "port_inv wrapped" using one_port_ok(1) by (simp add: port_inv_def wrapped_def)
  moreover have "find_port (table wrapped) 1 = find_port (table one_port) 1"
    by (simp add: find_port_def wrapped_def)
  ultimately show "port_lookup wrapped 1 = Some (7, [], None)"
    using one_port_ok(2) by (simp add: port_lookup_def wrapped_def)
  have live1: "live (fresh_entry (Suc 0) 7 entry_empty)"
    by (simp add: is_available_def is_free_def is_tombstone_def fresh_entry_simps EMPTY_ID_def TOMBSTONE_ID_def)
  have n: "new_id 65535 = 1" by (simp add: new_id_def MAX_PORTS_def)
  have "find (\<lambda>i. is_available (buckets (table wrapped) ! i)) (probe_seq (new_id (next_id (table wrapped)))) = Some 2"
    using live1 by (simp add: n wrapped_def one_port_def probe_seq_def PROBE_LIMIT_def LIVE_BUCKETS_def
        upt_conv_Cons nth_list_update)
  from alloc_port_hit [OF this, of 9] show "fst (create_port 9 wrapped) = Some 1"
    by (simp add: create_port_def wrapped_def n)
qed

end
