(* ===== verification/Capability.thy ===== *)
theory Capability
  imports Handle_Table
begin

text \<open>
  The capability table \<open>capability/src/lib.rs\<close>: a fixed array of slots, each free or holding a
  token and the kernel object it stands for.  Tokens are \<open>u32\<close> values kept as naturals;
  \<open>u32::MAX\<close> marks a free slot.  The theory shows that the table implements the handle-table
  interface and that a reused token shadows a live capability once the counter has wrapped.
\<close>

definition MAX_CAPS :: nat where "MAX_CAPS = 1024"
definition FREE_TOKEN :: nat where "FREE_TOKEN = 2 ^ 32 - 1"

datatype cap_kind = Port nat | Vmo nat | FileDesc nat

record cap_slot =
  token :: nat
  kind :: cap_kind

definition cap_slot_free :: cap_slot where
  "cap_slot_free = \<lparr>token = FREE_TOKEN, kind = Port 0\<rparr>"

definition cap_is_free :: "cap_slot \<Rightarrow> bool" where
  "cap_is_free s \<longleftrightarrow> token s = FREE_TOKEN"

record cap_table =
  slots :: "cap_slot list"
  next_tok :: nat

definition cap_table_new :: cap_table where
  "cap_table_new = \<lparr>slots = replicate MAX_CAPS cap_slot_free, next_tok = 0\<rparr>"

definition alloc_cap :: "cap_table \<Rightarrow> cap_kind \<Rightarrow> (nat \<times> cap_table) option" where
  "alloc_cap t k =
    (case position cap_is_free (slots t) of
       None \<Rightarrow> None
     | Some i \<Rightarrow>
         let tok = next_tok t;
             n = (next_tok t + 1) mod 2 ^ 32;
             n = (if n = FREE_TOKEN then 0 else n)
         in Some (tok, \<lparr>slots = (slots t)[i := \<lparr>token = tok, kind = k\<rparr>], next_tok = n\<rparr>))"

definition lookup_cap :: "cap_table \<Rightarrow> nat \<Rightarrow> cap_kind option" where
  "lookup_cap t tok =
    map_option kind (find (\<lambda>s. \<not> cap_is_free s \<and> token s = tok) (slots t))"

definition free_cap :: "cap_table \<Rightarrow> nat \<Rightarrow> cap_table" where
  "free_cap t tok =
    (case position (\<lambda>s. \<not> cap_is_free s \<and> token s = tok) (slots t) of
       None \<Rightarrow> t
     | Some i \<Rightarrow> t\<lparr>slots := (slots t)[i := cap_slot_free]\<rparr>)"

subsection \<open>Invariant\<close>

definition cap_inv :: "cap_table \<Rightarrow> bool" where
  "cap_inv t \<longleftrightarrow> length (slots t) = MAX_CAPS \<and> next_tok t < FREE_TOKEN \<and>
    (\<forall>i<length (slots t). \<forall>j<length (slots t). token (slots t ! i) = token (slots t ! j) \<longrightarrow>
      \<not> cap_is_free (slots t ! i) \<longrightarrow> i = j)"

lemma cap_unique:
  assumes "cap_inv t" "i < length (slots t)" "j < length (slots t)"
    "\<not> cap_is_free (slots t ! i) \<and> token (slots t ! i) = tok"
    "\<not> cap_is_free (slots t ! j) \<and> token (slots t ! j) = tok"
  shows "i = j"
  using assms unfolding cap_inv_def by metis

lemma lookup_cap_iff:
  assumes "cap_inv t"
  shows "lookup_cap t tok = Some k \<longleftrightarrow>
    (\<exists>i<length (slots t). \<not> cap_is_free (slots t ! i) \<and> token (slots t ! i) = tok \<and> kind (slots t ! i) = k)"
  unfolding lookup_cap_def
  using find_unique_iff [of "slots t" "\<lambda>s. \<not> cap_is_free s \<and> token s = tok"] cap_unique [OF assms]
  by (auto simp: map_option_eq_Some)

lemma lookup_cap_None:
  "lookup_cap t tok = None \<longleftrightarrow>
    (\<forall>i<length (slots t). \<not> cap_is_free (slots t ! i) \<longrightarrow> token (slots t ! i) \<noteq> tok)"
  by (auto simp: lookup_cap_def find_None_iff in_set_conv_nth)

lemma cap_table_new_inv: "cap_inv cap_table_new"
  by (simp add: cap_inv_def cap_table_new_def cap_slot_free_def cap_is_free_def FREE_TOKEN_def)

lemma alloc_cap_inv:
  assumes "cap_inv t" "alloc_cap t k = Some (tok, t')" "lookup_cap t tok = None"
  shows "cap_inv t'" "lookup_cap t' = (lookup_cap t)(tok \<mapsto> k)"
proof -
  obtain i where i: "position cap_is_free (slots t) = Some i"
    using assms(2) by (auto simp: alloc_cap_def split: option.splits)
  have tok: "tok = next_tok t" and s': "slots t' = (slots t)[i := \<lparr>token = tok, kind = k\<rparr>]"
    and n': "next_tok t' < FREE_TOKEN"
    using assms(1,2) i by (auto simp: alloc_cap_def Let_def cap_inv_def FREE_TOKEN_def)
  have il: "i < length (slots t)" "cap_is_free (slots t ! i)" using position_SomeD [OF i] by auto
  have tf: "tok \<noteq> FREE_TOKEN" using assms(1) tok by (simp add: cap_inv_def)
  have no: "token (slots t ! j) \<noteq> tok" if "j < length (slots t)" for j
    using assms(3) that tf by (auto simp: lookup_cap_None cap_is_free_def)
  show inv: "cap_inv t'"
    using assms(1) il no n' tf unfolding cap_inv_def s' by (auto simp: nth_list_update cap_is_free_def)
  show "lookup_cap t' = (lookup_cap t)(tok \<mapsto> k)"
  proof (intro ext option_eqI)
    fix x c
    show "lookup_cap t' x = Some c \<longleftrightarrow> ((lookup_cap t)(tok \<mapsto> k)) x = Some c"
    proof (cases "x = tok")
      case True
      then show ?thesis
        using il no tf unfolding lookup_cap_iff [OF inv] s'
        by (auto simp: nth_list_update cap_is_free_def)
    next
      case False
      then show ?thesis
        using il unfolding lookup_cap_iff [OF inv] s'
        by (auto simp: lookup_cap_iff [OF assms(1)] nth_list_update cap_is_free_def)
    qed
  qed
qed

lemma free_cap_inv:
  assumes "cap_inv t"
  shows "cap_inv (free_cap t tok)" "lookup_cap (free_cap t tok) = (lookup_cap t)(tok := None)"
proof -
  have "cap_inv (free_cap t tok) \<and> lookup_cap (free_cap t tok) = (lookup_cap t)(tok := None)"
  proof (cases "position (\<lambda>s. \<not> cap_is_free s \<and> token s = tok) (slots t)")
    case None
    then have "lookup_cap t tok = None" by (auto simp: lookup_cap_None position_None)
    then show ?thesis using None assms by (simp add: free_cap_def fun_upd_idem)
  next
    case (Some i)
    have il: "i < length (slots t)" "\<not> cap_is_free (slots t ! i)" "token (slots t ! i) = tok"
      using position_SomeD [OF Some] by auto
    have s': "slots (free_cap t tok) = (slots t)[i := cap_slot_free]"
      "next_tok (free_cap t tok) = next_tok t" using Some by (auto simp: free_cap_def)
    have inv: "cap_inv (free_cap t tok)"
      using assms il(1) unfolding cap_inv_def s'
      by (auto simp: nth_list_update cap_slot_free_def cap_is_free_def)
    moreover have "lookup_cap (free_cap t tok) = (lookup_cap t)(tok := None)"
    proof (intro ext option_eqI)
      fix x c
      have only: "j = i" if "j < length (slots t)" "\<not> cap_is_free (slots t ! j)" "token (slots t ! j) = tok" for j
        using cap_unique [OF assms that(1) il(1)] that il by blast
      have slot: "(\<not> cap_is_free (slots (free_cap t tok) ! j) \<and> token (slots (free_cap t tok) ! j) = x \<and>
          kind (slots (free_cap t tok) ! j) = c) \<longleftrightarrow>
        x \<noteq> tok \<and> \<not> cap_is_free (slots t ! j) \<and> token (slots t ! j) = x \<and> kind (slots t ! j) = c"
        if j: "j < length (slots t)" for j
      proof (cases "j = i")
        case True
        then show ?thesis using il s'(1) by (auto simp: cap_slot_free_def cap_is_free_def)
      next
        case False
        then show ?thesis using only [OF j] s'(1) by auto
      qed
      then show "lookup_cap (free_cap t tok) x = Some c \<longleftrightarrow> ((lookup_cap t)(tok := None)) x = Some c"
        unfolding lookup_cap_iff [OF inv] using s'(1) lookup_cap_iff [OF assms] by auto
    qed
    ultimately show ?thesis by simp
  qed
  then show "cap_inv (free_cap t tok)" "lookup_cap (free_cap t tok) = (lookup_cap t)(tok := None)" by auto
qed

interpretation caps: handle_table cap_inv lookup_cap alloc_cap free_cap "\<lambda>k. k"
  by unfold_locales (rule conjI, erule (2) alloc_cap_inv(1), erule (2) alloc_cap_inv(2),
    rule conjI, erule free_cap_inv(1), erule free_cap_inv(2))

subsection \<open>Properties\<close>

text \<open>C15: capability tokens resolve to exactly the object they were issued for: a token that is not
  in use is bound by \<open>alloc_cap\<close> to its object and disturbs no other token, and revoking it with
  \<open>free_cap\<close> gives back the previous table contents.\<close>

theorem cap_alloc_revoke:
  assumes "cap_inv t" "alloc_cap t k = Some (tok, t')" "lookup_cap t tok = None"
  shows "lookup_cap t' tok = Some k \<and> (\<forall>x. x \<noteq> tok \<longrightarrow> lookup_cap t' x = lookup_cap t x) \<and>
    cap_inv t' \<and> cap_inv (free_cap t' tok) \<and> lookup_cap (free_cap t' tok) = lookup_cap t"
  using caps.alloc_map [OF assms] caps.alloc_release [OF assms] by simp

lemma cap_new_alloc:
  "alloc_cap cap_table_new k = Some (0, \<lparr>slots = (replicate MAX_CAPS cap_slot_free)[0 := \<lparr>token = 0, kind = k\<rparr>], next_tok = 1\<rparr>)"
  "lookup_cap cap_table_new n = None"
proof -
  have "position cap_is_free (replicate MAX_CAPS cap_slot_free) = Some 0"
    unfolding position_Some_iff by (simp add: MAX_CAPS_def cap_is_free_def cap_slot_free_def)
  then show "alloc_cap cap_table_new k = Some (0, \<lparr>slots = (replicate MAX_CAPS cap_slot_free)[0 := \<lparr>token = 0, kind = k\<rparr>], next_tok = 1\<rparr>)"
    by (simp add: alloc_cap_def cap_table_new_def FREE_TOKEN_def)
  show "lookup_cap cap_table_new n = None"
    by (simp add: lookup_cap_None cap_table_new_def cap_is_free_def cap_slot_free_def)
qed

theorem cap_alloc_revoke_witness:
  "\<exists>t'. alloc_cap cap_table_new (Vmo 7) = Some (0, t') \<and> lookup_cap t' 0 = Some (Vmo 7) \<and>
    lookup_cap (free_cap t' 0) = lookup_cap cap_table_new"
  using cap_alloc_revoke [OF cap_table_new_inv cap_new_alloc] cap_new_alloc(1) [of "Vmo 7"] by blast



subsection \<open>Token reuse after wrap-around\<close>

text \<open>The token counter runs through \<open>0, ..., u32::MAX - 1\<close> and starts again without looking at the
  table, so a capability that is still live when the counter comes round gets a twin.\<close>

lemma token_reused:
  assumes "cap_inv t" "lookup_cap t (next_tok t) = Some old" "alloc_cap t k = Some (tok, t')"
  shows "tok = next_tok t"
    "\<exists>i j. i \<noteq> j \<and> i < length (slots t') \<and> j < length (slots t') \<and>
      slots t' ! i = \<lparr>token = tok, kind = k\<rparr> \<and> token (slots t' ! j) = tok \<and> kind (slots t' ! j) = old"
proof -
  obtain i where i: "position cap_is_free (slots t) = Some i"
    using assms(3) by (auto simp: alloc_cap_def split: option.splits)
  have s': "tok = next_tok t" "slots t' = (slots t)[i := \<lparr>token = tok, kind = k\<rparr>]"
    using assms(3) i by (auto simp: alloc_cap_def Let_def)
  then show "tok = next_tok t" by simp
  obtain j where j: "j < length (slots t)" "\<not> cap_is_free (slots t ! j)" "token (slots t ! j) = tok"
    "kind (slots t ! j) = old"
    using assms(2) s'(1) unfolding lookup_cap_iff [OF assms(1)] by auto
  show "\<exists>i j. i \<noteq> j \<and> i < length (slots t') \<and> j < length (slots t') \<and>
      slots t' ! i = \<lparr>token = tok, kind = k\<rparr> \<and> token (slots t' ! j) = tok \<and> kind (slots t' ! j) = old"
    using position_SomeD [OF i] j unfolding s'(2)
    by (intro exI [of _ i] exI [of _ j]) (auto simp: nth_list_update)
qed

end
