(* ===== verification/Page_Vec.thy ===== *)
theory Page_Vec
  imports Kernel_Prelude "HOL-Library.More_List"
begin

text \<open>
  \<open>mm/src/pagevec.rs\<close>: the per-region table of demand-faulted frames. A \<open>PageVec\<close> keeps
  the interface of a dense vector but stores its slots in chunks of 512 that are only as long
  as the highest slot ever written. The dense vector is the specification (\<open>pv_abs\<close>); every
  operation is shown to commute with it under the representation invariant \<open>pv_ok\<close>.

  An outer \<open>None\<close> is a panic (index out of range).
\<close>

subsection \<open>The table\<close>

definition CHUNK :: nat where "CHUNK = 512"

record page_vec =
  pv_len :: usize
  pv_chunks :: "usize list list"

definition pv_new :: page_vec where
  "pv_new = \<lparr>pv_len = 0, pv_chunks = []\<rparr>"

definition pv_is_empty :: "page_vec \<Rightarrow> bool" where
  "pv_is_empty pv \<longleftrightarrow> pv_len pv = 0"

definition pv_get :: "page_vec \<Rightarrow> usize \<Rightarrow> usize option option" where
  "pv_get pv i =
     (if pv_len pv \<le> i then Some None
      else if i div CHUNK < length (pv_chunks pv)
      then Some (Some (nth_default 0 (pv_chunks pv ! (i div CHUNK)) (i mod CHUNK)))
      else None)"

text \<open>\<open>Vec::resize\<close> and \<open>Vec::resize_with\<close>.\<close>

definition vec_resize :: "'a \<Rightarrow> nat \<Rightarrow> 'a list \<Rightarrow> 'a list" where
  "vec_resize z n xs = take n xs @ replicate (n - length xs) z"

definition pv_resize :: "page_vec \<Rightarrow> usize \<Rightarrow> page_vec" where
  "pv_resize pv n =
     (let cs = (if n < pv_len pv \<and> n mod CHUNK \<noteq> 0 \<and> n div CHUNK < length (pv_chunks pv)
                then (pv_chunks pv)[n div CHUNK := take (n mod CHUNK) (pv_chunks pv ! (n div CHUNK))]
                else pv_chunks pv)
      in \<lparr>pv_len = n, pv_chunks = vec_resize [] (usub (uadd n CHUNK) 1 div CHUNK) cs\<rparr>)"

definition pv_iter :: "page_vec \<Rightarrow> usize list option" where
  "pv_iter pv = those (map (\<lambda>i. map_option (\<lambda>p. case p of None \<Rightarrow> 0 | Some f \<Rightarrow> f) (pv_get pv i))
                         [0..<pv_len pv])"

definition pv_present :: "page_vec \<Rightarrow> (usize \<times> usize) list" where
  "pv_present pv =
     filter (\<lambda>(_, p). p \<noteq> 0)
       (concat (map (\<lambda>(ci, c). map (\<lambda>(j, p). (ci * CHUNK + j, p)) (enumerate 0 c))
                    (enumerate 0 (pv_chunks pv))))"

definition pv_count_present :: "page_vec \<Rightarrow> nat" where
  "pv_count_present pv = length (pv_present pv)"

text \<open>\<open>IndexMut\<close> followed by the assignment: the chunk grows up to the slot first.\<close>

definition pv_put :: "page_vec \<Rightarrow> usize \<Rightarrow> usize \<Rightarrow> page_vec option" where
  "pv_put pv i p =
     (if pv_len pv \<le> i \<or> length (pv_chunks pv) \<le> i div CHUNK then None
      else let c = pv_chunks pv ! (i div CHUNK);
               j = i mod CHUNK;
               c' = (if length c \<le> j then vec_resize 0 (j + 1) c else c)
           in Some (pv\<lparr>pv_chunks := (pv_chunks pv)[i div CHUNK := c'[j := p]]\<rparr>))"

definition pv_index :: "page_vec \<Rightarrow> usize \<Rightarrow> usize option" where
  "pv_index pv i = Option.bind (pv_get pv i) (\<lambda>x. x)"

fun put_chunks :: "page_vec \<Rightarrow> (nat \<times> usize list) list \<Rightarrow> page_vec option" where
  "put_chunks t [] = Some t"
| "put_chunks t ((k, c) # cs) =
     (if k < length (pv_chunks t) then put_chunks (t\<lparr>pv_chunks := (pv_chunks t)[k := c]\<rparr>) cs else None)"

fun put_slots :: "page_vec \<Rightarrow> (usize \<times> usize) list \<Rightarrow> page_vec option" where
  "put_slots t [] = Some t"
| "put_slots t ((i, p) # ps) = Option.bind (pv_put t i p) (\<lambda>t'. put_slots t' ps)"

definition pv_split_off :: "page_vec \<Rightarrow> usize \<Rightarrow> (page_vec \<times> page_vec) option" where
  "pv_split_off pv at =
     (if pv_len pv \<le> at then Some (pv, pv_new)
      else let tail = pv_resize pv_new (pv_len pv - at) in
        if at mod CHUNK = 0 then
          (if length (pv_chunks pv) < at div CHUNK then None
           else map_option
                  (\<lambda>t. (pv_resize (pv\<lparr>pv_chunks := take (at div CHUNK) (pv_chunks pv)\<rparr>) at, t))
                  (put_chunks tail (enumerate 0 (drop (at div CHUNK) (pv_chunks pv)))))
        else
          map_option (\<lambda>t. (pv_resize pv at, t))
            (put_slots tail (map (\<lambda>(i, p). (i - at, p)) (filter (\<lambda>(i, _). at \<le> i) (pv_present pv)))))"

definition pv_from :: "usize list \<Rightarrow> page_vec option" where
  "pv_from v = put_slots (pv_resize pv_new (length v)) (filter (\<lambda>(_, p). p \<noteq> 0) (enumerate 0 v))"

subsection \<open>The dense vector it stands for\<close>

definition slot :: "usize list list \<Rightarrow> nat \<Rightarrow> usize" where
  "slot cs i = nth_default 0 (nth_default [] cs (i div CHUNK)) (i mod CHUNK)"

definition pv_abs :: "page_vec \<Rightarrow> usize list" where
  "pv_abs pv = map (slot (pv_chunks pv)) [0..<pv_len pv]"

definition pv_ok :: "page_vec \<Rightarrow> bool" where
  "pv_ok pv \<longleftrightarrow> pv_len pv + CHUNK < 2 ^ 64
     \<and> length (pv_chunks pv) = (pv_len pv + 511) div CHUNK
     \<and> (\<forall>c \<in> set (pv_chunks pv). length c \<le> CHUNK)
     \<and> (\<forall>i \<ge> pv_len pv. slot (pv_chunks pv) i = 0)"

lemma pv_okD:
  assumes "pv_ok pv"
  shows "pv_len pv + 512 < 2 ^ 64" "length (pv_chunks pv) = (pv_len pv + 511) div 512"
    "\<And>c. c \<in> set (pv_chunks pv) \<Longrightarrow> length c \<le> 512" "\<And>i. pv_len pv \<le> i \<Longrightarrow> slot (pv_chunks pv) i = 0"
  using assms unfolding pv_ok_def CHUNK_def by blast+

lemma length_pv_abs [simp]: "length (pv_abs pv) = pv_len pv"
  by (simp add: pv_abs_def)

lemma nth_pv_abs [simp]: "i < pv_len pv \<Longrightarrow> pv_abs pv ! i = slot (pv_chunks pv) i"
  by (simp add: pv_abs_def)

lemma chunk_of: "n < m \<Longrightarrow> n div 512 < (m + 511) div (512::nat)"
proof -
  assume "n < m"
  then have "(n + 512) div 512 \<le> (m + 511) div 512" by (intro div_le_mono) simp
  then show ?thesis by simp
qed

lemma in_chunks: "pv_ok pv \<Longrightarrow> i < pv_len pv \<Longrightarrow> i div 512 < length (pv_chunks pv)"
  by (simp add: pv_okD chunk_of)

lemma pv_get_abs: "pv_ok pv \<Longrightarrow> pv_get pv i = Some (if i < pv_len pv then Some (pv_abs pv ! i) else None)"
  using in_chunks [of pv i] by (auto simp: pv_get_def slot_def CHUNK_def nth_default_def)

lemma those_map_Some: "(\<And>x. x \<in> set xs \<Longrightarrow> f x = Some (g x)) \<Longrightarrow> those (map f xs) = Some (map g xs)"
  by (induction xs) auto

lemma pv_iter_abs: "pv_ok pv \<Longrightarrow> pv_iter pv = Some (pv_abs pv)"
  unfolding pv_iter_def by (subst those_map_Some [where g = "slot (pv_chunks pv)"]) (simp_all add: pv_get_abs pv_abs_def)

lemma pv_new_ok [simp]: "pv_ok pv_new" and pv_abs_new [simp]: "pv_abs pv_new = []"
  by (simp_all add: pv_ok_def pv_new_def slot_def CHUNK_def pv_abs_def)

subsection \<open>Resizing and writing\<close>

lemma nth_default_take: "nth_default z (take n xs) i = (if i < n then nth_default z xs i else z)"
  by (simp add: nth_default_def)

lemma nth_default_list_update: "i < length xs \<Longrightarrow>
   nth_default z (xs[i := v]) j = (if j = i then v else nth_default z xs j)"
  by (simp add: nth_default_def)

lemma nth_default_vec_resize: "nth_default z (vec_resize z n xs) i = (if i < n then nth_default z xs i else z)"
  by (auto simp: vec_resize_def nth_default_def nth_append)

lemma length_vec_resize [simp]: "length (vec_resize z n xs) = n"
  by (simp add: vec_resize_def)

lemma set_vec_resize: "set (vec_resize z n xs) \<subseteq> set xs \<union> {z}"
  using set_take_subset by (fastforce simp: vec_resize_def)

lemma slot_vec_resize: "slot (vec_resize [] n cs) i = (if i div 512 < n then slot cs i else 0)"
  by (simp add: slot_def CHUNK_def nth_default_vec_resize)

lemma slot_truncate:
  assumes "n div 512 < length cs"
  shows "slot (cs[n div 512 := take (n mod 512) (cs ! (n div 512))]) i =
         (if i div 512 = n div 512 \<and> n mod 512 \<le> i mod 512 then 0 else slot cs i)"
  using assms by (auto simp: slot_def CHUNK_def nth_default_list_update nth_default_take) (auto simp: nth_default_def)

lemma div_mod_less: "(i::nat) < n \<longleftrightarrow> i div 512 < n div 512 \<or> i div 512 = n div 512 \<and> i mod 512 < n mod 512"
proof -
  have "512 * a + b < 512 * c + d \<longleftrightarrow> a < c \<or> a = c \<and> b < d" if "b < 512" "d < 512" for a b c d :: nat
    using that by linarith
  from this [of "i mod 512" "n mod 512" "i div 512" "n div 512"] show ?thesis by simp
qed

lemma lex_if:
  "(if (a::nat) \<le> c then if a = c \<and> (d::nat) \<le> b then z else s else z) = (if a < c \<or> a = c \<and> b < d then s else z)"
  by auto

lemma ceil_div: "((n::nat) + 511) div 512 = (if n mod 512 = 0 then n div 512 else n div 512 + 1)"
proof -
  have "(512 * q + r + 511) div 512 = (if r = 0 then q else q + 1)" if "r < 512" for q r :: nat
  proof (cases "r = 0")
    case False
    then have "512 * q + r + 511 = 512 * (q + 1) + (r - 1)" "r - 1 < 512" using that by simp_all
    then show ?thesis using False by (simp only: div_mult_self4) simp
  qed simp
  from this [of "n mod 512" "n div 512"] show ?thesis by simp
qed

lemma chunks_needed: "usub (uadd n CHUNK) 1 div CHUNK = (n + 511) div 512" if "n + CHUNK \<le> 2 ^ 64 - 1"
  using that by (simp add: CHUNK_def)

lemma slot_resize:
  assumes ok: "pv_ok pv" and n: "n + 512 < 2 ^ 64"
  shows "slot (pv_chunks (pv_resize pv n)) i = (if i < n then slot (pv_chunks pv) i else 0)"
proof -
  have k: "usub (uadd n CHUNK) 1 div CHUNK = (n + 511) div 512"
    using n by (intro chunks_needed) (simp add: CHUNK_def)
  have len: "length (pv_chunks pv) = (pv_len pv + 511) div 512" by (rule pv_okD(2) [OF ok])
  have z: "pv_len pv \<le> i \<Longrightarrow> slot (pv_chunks pv) i = 0" by (rule pv_okD(4) [OF ok])
  show ?thesis
  proof (cases "n < pv_len pv \<and> n mod 512 \<noteq> 0")
    case True
    then have lt: "n div 512 < length (pv_chunks pv)" by (simp add: len chunk_of)
    have in_n: "i div 512 < (n + 511) div 512 \<longleftrightarrow> i div 512 \<le> n div 512" using True by (auto simp: ceil_div)
    have "slot (pv_chunks (pv_resize pv n)) i =
            (if i div 512 \<le> n div 512
             then if i div 512 = n div 512 \<and> n mod 512 \<le> i mod 512 then 0 else slot (pv_chunks pv) i else 0)"
      using True lt by (simp only: pv_resize_def k [unfolded CHUNK_def] CHUNK_def Let_def slot_vec_resize
          slot_truncate in_n page_vec.simps if_True simp_thms)
    also have "\<dots> = (if i < n then slot (pv_chunks pv) i else 0)"
      unfolding div_mod_less [of i n] by (rule lex_if)
    finally show ?thesis .
  next
    case False
    then have "i < n \<or> pv_len pv \<le> i \<or> \<not> i div 512 < (n + 511) div 512"
      by (auto simp: ceil_div not_less intro: div_le_mono)
    moreover have "i < n \<Longrightarrow> i div 512 < (n + 511) div 512" by (rule chunk_of)
    moreover have "slot (pv_chunks (pv_resize pv n)) i =
        (if i div 512 < (n + 511) div 512 then slot (pv_chunks pv) i else 0)"
      using False unfolding pv_resize_def k Let_def page_vec.simps
      unfolding CHUNK_def slot_vec_resize by auto
    ultimately show ?thesis using z False by (auto simp: not_less)
  qed
qed

lemma pv_resize_ok:
  assumes ok: "pv_ok pv" and n: "n + 512 < 2 ^ 64"
  shows "pv_ok (pv_resize pv n)"
proof -
  have k: "usub (uadd n CHUNK) 1 div CHUNK = (n + 511) div 512"
    using n by (intro chunks_needed) (simp add: CHUNK_def)
  have c: "\<And>c. c \<in> set (pv_chunks pv) \<Longrightarrow> length c \<le> 512" by (rule pv_okD(3) [OF ok])
  have upd: "length c \<le> 512"
    if "c \<in> set ((pv_chunks pv)[k := take m (pv_chunks pv ! k)])" "k < length (pv_chunks pv)" for c k m
    using set_update_subset_insert [THEN subsetD, OF that(1)] that(2) c nth_mem le_trans [OF min.cobounded1]
    by (auto simp: min_def)
  have "length c \<le> 512" if "c \<in> set (pv_chunks (pv_resize pv n))" for c
  proof -
    let ?cs = "if n < pv_len pv \<and> n mod CHUNK \<noteq> 0 \<and> n div CHUNK < length (pv_chunks pv)
               then (pv_chunks pv)[n div CHUNK := take (n mod CHUNK) (pv_chunks pv ! (n div CHUNK))]
               else pv_chunks pv"
    have "c \<in> set ?cs \<union> {[]}"
      using that set_vec_resize [THEN subsetD, of c "[]" _ ?cs] unfolding pv_resize_def Let_def by simp
    then show ?thesis using upd c by (auto split: if_splits)
  qed
  then show ?thesis
    using n slot_resize [OF ok n] by (auto simp: pv_ok_def CHUNK_def pv_resize_def k Let_def)
qed

lemma pv_resize_len [simp]: "pv_len (pv_resize pv n) = n"
  by (simp add: pv_resize_def Let_def)

lemma pv_resize_abs:
  assumes ok: "pv_ok pv" and n: "n + 512 < 2 ^ 64"
  shows "pv_abs (pv_resize pv n) = vec_resize 0 n (pv_abs pv)"
  using slot_resize [OF ok n] pv_okD(4) [OF ok]
  by (intro nth_equalityI) (auto simp: vec_resize_def nth_append)

lemma slot_put:
  assumes "pv_put pv i p = Some pv'"
  shows "slot (pv_chunks pv') j = (if j = i then p else slot (pv_chunks pv) j)"
proof -
  define c where "c = pv_chunks pv ! (i div 512)"
  define c' where "c' = (if length c \<le> i mod 512 then vec_resize 0 (i mod 512 + 1) c else c)"
  have lt: "i div 512 < length (pv_chunks pv)" and pv': "pv' = pv\<lparr>pv_chunks := (pv_chunks pv)[i div 512 := c'[i mod 512 := p]]\<rparr>"
    using assms by (auto simp: pv_put_def CHUNK_def Let_def c_def c'_def split: if_splits)
  have len: "i mod 512 < length c'" by (simp add: c'_def)
  have nd: "nth_default 0 (c'[i mod 512 := p]) k = (if k = i mod 512 then p else nth_default 0 c k)" for k
    unfolding nth_default_list_update [OF len] unfolding c'_def by (simp add: nth_default_vec_resize nth_default_beyond)
  have eq: "j = i \<longleftrightarrow> j div 512 = i div 512 \<and> j mod 512 = i mod 512" by (metis div_mult_mod_eq)
  have c: "nth_default [] (pv_chunks pv) (i div 512) = c" using lt by (simp add: nth_default_def c_def)
  show ?thesis
    unfolding slot_def CHUNK_def pv' eq using c nd by (simp add: nth_default_list_update [OF lt])
qed

lemma pv_put_ok:
  assumes ok: "pv_ok pv" and i: "i < pv_len pv"
  obtains pv' where "pv_put pv i p = Some pv'" "pv_ok pv'" "pv_len pv' = pv_len pv"
proof -
  have lt: "i div 512 < length (pv_chunks pv)" by (rule in_chunks [OF ok i])
  then obtain pv' where pv': "pv_put pv i p = Some pv'" using i by (simp add: pv_put_def CHUNK_def Let_def)
  have m: "i mod 512 < 512" by simp
  have "length (pv_chunks pv ! (i div 512)) \<le> 512" using lt by (intro pv_okD(3) [OF ok] nth_mem)
  then have "length c \<le> 512" if "c \<in> set (pv_chunks pv')" for c
    using that pv' lt i m pv_okD(3) [OF ok, of c]
    by (auto simp: pv_put_def CHUNK_def Let_def split: if_splits dest!: set_update_subset_insert [THEN subsetD])
  moreover have "length (pv_chunks pv') = length (pv_chunks pv)" "pv_len pv' = pv_len pv"
    using pv' by (auto simp: pv_put_def Let_def split: if_splits)
  ultimately have "pv_ok pv'"
    using ok i slot_put [OF pv'] by (auto simp: pv_ok_def CHUNK_def)
  then show ?thesis using that pv' \<open>pv_len pv' = pv_len pv\<close> by blast
qed

lemma pv_put_abs:
  assumes ok: "pv_ok pv" and i: "i < pv_len pv"
  shows "\<exists>pv'. pv_put pv i p = Some pv' \<and> pv_ok pv' \<and> pv_abs pv' = (pv_abs pv)[i := p]"
proof -
  obtain pv' where "pv_put pv i p = Some pv'" "pv_ok pv'" "pv_len pv' = pv_len pv" by (rule pv_put_ok [OF ok i])
  then show ?thesis
    using slot_put [of pv i p pv'] by (auto intro!: nth_equalityI simp: nth_list_update)
qed

lemma put_slots_slot:
  assumes "pv_ok t" "\<forall>(i, p) \<in> set ps. i < pv_len t" "distinct (map fst ps)"
  shows "\<exists>t'. put_slots t ps = Some t' \<and> pv_ok t' \<and> pv_len t' = pv_len t
     \<and> (\<forall>j. slot (pv_chunks t') j = (case map_of ps j of None \<Rightarrow> slot (pv_chunks t) j | Some p \<Rightarrow> p))"
  using assms
proof (induction ps arbitrary: t)
  case (Cons ip ps)
  obtain i p where ip: "ip = (i, p)" by force
  obtain t1 where t1: "pv_put t i p = Some t1" "pv_ok t1" "pv_len t1 = pv_len t"
    using Cons.prems ip by (auto intro: pv_put_ok [of t i p])
  obtain t2 where t2: "put_slots t1 ps = Some t2" "pv_ok t2" "pv_len t2 = pv_len t1"
      "\<And>j. slot (pv_chunks t2) j = (case map_of ps j of None \<Rightarrow> slot (pv_chunks t1) j | Some p \<Rightarrow> p)"
    using Cons.IH [OF t1(2)] Cons.prems t1(3) ip by auto
  have "i \<notin> fst ` set ps" using Cons.prems ip by simp
  then have "map_of ps i = None" by (simp add: map_of_eq_None_iff)
  then show ?case
    using t1 t2 slot_put [OF t1(1)] by (auto simp: ip split: option.split)
qed simp

subsection \<open>The occupied slots\<close>

definition dense :: "usize list list \<Rightarrow> usize list" where
  "dense cs = concat (map (\<lambda>c. c @ replicate (CHUNK - length c) 0) cs)"

lemma slot_dense:
  "\<forall>c \<in> set cs. length c \<le> CHUNK \<Longrightarrow> slot cs i = nth_default 0 (dense cs) i"
proof (induction cs arbitrary: i)
  case (Cons c cs)
  define d where "d = c @ replicate (512 - length c) 0"
  have len: "length d = 512" using Cons.prems by (simp add: CHUNK_def d_def)
  have dd: "dense (c # cs) = d @ dense cs" by (simp add: dense_def d_def CHUNK_def)
  show ?case
  proof (cases "i < 512")
    case True
    then show ?thesis using len unfolding dd
      by (auto simp: slot_def CHUNK_def nth_default_def nth_append) (auto simp: d_def nth_append)
  next
    case False
    then obtain k where k: "i = k + 512" by (metis add.commute le_Suc_ex not_less)
    have "(k + 512) div 512 = Suc (k div 512)" by simp
    then have "slot (c # cs) i = slot cs k" by (simp only: slot_def CHUNK_def k nth_default_Cons_Suc mod_add_self2)
    also have "\<dots> = nth_default 0 (dense cs) k" using Cons by simp
    also have "\<dots> = nth_default 0 (dense (c # cs)) i"
      using len unfolding dd by (simp add: k nth_default_def nth_append)
    finally show ?thesis .
  qed
qed (simp add: slot_def dense_def)

lemma filter_enumerate_zeros: "filter (\<lambda>(_, p). p \<noteq> (0::nat)) (enumerate k (replicate n 0)) = []"
  by (auto simp: filter_empty_conv in_set_enumerate_eq)

lemma present_from:
  assumes "\<forall>c \<in> set cs. length c \<le> CHUNK"
  shows "filter (\<lambda>(_, p). p \<noteq> 0)
           (concat (map (\<lambda>(ci, c). map (\<lambda>(j, p). (ci * CHUNK + j, p)) (enumerate 0 c)) (enumerate k cs)))
         = filter (\<lambda>(_, p). p \<noteq> (0::nat)) (enumerate (k * CHUNK) (dense cs))"
  using assms
proof (induction cs arbitrary: k)
  case (Cons c cs)
  have shift: "map (\<lambda>(j, p). (b + j, p)) (enumerate 0 c) = enumerate b c" for b
    by (rule nth_equalityI) (simp_all add: nth_enumerate_eq)
  have len: "k * CHUNK + length c + (CHUNK - length c) = CHUNK + k * CHUNK" using Cons.prems by simp
  show ?case
    using Cons len by (simp add: dense_def enumerate_append_eq filter_enumerate_zeros [simplified] shift add.assoc [symmetric])
      (simp add: add.commute)
qed (simp add: dense_def)

lemma pv_present_abs:
  assumes ok: "pv_ok pv"
  shows "pv_present pv = filter (\<lambda>(_, p). p \<noteq> 0) (enumerate 0 (pv_abs pv))"
proof -
  let ?d = "dense (pv_chunks pv)" and ?n = "pv_len pv"
  have c: "\<forall>c \<in> set (pv_chunks pv). length c \<le> CHUNK" using ok by (simp add: pv_ok_def)
  have z: "?d ! i = 0" if "?n \<le> i" "i < length ?d" for i
    using pv_okD(4) [OF ok that(1)] slot_dense [OF c, of i] that(2) by (simp add: nth_default_def)
  have "length (dense cs) = length cs * 512" if "\<forall>c \<in> set cs. length c \<le> CHUNK" for cs
    using that by (induction cs) (simp_all add: dense_def CHUNK_def)
  then have "length ?d = length (pv_chunks pv) * 512" using c by blast
  moreover have "?n = ?n div 512 * 512 + ?n mod 512" "?n mod 512 < 512" by simp_all
  ultimately have n: "?n \<le> length ?d" unfolding pv_okD(2) [OF ok] ceil_div by (simp split: if_splits; linarith)
  have "?d = pv_abs pv @ replicate (length ?d - ?n) 0"
    using n z slot_dense [OF c] by (intro nth_equalityI) (auto simp: nth_append nth_default_def not_less)
  moreover have "pv_present pv = filter (\<lambda>(_, p). p \<noteq> 0) (enumerate 0 ?d)"
    using present_from [OF c, of 0] by (simp add: pv_present_def)
  ultimately show ?thesis by (metis append_Nil2 enumerate_append_eq filter_append filter_enumerate_zeros)
qed

lemma present_set:
  assumes "pv_ok pv"
  shows "(i, p) \<in> set (pv_present pv) \<longleftrightarrow> p \<noteq> 0 \<and> slot (pv_chunks pv) i = p"
  using pv_okD(4) [OF assms, of i]
  by (cases "i < pv_len pv") (auto simp: pv_present_abs [OF assms] in_set_enumerate_eq)

lemma present_distinct: "pv_ok pv \<Longrightarrow> distinct (map fst (pv_present pv))"
  by (simp add: pv_present_abs distinct_map_filter)

subsection \<open>Splitting and conversion\<close>

lemma put_chunks_enumerate:
  "k + length ds \<le> length (pv_chunks t) \<Longrightarrow>
   put_chunks t (enumerate k ds) =
     Some (t\<lparr>pv_chunks := take k (pv_chunks t) @ ds @ drop (k + length ds) (pv_chunks t)\<rparr>)"
proof (induction ds arbitrary: k t)
  case (Cons d ds)
  have "take (Suc k) ((pv_chunks t)[k := d]) = take k (pv_chunks t) @ [d]"
    using Cons.prems by (simp add: take_Suc_conv_app_nth)
  then show ?case using Cons.prems by (simp add: Cons.IH)
qed simp

lemma slot_drop: "slot (drop k cs) i = slot cs (k * 512 + i)"
  by (simp add: slot_def CHUNK_def nth_default_def less_diff_conv add.commute)

lemma slot_take: "slot (take k cs) i = (if i div 512 < k then slot cs i else 0)"
  by (simp add: slot_def CHUNK_def nth_default_take)

lemma split_off_aligned:
  assumes ok: "pv_ok pv" and at: "at < pv_len pv" "at mod 512 = 0"
  shows "\<exists>h t. pv_split_off pv at = Some (h, t) \<and> pv_ok h \<and> pv_ok t
            \<and> pv_abs h = take at (pv_abs pv) \<and> pv_abs t = drop at (pv_abs pv)"
proof -
  let ?cs = "pv_chunks pv"
  define k where "k = at div 512"
  have at_k: "at = k * 512" using at(2) by (auto simp: k_def)
  define h where "h = \<lparr>pv_len = at, pv_chunks = take k ?cs\<rparr>"
  define t where "t = \<lparr>pv_len = pv_len pv - at, pv_chunks = drop k ?cs\<rparr>"
  have le: "pv_len pv + 512 < 2 ^ 64" by (rule pv_okD(1) [OF ok])
  have lcs: "length ?cs = (pv_len pv + 511) div 512" by (rule pv_okD(2) [OF ok])
  have k: "k < length ?cs" using chunk_of [OF at(1)] lcs by (simp add: k_def)
  have "pv_len pv + 511 = k * 512 + (pv_len pv - at + 511)" using at at_k by simp
  then have lt: "length ?cs = k + (pv_len pv - at + 511) div 512" by (simp only: lcs div_mult_self3)
  have c: "\<And>c. c \<in> set ?cs \<Longrightarrow> length c \<le> 512" and z: "\<And>i. pv_len pv \<le> i \<Longrightarrow> slot ?cs i = 0"
    using pv_okD(3,4) [OF ok] by blast+
  have in_k: "i div 512 < k \<longleftrightarrow> i < at" for i using div_mod_less [of i at] at(2) by (simp add: k_def)
  have "pv_ok h" "pv_abs h = take at (pv_abs pv)"
    using k at le c in_k by (auto simp: pv_ok_def h_def CHUNK_def slot_take ceil_div k_def pv_abs_def
        dest: in_set_takeD intro!: nth_equalityI)
  moreover have "pv_ok t" "pv_abs t = drop at (pv_abs pv)"
    using at le c z lt by (auto simp: pv_ok_def t_def CHUNK_def slot_drop pv_abs_def at_k [symmetric]
        dest: in_set_dropD intro!: nth_equalityI)
  moreover have "pv_split_off pv at = Some (h, t)"
  proof -
    have r1: "pv_resize (pv\<lparr>pv_chunks := take k ?cs\<rparr>) at = h"
      using chunks_needed [of at] at le k by (simp add: pv_resize_def h_def CHUNK_def ceil_div vec_resize_def k_def)
    have r2: "pv_resize pv_new (pv_len pv - at) = \<lparr>pv_len = pv_len pv - at, pv_chunks = replicate (length ?cs - k) []\<rparr>"
      using chunks_needed [of "pv_len pv - at"] le lt by (simp add: pv_resize_def pv_new_def CHUNK_def vec_resize_def)
    show ?thesis
      using at k r1 by (simp add: pv_split_off_def r2 CHUNK_def k_def [symmetric] put_chunks_enumerate t_def)
  qed
  ultimately show ?thesis by blast
qed

lemma split_off_unaligned:
  assumes ok: "pv_ok pv" and at: "at < pv_len pv" "at mod 512 \<noteq> 0"
  shows "\<exists>h t. pv_split_off pv at = Some (h, t) \<and> pv_ok h \<and> pv_ok t
            \<and> pv_abs h = take at (pv_abs pv) \<and> pv_abs t = drop at (pv_abs pv)"
proof -
  let ?cs = "pv_chunks pv"
  define t0 where "t0 = pv_resize pv_new (pv_len pv - at)"
  define ps where "ps = map (\<lambda>(i, p). (i - at, p)) (filter (\<lambda>(i, _). at \<le> i) (pv_present pv))"
  have le: "pv_len pv + 512 < 2 ^ 64" by (rule pv_okD(1) [OF ok])
  then have n: "at + 512 < 2 ^ 64" "pv_len pv - at + 512 < 2 ^ 64" using at(1) by linarith+
  have z: "\<And>i. pv_len pv \<le> i \<Longrightarrow> slot ?cs i = 0" by (rule pv_okD(4) [OF ok])
  have t0: "pv_ok t0" "pv_len t0 = pv_len pv - at" "\<And>i. slot (pv_chunks t0) i = 0"
    using slot_resize [OF pv_new_ok n(2)] pv_resize_ok [OF pv_new_ok n(2)]
    by (simp_all add: t0_def) (simp add: pv_new_def slot_def)
  have ps: "(j, p) \<in> set ps \<longleftrightarrow> p \<noteq> 0 \<and> slot ?cs (at + j) = p" for j p
    using present_set [OF ok, of "at + j" p] by (force simp: ps_def present_set [OF ok])
  have "distinct (map fst (filter (\<lambda>(i, _). at \<le> i) (pv_present pv)))"
    by (simp add: distinct_map_filter present_distinct [OF ok])
  moreover have "inj_on (\<lambda>i. i - at) (set (map fst (filter (\<lambda>(i, _). at \<le> i) (pv_present pv))))"
    by (intro inj_onI) (auto simp: eq_diff_iff)
  moreover have "map fst ps = map (\<lambda>i. i - at) (map fst (filter (\<lambda>(i, _). at \<le> i) (pv_present pv)))"
    by (simp add: ps_def case_prod_unfold)
  ultimately have d: "distinct (map fst ps)" by (simp only: distinct_map)
  have "i < pv_len t0" if "(i, p) \<in> set ps" for i p
  proof (rule ccontr)
    assume "\<not> i < pv_len t0"
    then have "slot ?cs (at + i) = 0" using t0(2) by (intro z) linarith
    then show False using that ps [of i p] by auto
  qed
  then have "\<forall>(i, p) \<in> set ps. i < pv_len t0" by blast
  then obtain t where t: "put_slots t0 ps = Some t" "pv_ok t" "pv_len t = pv_len t0"
      "\<And>j. slot (pv_chunks t) j = (case map_of ps j of None \<Rightarrow> slot (pv_chunks t0) j | Some p \<Rightarrow> p)"
    using put_slots_slot [OF t0(1) _ d] by blast
  have "slot (pv_chunks t) j = slot ?cs (at + j)" for j
  proof (cases "slot ?cs (at + j) = 0")
    case True
    then have "map_of ps j = None" using ps by (auto simp: map_of_eq_None_iff)
    then show ?thesis using t(4) t0(3) True by simp
  next
    case False
    then have "map_of ps j = Some (slot ?cs (at + j))" using ps d by (simp add: map_of_is_SomeI)
    then show ?thesis using t(4) by simp
  qed
  then have "pv_abs t = drop at (pv_abs pv)" using t(3) t0(2) at(1) by (auto intro!: nth_equalityI)
  moreover have "pv_split_off pv at = Some (pv_resize pv at, t)"
    using at t(1) by (simp add: pv_split_off_def CHUNK_def t0_def ps_def)
  moreover have "pv_abs (pv_resize pv at) = take at (pv_abs pv)"
    using at(1) pv_resize_abs [OF ok n(1)] by (simp add: vec_resize_def)
  ultimately show ?thesis using t(2) pv_resize_ok [OF ok n(1)] by blast
qed

lemma pv_from_abs:
  assumes "length v + 512 < 2 ^ 64"
  shows "\<exists>pv. pv_from v = Some pv \<and> pv_ok pv \<and> pv_abs pv = v"
proof -
  define t0 where "t0 = pv_resize pv_new (length v)"
  define ps where "ps = filter (\<lambda>(_, p). p \<noteq> 0) (enumerate 0 v)"
  have t0: "pv_ok t0" "pv_len t0 = length v" "\<And>i. slot (pv_chunks t0) i = 0"
    using slot_resize [OF pv_new_ok assms] pv_resize_ok [OF pv_new_ok assms]
    by (simp_all add: t0_def) (simp add: pv_new_def slot_def)
  have d: "distinct (map fst ps)" by (simp add: ps_def distinct_map_filter)
  have ps: "(j, p) \<in> set ps \<longleftrightarrow> j < length v \<and> v ! j = p \<and> p \<noteq> 0" for j p
    by (auto simp: ps_def in_set_enumerate_eq)
  then obtain t where t: "put_slots t0 ps = Some t" "pv_ok t" "pv_len t = pv_len t0"
      "\<And>j. slot (pv_chunks t) j = (case map_of ps j of None \<Rightarrow> slot (pv_chunks t0) j | Some p \<Rightarrow> p)"
    using put_slots_slot [OF t0(1) _ d] t0(2) by fastforce
  have "slot (pv_chunks t) j = v ! j" if "j < length v" for j
  proof (cases "v ! j = 0")
    case True
    then have "map_of ps j = None" using ps by (auto simp: map_of_eq_None_iff)
    then show ?thesis using t(4) t0(3) True by simp
  next
    case False
    then have "map_of ps j = Some (v ! j)" using ps d that by (simp add: map_of_is_SomeI)
    then show ?thesis using t(4) by simp
  qed
  then have "pv_abs t = v" using t(3) t0(2) by (auto intro!: nth_equalityI)
  then show ?thesis using t(1,2) by (simp add: pv_from_def t0_def ps_def)
qed

subsection \<open>Slots of a whole table\<close>

lemma slot_abs: "pv_ok pv \<Longrightarrow> slot (pv_chunks pv) i = nth_default 0 (pv_abs pv) i"
  using pv_okD(4) [of pv i] by (simp add: nth_default_def not_less)

lemma slot_pv_new [simp]: "slot (pv_chunks pv_new) i = 0"
  by (simp add: pv_new_def slot_def)

lemma nth_default_drop: "nth_default z (drop n xs) i = nth_default z xs (n + i)"
  by (simp add: nth_default_def less_diff_conv add.commute)

lemma pv_cut:
  assumes ok: "pv_ok pv"
  shows "\<exists>h t. (if at < pv_len pv then pv_split_off pv at else Some (pv, pv_new)) = Some (h, t)
     \<and> pv_ok h \<and> pv_ok t
     \<and> (\<forall>i. slot (pv_chunks h) i = (if i < at then slot (pv_chunks pv) i else 0))
     \<and> (\<forall>i. slot (pv_chunks t) i = slot (pv_chunks pv) (at + i))"
proof (cases "at < pv_len pv")
  case True
  then obtain h t where ht: "pv_split_off pv at = Some (h, t)" "pv_ok h" "pv_ok t"
      "pv_abs h = take at (pv_abs pv)" "pv_abs t = drop at (pv_abs pv)"
    using split_off_aligned [OF ok True] split_off_unaligned [OF ok True] by blast
  have "slot (pv_chunks h) i = (if i < at then slot (pv_chunks pv) i else 0)" for i
    unfolding slot_abs [OF ok] slot_abs [OF ht(2)] ht(4) by (rule nth_default_take)
  moreover have "slot (pv_chunks t) i = slot (pv_chunks pv) (at + i)" for i
    unfolding slot_abs [OF ok] slot_abs [OF ht(3)] ht(5) by (rule nth_default_drop)
  ultimately show ?thesis using True ht(1,2,3) by simp
next
  case False
  then show ?thesis using ok pv_okD(4) [OF ok] by simp
qed

lemma pv_count_slots:
  assumes ok: "pv_ok pv"
  shows "pv_count_present pv = card {i. slot (pv_chunks pv) i \<noteq> 0}"
proof -
  have d: "distinct (pv_present pv)" "inj_on fst (set (pv_present pv))"
    using present_distinct [OF ok] by (simp_all add: distinct_map)
  have "fst ` set (pv_present pv) = {i. slot (pv_chunks pv) i \<noteq> 0}"
  proof (intro equalityI subsetI)
    fix i assume "i \<in> fst ` set (pv_present pv)"
    then obtain p where "(i, p) \<in> set (pv_present pv)" by (auto simp: image_iff)
    then show "i \<in> {i. slot (pv_chunks pv) i \<noteq> 0}" using present_set [OF ok] by auto
  next
    fix i assume "i \<in> {i. slot (pv_chunks pv) i \<noteq> 0}"
    then have "(i, slot (pv_chunks pv) i) \<in> set (pv_present pv)" using present_set [OF ok] by simp
    then show "i \<in> fst ` set (pv_present pv)" by (rule rev_image_eqI) simp
  qed
  then show ?thesis using card_image [OF d(2)] distinct_card [OF d(1)] by (simp add: pv_count_present_def)
qed

subsection \<open>Properties\<close>

text \<open>C17: Splitting a region's frame table at any slot below its length gives, in both the
  chunk-moving and the slot-copying branch, exactly the two halves a dense vector would give:
  the kept table is the first \<open>at\<close> slots, the returned one the rest re-based at 0; neither
  branch panics and both halves satisfy the representation invariant.\<close>

theorem split_off_refines:
  assumes "pv_ok pv" "at < pv_len pv"
  shows "\<exists>h t. pv_split_off pv at = Some (h, t) \<and> pv_ok h \<and> pv_ok t
            \<and> pv_abs h = take at (pv_abs pv) \<and> pv_abs t = drop at (pv_abs pv)"
  using split_off_aligned [OF assms] split_off_unaligned [OF assms] by blast

text \<open>C18: A frame table behaves as the dense vector of its slots: reading never panics and gives
  the slot (or nothing past the end), writing a slot below the length changes that slot only,
  resizing cuts the vector or pads it with zeros (also after an earlier shrink), and the
  iterator over occupied slots lists exactly the non-zero slots in order.\<close>

theorem page_vec_refines:
  assumes "pv_ok pv"
  shows "pv_get pv i = Some (if i < pv_len pv then Some (pv_abs pv ! i) else None)
    \<and> (i < pv_len pv \<longrightarrow> (\<exists>pv'. pv_put pv i p = Some pv' \<and> pv_ok pv' \<and> pv_abs pv' = (pv_abs pv)[i := p]))
    \<and> (n + CHUNK < 2 ^ 64 \<longrightarrow> pv_ok (pv_resize pv n)
           \<and> pv_abs (pv_resize pv n) = take n (pv_abs pv) @ replicate (n - pv_len pv) 0)
    \<and> pv_present pv = filter (\<lambda>(_, f). f \<noteq> 0) (enumerate 0 (pv_abs pv))
    \<and> pv_iter pv = Some (pv_abs pv)"
  using assms pv_put_abs [OF assms, of i p] pv_resize_ok pv_resize_abs
  by (simp add: CHUNK_def vec_resize_def pv_get_abs pv_present_abs pv_iter_abs)

definition sample_pv :: page_vec where
  "sample_pv = \<lparr>pv_len = 3, pv_chunks = [[0, 7]]\<rparr>"

lemma sample_pv_ok: "pv_ok sample_pv"
proof -
  have "slot [[0, 7]] i = 0" if "3 \<le> i" for i
    using that by (cases "i div 512 = 0") (auto simp: slot_def CHUNK_def nth_default_def)
  then show ?thesis by (simp add: pv_ok_def sample_pv_def CHUNK_def)
qed

theorem split_off_refines_witness:
  "\<exists>h t. pv_split_off sample_pv 1 = Some (h, t) \<and> pv_abs h = [0] \<and> pv_abs t = [7, 0]"
proof -
  have "pv_abs sample_pv = [0, 7, 0]"
    by (simp add: pv_abs_def sample_pv_def slot_def CHUNK_def nth_default_def upt_rec)
  then show ?thesis using split_off_refines [of sample_pv 1] sample_pv_ok by (auto simp: sample_pv_def)
qed

theorem page_vec_refines_witness:
  "pv_get sample_pv 1 = Some (Some 7) \<and> pv_get sample_pv 3 = Some None \<and> pv_present sample_pv = [(1, 7)]
   \<and> pv_iter sample_pv = Some [0, 7, 0] \<and> pv_abs (pv_resize sample_pv 4) = [0, 7, 0, 0]
   \<and> (\<exists>pv'. pv_put sample_pv 2 5 = Some pv' \<and> pv_abs pv' = [0, 7, 5])"
proof -
  have a: "pv_abs sample_pv = [0, 7, 0]"
    by (simp add: pv_abs_def sample_pv_def slot_def CHUNK_def nth_default_def upt_rec)
  have l: "pv_len sample_pv = 3" by (simp add: sample_pv_def)
  note R = page_vec_refines [OF sample_pv_ok, unfolded a l]
  show ?thesis
    using R [of 1] R [of 3] R [of 2 5 4] by (auto simp: CHUNK_def)
qed

end
