(* ===== verification/Page_Ref.thy ===== *)
theory Page_Ref
  imports Buddy_Correct
begin

text \<open>
  \<open>mm/src/pageref.rs\<close>: reference counts of physical frames that have more than one owner.
  The table is a map from frame addresses to 32-bit counts; a frame that is not in it has one
  owner. \<open>unref_or_free\<close> composes the table with the page allocator of theory \<open>Buddy\<close>: the
  last owner to let go returns the frame. The table lock is not modelled (\<open>try_get\<close> takes the
  outcome of \<open>try_lock\<close> as an argument).
\<close>

type_synonym page_refs = "usize \<rightharpoonup> nat"

definition pr_get :: "page_refs \<Rightarrow> usize \<Rightarrow> nat" where
  "pr_get refs phys = (case refs phys of None \<Rightarrow> 1 | Some c \<Rightarrow> c)"

definition pr_inc :: "page_refs \<Rightarrow> usize \<Rightarrow> page_refs" where
  "pr_inc refs phys = refs(phys \<mapsto> ((case refs phys of None \<Rightarrow> 1 | Some c \<Rightarrow> c) + 1) mod 2 ^ 32)"

definition pr_inc_many :: "page_refs \<Rightarrow> usize list \<Rightarrow> page_refs" where
  "pr_inc_many refs frames = (if frames = [] then refs else fold (\<lambda>phys r. pr_inc r phys) frames refs)"

definition pr_try_get :: "bool \<Rightarrow> page_refs \<Rightarrow> usize \<Rightarrow> nat option" where
  "pr_try_get locked refs phys = (if locked then None else Some (pr_get refs phys))"

definition pr_dec :: "page_refs \<Rightarrow> usize \<Rightarrow> page_refs" where
  "pr_dec refs phys =
    (case refs phys of None \<Rightarrow> refs
     | Some c \<Rightarrow> let c' = (if c > 1 then c - 1 else c)
                in if c' \<le> 1 then refs(phys := None) else refs(phys \<mapsto> c'))"

definition unref_or_free :: "page_refs \<Rightarrow> buddy \<Rightarrow> usize \<Rightarrow> nat \<Rightarrow> (page_refs \<times> buddy) option" where
  "unref_or_free refs b phys order =
    (case refs phys of
       Some c \<Rightarrow>
         if c > 1 then Some (if c - 1 \<le> 1 then refs(phys := None) else refs(phys \<mapsto> c - 1), b)
         else map_option (\<lambda>b'. (refs(phys := None), b')) (free b phys order)
     | None \<Rightarrow> map_option (\<lambda>b'. (refs(phys := None), b')) (free b phys order))"

subsection \<open>The table counts owners\<close>

text \<open>Only shared frames are recorded, and no count has wrapped.\<close>

definition refs_ok :: "page_refs \<Rightarrow> bool" where
  "refs_ok refs \<longleftrightarrow> (\<forall>p c. refs p = Some c \<longrightarrow> 1 < c \<and> c < 2 ^ 32)"

lemma refs_okD: "refs_ok refs \<Longrightarrow> refs p = Some c \<Longrightarrow> 1 < c \<and> c < 2 ^ 32"
  by (simp add: refs_ok_def)

lemma pr_get_pos: "refs_ok refs \<Longrightarrow> 1 \<le> pr_get refs p \<and> pr_get refs p < 2 ^ 32"
  using refs_okD [of refs p] by (auto simp: pr_get_def split: option.split)

lemma refs_ok_upd: "refs_ok refs \<Longrightarrow> (\<And>c. v = Some c \<Longrightarrow> 1 < c \<and> c < 2 ^ 32) \<Longrightarrow> refs_ok (refs(p := v))"
  by (simp add: refs_ok_def)

lemma pr_get_inc:
  assumes "refs_ok refs" "pr_get refs p < 2 ^ 32 - 1"
  shows "refs_ok (pr_inc refs p)" "pr_get (pr_inc refs p) q = pr_get refs q + (if q = p then 1 else 0)"
proof -
  have i: "pr_inc refs p = refs(p \<mapsto> pr_get refs p + 1)"
    using assms(2) by (simp add: pr_inc_def pr_get_def)
  have "1 \<le> pr_get refs p" using pr_get_pos [OF assms(1)] by simp
  then show "refs_ok (pr_inc refs p)" unfolding i using assms by (intro refs_ok_upd) auto
  show "pr_get (pr_inc refs p) q = pr_get refs q + (if q = p then 1 else 0)"
    unfolding i by (simp add: pr_get_def)
qed

lemma pr_get_dec:
  assumes "refs_ok refs"
  shows "refs_ok (pr_dec refs p)" "pr_get (pr_dec refs p) q = (if q = p then max 1 (pr_get refs p - 1) else pr_get refs q)"
proof -
  have "1 < c \<and> c < 2 ^ 32" if "refs p = Some c" for c using refs_okD [OF assms that] .
  then show "refs_ok (pr_dec refs p)" "pr_get (pr_dec refs p) q = (if q = p then max 1 (pr_get refs p - 1) else pr_get refs q)"
    using assms by (auto simp: pr_get_def pr_dec_def Let_def split: option.splits intro!: refs_ok_upd)
qed

lemma pr_inc_many_Cons: "pr_inc_many refs (f # fs) = pr_inc_many (pr_inc refs f) fs"
  by (simp add: pr_inc_many_def)

lemma pr_get_inc_many:
  assumes "refs_ok refs" "\<And>p. pr_get refs p + length fs < 2 ^ 32"
  shows "refs_ok (pr_inc_many refs fs) \<and> pr_get (pr_inc_many refs fs) q = pr_get refs q + count_list fs q"
  using assms
proof (induction fs arbitrary: refs)
  case Nil
  then show ?case by (simp add: pr_inc_many_def)
next
  case (Cons f fs)
  have f: "pr_get refs f < 2 ^ 32 - 1" using Cons.prems(2) [of f] by simp
  have "pr_get (pr_inc refs f) p + length fs < 2 ^ 32" for p
    using Cons.prems(2) [of p] by (cases "p = f") (simp_all add: pr_get_inc(2) [OF Cons.prems(1) f])
  then show ?case
    using Cons.IH [OF pr_get_inc(1) [OF Cons.prems(1) f]]
    by (auto simp: pr_inc_many_Cons pr_get_inc(2) [OF Cons.prems(1) f])
qed

lemma unref_shared:
  assumes "refs_ok refs" "1 < pr_get refs p"
  shows "unref_or_free refs b p order = Some (pr_dec refs p, b)"
  using assms by (auto simp: unref_or_free_def pr_get_def pr_dec_def Let_def split: option.splits)

lemma untracked: "refs_ok refs \<Longrightarrow> pr_get refs p = 1 \<Longrightarrow> refs p = None"
  by (cases "refs p") (auto simp: pr_get_def dest: refs_okD)

lemma unref_last:
  assumes "refs_ok refs" "pr_get refs p = 1"
  shows "unref_or_free refs b p order = map_option (Pair refs) (free b p order)"
proof -
  have "refs p = None" using assms by (rule untracked)
  moreover from this have "refs(p := None) = refs" by (rule fun_upd_idem)
  ultimately show ?thesis by (simp add: unref_or_free_def)
qed

lemma unref_frame:
  assumes "refs_ok refs" "pr_get refs p = 1" "buddy_ok b F" "frame_ok b p" "p div PAGE_SIZE \<notin> F"
  shows "\<exists>b'. unref_or_free refs b p 0 = Some (refs, b') \<and> buddy_ok b' (insert (p div PAGE_SIZE) F)
              \<and> frame_ok b' = frame_ok b"
  using frames.give_ok [OF assms(3,4,5)] unref_last [OF assms(1,2)] by (auto simp: give_page_def)

fun unref_times :: "nat \<Rightarrow> page_refs \<Rightarrow> buddy \<Rightarrow> usize \<Rightarrow> (page_refs \<times> buddy) option" where
  "unref_times 0 refs b p = Some (refs, b)"
| "unref_times (Suc n) refs b p = Option.bind (unref_or_free refs b p 0) (\<lambda>(r, b'). unref_times n r b' p)"

lemma unref_times_shared:
  "refs_ok refs \<Longrightarrow> k < pr_get refs p \<Longrightarrow>
   \<exists>r. unref_times k refs b p = Some (r, b) \<and> refs_ok r \<and> pr_get r p = pr_get refs p - k
     \<and> (\<forall>q. q \<noteq> p \<longrightarrow> r q = refs q)"
proof (induction k arbitrary: refs)
  case (Suc k)
  have gt: "1 < pr_get refs p" using Suc.prems(2) by simp
  have d: "refs_ok (pr_dec refs p)" "pr_get (pr_dec refs p) p = pr_get refs p - 1"
    using pr_get_dec [OF Suc.prems(1), of p] gt by simp_all
  have q: "q \<noteq> p \<Longrightarrow> pr_dec refs p q = refs q" for q by (auto simp: pr_dec_def Let_def split: option.split)
  have "k < pr_get (pr_dec refs p) p" using d(2) Suc.prems(2) by linarith
  from Suc.IH [OF d(1) this] obtain r where
    "unref_times k (pr_dec refs p) b p = Some (r, b)" "refs_ok r" "pr_get r p = pr_get refs p - 1 - k"
    "\<forall>q. q \<noteq> p \<longrightarrow> r q = pr_dec refs p q" unfolding d(2) by blast
  then show ?case using unref_shared [OF Suc.prems(1) gt, of b 0] q by auto
qed simp

lemma unref_times_add:
  "unref_times (m + n) refs b p = Option.bind (unref_times m refs b p) (\<lambda>(r, b'). unref_times n r b' p)"
  by (induction m arbitrary: refs b) (auto simp: split: Option.bind_split)

subsection \<open>Properties\<close>

text \<open>C19: A frame that was shared k times is given back exactly once: after k increments, the
  first k releases leave the allocator untouched and count the owners down, and only the
  release after them frees the frame (it becomes free in the page allocator, whose invariant is
  kept) and leaves the table as it was before the frame was shared.\<close>

theorem last_owner_frees:
  assumes "refs_ok refs" "refs p = None" "k < 2 ^ 32 - 1"
    and "buddy_ok b F" "frame_ok b p" "p div PAGE_SIZE \<notin> F"
    and "shared = ((\<lambda>r. pr_inc r p) ^^ k) refs"
  shows "pr_get shared p = k + 1
    \<and> (\<forall>j \<le> k. \<exists>r. unref_times j shared b p = Some (r, b) \<and> pr_get r p = k + 1 - j)
    \<and> (\<exists>b'. unref_times (k + 1) shared b p = Some (refs, b') \<and> buddy_ok b' (insert (p div PAGE_SIZE) F))"
proof (intro conjI allI impI)
  have one: "pr_get refs p = 1" using assms(2) by (simp add: pr_get_def)
  have "n < 2 ^ 32 - 1 \<Longrightarrow> refs_ok (((\<lambda>r. pr_inc r p) ^^ n) refs) \<and> pr_get (((\<lambda>r. pr_inc r p) ^^ n) refs) p = n + 1
     \<and> (\<forall>q. q \<noteq> p \<longrightarrow> ((\<lambda>r. pr_inc r p) ^^ n) refs q = refs q)" for n
  proof (induction n)
    case (Suc n)
    let ?r = "((\<lambda>r. pr_inc r p) ^^ n) refs"
    have r: "refs_ok ?r" "pr_get ?r p = n + 1" "\<forall>q. q \<noteq> p \<longrightarrow> ?r q = refs q" using Suc by simp_all
    have lt: "pr_get ?r p < 2 ^ 32 - 1" using r(2) Suc.prems by simp
    have "q \<noteq> p \<Longrightarrow> pr_inc ?r p q = ?r q" for q by (simp add: pr_inc_def)
    then show ?case using pr_get_inc [OF r(1) lt] r(2,3) by simp
  qed (simp add: assms(1) one)
  from this [OF assms(3)] have s: "refs_ok shared" "pr_get shared p = k + 1"
      "\<And>q. q \<noteq> p \<Longrightarrow> shared q = refs q" unfolding assms(7) by blast+
  show "pr_get shared p = k + 1" by (rule s(2))
  show "\<exists>r. unref_times j shared b p = Some (r, b) \<and> pr_get r p = k + 1 - j" if "j \<le> k" for j
    using unref_times_shared [OF s(1), of j p b] s(2) that by auto
  obtain r where r: "unref_times k shared b p = Some (r, b)" "refs_ok r" "pr_get r p = 1"
      "\<And>q. q \<noteq> p \<Longrightarrow> r q = shared q"
    using unref_times_shared [OF s(1), of k p b] s(2) by auto
  have "r p = None" using r(2,3) by (rule untracked)
  then have "r = refs" using r(4) s(3) assms(2) by (metis ext)
  then show "\<exists>b'. unref_times (k + 1) shared b p = Some (refs, b') \<and> buddy_ok b' (insert (p div PAGE_SIZE) F)"
    unfolding unref_times_add using unref_frame [OF r(2,3) assms(4-6)] r(1) by auto
qed

lemma empty_buddy_frame: "frame_ok empty_buddy 1048576"
  by (simp add: frame_ok_def good_block_def empty_buddy_def buddy_initial_def overlaps_reserved_def
      block_size_def PAGE_SIZE_def push_bit_eq_mult MAX_RESERVED_def list_ex_iff)

theorem last_owner_frees_witness:
  "\<exists>b'. unref_times 3 ((\<lambda>r. pr_inc r 1048576) ((\<lambda>r. pr_inc r 1048576) Map.empty)) empty_buddy 1048576
          = Some (Map.empty, b') \<and> buddy_ok b' {256}"
proof -
  have "refs_ok Map.empty" by (simp add: refs_ok_def)
  moreover have "(2::nat) < 2 ^ 32 - 1" by simp
  ultimately show ?thesis
    using last_owner_frees [OF _ refl _ empty_buddy_ok empty_buddy_frame _ refl, of 2]
    by (simp add: numeral_2_eq_2 numeral_3_eq_3 PAGE_SIZE_def)
qed

end
