(* ===== verification/Vmm_Region.thy ===== *)
theory Vmm_Region
  imports Page_Vec Page_Ref "HOL-Library.Monad_Syntax"
begin

text \<open>
  The state the virtual memory manager works on, and the operations of one mapped region:
  \<open>VmaRegion\<close> and its methods (\<open>mm/src/vmm.rs\<close>), the page-table interface
  (\<open>mm/src/paging.rs\<close>), the frame-sharing table (theory \<open>Page_Ref\<close>), and the two page-cache
  operations mappings use (\<open>lookup\<close> and \<open>mark_dirty\<close> of \<open>mm/src/pagecache.rs\<close>).

  \<open>machine\<close> is the state shared by all address spaces. A page table is the map of its present
  entries; the intermediate tables the architecture allocates on the way are the parameter
  \<open>pt_nodes\<close> of the environment, which may take frames from the page allocator or fail.
  A result \<open>None\<close> is a call that does not return (a corrupted free list, an index out of
  range).
\<close>

subsection \<open>Flags\<close>

definition PRESENT :: u64 where "PRESENT = 1"
definition WRITABLE :: u64 where "WRITABLE = 2"
definition USER :: u64 where "USER = 4"
definition EXECUTE :: u64 where "EXECUTE = 8"
definition ALL_FLAGS :: u64 where "ALL_FLAGS = 0x7F"

definition contains :: "u64 \<Rightarrow> u64 \<Rightarrow> bool" where
  "contains f x \<longleftrightarrow> f AND x = x"

text \<open>\<open>f & !x\<close>: the complement of a flag set only has known flags.\<close>

definition without :: "u64 \<Rightarrow> u64 \<Rightarrow> u64" where
  "without f x = f AND (ALL_FLAGS AND NOT x)"

definition PROT_NONE :: u32 where "PROT_NONE = 0"
definition PROT_READ :: u32 where "PROT_READ = 1"
definition PROT_WRITE :: u32 where "PROT_WRITE = 2"
definition PROT_EXEC :: u32 where "PROT_EXEC = 4"
definition PROT_ACCESS :: u32 where "PROT_ACCESS = PROT_READ OR PROT_WRITE OR PROT_EXEC"
definition MAP_SHARED :: u32 where "MAP_SHARED = 1"
definition MAP_PRIVATE :: u32 where "MAP_PRIVATE = 2"
definition MAP_FIXED :: u32 where "MAP_FIXED = 16"
definition MAP_ANONYMOUS :: u32 where "MAP_ANONYMOUS = 32"
definition MAP_FILE_COPY :: u32 where "MAP_FILE_COPY = 2 ^ 29"
definition MAP_EOF_SIGBUS :: u32 where "MAP_EOF_SIGBUS = 2 ^ 30"

text \<open>\<open>usize::MAX\<close>, the capability of a device mapping.\<close>

definition DEVICE_CAP :: usize where "DEVICE_CAP = 2 ^ 64 - 1"

subsection \<open>Regions\<close>

record vma_region =
  r_start :: usize
  r_end :: usize
  r_phys :: usize
  r_flags :: u64
  r_lazy :: bool
  r_lazy_pages :: page_vec
  r_lazy_count :: usize
  r_prot :: u32
  r_map_flags :: u32
  r_file_cap :: usize
  r_file_off :: usize
  r_file_len :: usize
  r_cow :: bool
  r_written :: "u64 list"

definition is_file_backed :: "usize \<Rightarrow> bool" where
  "is_file_backed cap \<longleftrightarrow> cap \<noteq> 0 \<and> cap \<noteq> DEVICE_CAP"

definition is_shared :: "vma_region \<Rightarrow> bool" where
  "is_shared r \<longleftrightarrow> r_map_flags r AND MAP_SHARED \<noteq> 0"

text \<open>\<open>lazy_pages.get(i).copied().unwrap_or(0)\<close>\<close>

definition lazy_at :: "vma_region \<Rightarrow> usize \<Rightarrow> usize option" where
  "lazy_at r i = map_option (\<lambda>p. case p of None \<Rightarrow> 0 | Some f \<Rightarrow> f) (pv_get (r_lazy_pages r) i)"

definition vma_pages :: "vma_region \<Rightarrow> usize" where
  "vma_pages r = usub (r_end r) (r_start r) div PAGE_SIZE"

definition file_pages :: "vma_region \<Rightarrow> usize" where
  "file_pages r = usub (uadd (r_file_len r) PAGE_SIZE) 1 div PAGE_SIZE"

definition tracks_written :: "vma_region \<Rightarrow> bool" where
  "tracks_written r \<longleftrightarrow> r_lazy r \<and> is_file_backed (r_file_cap r)"

definition is_written :: "vma_region \<Rightarrow> usize \<Rightarrow> bool" where
  "is_written r idx \<longleftrightarrow> idx div 64 < length (r_written r) \<and> word_bit (r_written r ! (idx div 64)) (idx mod 64)"

definition set_written :: "vma_region \<Rightarrow> usize \<Rightarrow> bool \<Rightarrow> vma_region" where
  "set_written r idx on =
    (if on then
       if \<not> tracks_written r \<or> file_pages r \<le> idx then r
       else let w = (if length (r_written r) \<le> idx div 64
                     then vec_resize 0 (idx div 64 + 1) (r_written r) else r_written r)
            in r\<lparr>r_written := w[idx div 64 := word_set (w ! (idx div 64)) (idx mod 64)]\<rparr>
     else if idx div 64 < length (r_written r)
       then r\<lparr>r_written := (r_written r)[idx div 64 := word_clear (r_written r ! (idx div 64)) (idx mod 64)]\<rparr>
     else r)"

definition clean_file_page :: "vma_region \<Rightarrow> usize \<Rightarrow> bool" where
  "clean_file_page r idx \<longleftrightarrow> tracks_written r \<and> idx < file_pages r \<and> \<not> is_written r idx"

definition pgoff_of :: "usize \<Rightarrow> usize option" where
  "pgoff_of off = (if off mod PAGE_SIZE = 0 then Some (off div PAGE_SIZE) else None)"

definition cache_pgoff :: "vma_region \<Rightarrow> usize \<Rightarrow> usize option" where
  "cache_pgoff r idx =
    (if \<not> r_lazy r \<or> \<not> is_file_backed (r_file_cap r) then None
     else if r_map_flags r AND MAP_EOF_SIGBUS \<noteq> 0 \<and> r_file_len r \<le> umul idx PAGE_SIZE then None
     else if r_map_flags r AND MAP_EOF_SIGBUS = 0 \<and> r_file_len r < umul (uadd idx 1) PAGE_SIZE then None
     else pgoff_of (uadd (r_file_off r) (umul idx PAGE_SIZE)))"

definition install_flags :: "vma_region \<Rightarrow> usize \<Rightarrow> u64 \<Rightarrow> u64" where
  "install_flags r idx flags =
    (if contains flags WRITABLE \<and> clean_file_page r idx then without flags WRITABLE else flags)"

definition resident_pages :: "vma_region \<Rightarrow> usize" where
  "resident_pages r =
    (if r_file_cap r = DEVICE_CAP then 0
     else if r_lazy r then r_lazy_count r
     else if r_phys r \<noteq> 0 then vma_pages r else 0)"

datatype rss_kind = RssNone | RssAnon | RssFile | RssShmem

definition rss_kind_of :: "vma_region \<Rightarrow> rss_kind" where
  "rss_kind_of r =
    (if r_file_cap r = DEVICE_CAP then RssNone
     else if r_map_flags r AND MAP_SHARED \<noteq> 0 then RssShmem
     else if is_file_backed (r_file_cap r) \<or> r_map_flags r AND MAP_FILE_COPY \<noteq> 0 then RssFile
     else RssAnon)"

definition count_ones :: "u64 \<Rightarrow> nat" where
  "count_ones w = length (filter (bit w) [0..<64])"

definition file_anon_split :: "vma_region \<Rightarrow> usize \<times> usize" where
  "file_anon_split r =
    (let n = resident_pages r in
     if \<not> is_file_backed (r_file_cap r) \<or> \<not> r_lazy r then (n, 0)
     else let bss = (if vma_pages r \<le> file_pages r then 0
                     else length (filter (\<lambda>(i, _). file_pages r \<le> i) (pv_present (r_lazy_pages r))));
              dirty = sum_list (map count_ones (r_written r));
              anon = min (bss + dirty) n
          in (n - anon, anon))"

subsection \<open>The machine\<close>

record pc_page =
  pc_phys :: usize
  pc_state :: nat
  pc_flags :: u8

record file_ent =
  fe_pages :: "usize \<rightharpoonup> pc_page"
  fe_ndirty :: nat

datatype tlb_flush = Flush_Range usize usize usize | Flush_Local usize

record machine =
  bud :: buddy
  refs :: page_refs
  ptes :: "usize \<Rightarrow> usize \<Rightarrow> (usize \<times> u64) option"
  ram :: "usize \<Rightarrow> u8"
  file_refs :: "usize \<Rightarrow> int"
  cache :: "usize \<rightharpoonup> file_ent"
  flushes :: "tlb_flush list"
  map_fail :: nat

text \<open>What the manager calls outside itself: \<open>pagecache::emergency_reclaim\<close>, the location
  tag of its allocations, the architecture's page-table nodes, and the file hooks the kernel
  registers.\<close>

record env =
  emergency_reclaim :: "machine \<Rightarrow> nat \<Rightarrow> nat \<times> machine"
  site :: usize
  pt_nodes :: "buddy \<Rightarrow> usize \<Rightarrow> usize \<Rightarrow> bool \<times> buddy"
  pt_free_nodes :: "buddy \<Rightarrow> usize \<Rightarrow> buddy option"
  file_key_hook :: "usize \<Rightarrow> usize"
  file_read_hook :: "usize \<Rightarrow> usize \<Rightarrow> usize \<Rightarrow> int \<times> u8 list"

definition m_alloc :: "env \<Rightarrow> machine \<Rightarrow> nat \<Rightarrow> (usize option \<times> machine) option" where
  "m_alloc e m order =
    (case alloc_untracked (bud m) order of
       None \<Rightarrow> None
     | Some (Some addr, b) \<Rightarrow> Some (Some addr, m\<lparr>bud := track b (site e) addr order\<rparr>)
     | Some (None, b) \<Rightarrow>
         let (n, m') = emergency_reclaim e (m\<lparr>bud := b\<rparr>) (max (umul 4 (2 ^ (order mod 64))) 64) in
         if n = 0 then Some (None, m')
         else map_option (\<lambda>(r, b'). (r, m'\<lparr>bud := b'\<rparr>)) (try_alloc (bud m') (site e) order))"

definition m_free :: "machine \<Rightarrow> usize \<Rightarrow> nat \<Rightarrow> machine option" where
  "m_free m phys order = map_option (\<lambda>b. m\<lparr>bud := b\<rparr>) (free (bud m) phys order)"

definition m_unref :: "machine \<Rightarrow> usize \<Rightarrow> machine option" where
  "m_unref m phys = map_option (\<lambda>(r, b). m\<lparr>refs := r, bud := b\<rparr>) (unref_or_free (refs m) (bud m) phys 0)"

fun m_unref_all :: "machine \<Rightarrow> usize list \<Rightarrow> machine option" where
  "m_unref_all m [] = Some m"
| "m_unref_all m (p # ps) = Option.bind (m_unref m p) (\<lambda>m'. m_unref_all m' ps)"

definition map_page :: "env \<Rightarrow> machine \<Rightarrow> usize \<Rightarrow> usize \<Rightarrow> usize \<Rightarrow> u64 \<Rightarrow> bool \<times> machine" where
  "map_page e m root va phys flags =
    (let (ok, b) = pt_nodes e (bud m) root va in
     if ok then (True, m\<lparr>bud := b, ptes := (ptes m)(root := (ptes m root)(va \<mapsto> (phys, flags)))\<rparr>)
     else (False, m\<lparr>bud := b\<rparr>))"

definition unmap_page :: "machine \<Rightarrow> usize \<Rightarrow> usize \<Rightarrow> machine" where
  "unmap_page m root va = m\<lparr>ptes := (ptes m)(root := (ptes m root)(va := None))\<rparr>"

definition unmap_pages :: "machine \<Rightarrow> usize \<Rightarrow> usize list \<Rightarrow> machine" where
  "unmap_pages m root vas = fold (\<lambda>va m. unmap_page m root va) vas m"

definition tlb_flush_range :: "machine \<Rightarrow> usize \<Rightarrow> usize \<Rightarrow> usize \<Rightarrow> machine" where
  "tlb_flush_range m root va pages =
    (if pages = 0 then m else m\<lparr>flushes := flushes m @ [Flush_Range root va pages]\<rparr>)"

definition tlb_flush_as :: "machine \<Rightarrow> usize \<Rightarrow> machine" where
  "tlb_flush_as m root = m\<lparr>flushes := flushes m @ [Flush_Range root 0 (2 ^ 64 - 1)]\<rparr>"

definition tlb_flush_local_page :: "machine \<Rightarrow> usize \<Rightarrow> machine" where
  "tlb_flush_local_page m va = m\<lparr>flushes := flushes m @ [Flush_Local va]\<rparr>"

definition zero_ram :: "machine \<Rightarrow> usize \<Rightarrow> usize \<Rightarrow> machine" where
  "zero_ram m a n = m\<lparr>ram := (\<lambda>x. if a \<le> x \<and> x < a + n then 0 else ram m x)\<rparr>"

definition copy_page :: "machine \<Rightarrow> usize \<Rightarrow> usize \<Rightarrow> machine" where
  "copy_page m src dst =
    m\<lparr>ram := (\<lambda>x. if dst \<le> x \<and> x < dst + PAGE_SIZE then ram m (src + (x - dst)) else ram m x)\<rparr>"

definition write_ram :: "machine \<Rightarrow> usize \<Rightarrow> u8 list \<Rightarrow> machine" where
  "write_ram m a bs = m\<lparr>ram := (\<lambda>x. if a \<le> x \<and> x < a + length bs then bs ! (x - a) else ram m x)\<rparr>"

definition file_retain :: "machine \<Rightarrow> usize \<Rightarrow> machine" where
  "file_retain m cap = m\<lparr>file_refs := (file_refs m)(cap := file_refs m cap + 1)\<rparr>"

definition file_release :: "machine \<Rightarrow> usize \<Rightarrow> machine" where
  "file_release m cap = m\<lparr>file_refs := (file_refs m)(cap := file_refs m cap - 1)\<rparr>"

definition file_key :: "env \<Rightarrow> usize \<Rightarrow> usize" where
  "file_key e cap = (if \<not> is_file_backed cap then 0 else file_key_hook e cap)"

definition note_fail :: "machine \<Rightarrow> nat \<Rightarrow> machine" where
  "note_fail m code = m\<lparr>map_fail := code\<rparr>"

subsection \<open>Page-cache operations of mappings\<close>

definition ST_UPTODATE :: nat where "ST_UPTODATE = 1"
definition F_REF :: u8 where "F_REF = 1"
definition F_DIRTY :: u8 where "F_DIRTY = 2"
definition F_EXEC :: u8 where "F_EXEC = 4"
definition F_MAPPED :: u8 where "F_MAPPED = 16"

definition pc_lookup :: "machine \<Rightarrow> usize \<Rightarrow> usize \<Rightarrow> bool \<Rightarrow> usize option \<times> machine" where
  "pc_lookup m key pgoff exec =
    (if key = 0 then (None, m)
     else case cache m key of None \<Rightarrow> (None, m)
     | Some fe \<Rightarrow> (case fe_pages fe pgoff of None \<Rightarrow> (None, m)
       | Some p \<Rightarrow>
           if pc_state p \<noteq> ST_UPTODATE \<or> pc_phys p = 0 then (None, m)
           else
             let p' = p\<lparr>pc_flags := pc_flags p OR (F_REF OR F_MAPPED OR (if exec then F_EXEC else 0))\<rparr>;
                 fe' = fe\<lparr>fe_pages := (fe_pages fe)(pgoff \<mapsto> p')\<rparr>
             in (Some (pc_phys p), m\<lparr>cache := (cache m)(key \<mapsto> fe'), refs := pr_inc (refs m) (pc_phys p)\<rparr>)))"

definition pc_mark_dirty :: "machine \<Rightarrow> usize \<Rightarrow> usize \<Rightarrow> usize \<Rightarrow> bool \<times> machine" where
  "pc_mark_dirty m key pgoff phys =
    (case cache m key of None \<Rightarrow> (False, m)
     | Some fe \<Rightarrow> (case fe_pages fe pgoff of None \<Rightarrow> (False, m)
       | Some p \<Rightarrow>
           if pc_state p \<noteq> ST_UPTODATE \<or> pc_phys p \<noteq> phys then (False, m)
           else if pc_flags p AND F_DIRTY = 0 then
             let fe' = fe\<lparr>fe_pages := (fe_pages fe)(pgoff \<mapsto> p\<lparr>pc_flags := pc_flags p OR F_DIRTY\<rparr>),
                          fe_ndirty := fe_ndirty fe + 1\<rparr>
             in (True, m\<lparr>cache := (cache m)(key \<mapsto> fe')\<rparr>)
           else (True, m)))"

definition install_cached ::
  "env \<Rightarrow> machine \<Rightarrow> usize \<Rightarrow> vma_region \<Rightarrow> usize \<Rightarrow> usize \<Rightarrow> bool \<Rightarrow> (bool \<times> machine \<times> vma_region) option" where
  "install_cached e m root r idx phys written =
    (let n = min (idx + 1) (vma_pages r);
         r = (if pv_len (r_lazy_pages r) < n then r\<lparr>r_lazy_pages := pv_resize (r_lazy_pages r) n\<rparr> else r);
         r = set_written r idx written;
         flags = (if written then r_flags r else without (install_flags r idx (r_flags r)) WRITABLE);
         (ok, m) = map_page e m root (uadd (r_start r) (umul idx PAGE_SIZE)) phys flags
     in if \<not> ok then Some (False, m, r)
        else map_option (\<lambda>pv. (True, m, r\<lparr>r_lazy_pages := pv, r_lazy_count := uadd (r_lazy_count r) 1\<rparr>))
               (pv_put (r_lazy_pages r) idx phys))"

end
