(* ===== verification/Vmm.thy ===== *)
theory Vmm
  imports Vmm_Region
begin

text \<open>
  \<open>AddressSpace\<close> of \<open>mm/src/vmm.rs\<close>: creating mappings and serving page faults. The
  per-address-space \<open>busy\<close> flag is not modelled (each operation runs to completion, as it does
  while the flag is held), nor are the fault-latency counters and the cache-maintenance
  instructions of AArch64.
\<close>

record address_space =
  page_table_root :: usize
  regions :: "vma_region option list"
  heap_start :: usize
  heap_end :: usize
  stack_top :: usize
  hiwater_rss :: usize
  hiwater_vm :: usize

definition as_new :: "usize \<Rightarrow> address_space" where
  "as_new root = \<lparr>page_table_root = root, regions = replicate 128 None, heap_start = 0, heap_end = 0,
     stack_top = 0, hiwater_rss = 0, hiwater_vm = 0\<rparr>"

definition put_region :: "address_space \<Rightarrow> nat \<Rightarrow> vma_region \<Rightarrow> address_space" where
  "put_region s i r = s\<lparr>regions := (regions s)[i := Some r]\<rparr>"

definition page_down :: "usize \<Rightarrow> usize" where
  "page_down v = v AND unot (PAGE_SIZE - 1)"

text \<open>\<open>(size + PAGE_SIZE - 1) / PAGE_SIZE\<close> and \<open>(sz + PAGE_SIZE - 1) & !(PAGE_SIZE - 1)\<close>\<close>

definition page_count :: "usize \<Rightarrow> usize" where
  "page_count n = usub (uadd n PAGE_SIZE) 1 div PAGE_SIZE"

definition page_up :: "usize \<Rightarrow> usize" where
  "page_up n = usub (uadd n PAGE_SIZE) 1 AND unot (PAGE_SIZE - 1)"

definition page_addr :: "usize \<Rightarrow> nat \<Rightarrow> usize" where
  "page_addr a i = uadd a (umul i PAGE_SIZE)"

definition pages_to_order :: "usize \<Rightarrow> nat" where
  "pages_to_order pages = order_from 0 pages"

definition FAIL_ZERO_SIZE :: nat where "FAIL_ZERO_SIZE = 1"
definition FAIL_VMA_OVERLAP :: nat where "FAIL_VMA_OVERLAP = 2"
definition FAIL_VA_OVERFLOW :: nat where "FAIL_VA_OVERFLOW = 3"
definition FAIL_BUDDY :: nat where "FAIL_BUDDY = 4"
definition FAIL_PTE_INSTALL :: nat where "FAIL_PTE_INSTALL = 5"
definition FAIL_NO_HEAP :: nat where "FAIL_NO_HEAP = 6"
definition FAIL_BAD_FILECAP :: nat where "FAIL_BAD_FILECAP = 7"

definition last_map_fail :: "machine \<Rightarrow> string" where
  "last_map_fail m =
    (let c = map_fail m in
     if c = 0 then ''none-recorded'' else if c = FAIL_ZERO_SIZE then ''zero-size''
     else if c = FAIL_VMA_OVERLAP then ''vma-overlap'' else if c = FAIL_VA_OVERFLOW then ''va-overflow''
     else if c = FAIL_BUDDY then ''buddy-order-unavailable'' else if c = FAIL_PTE_INSTALL then ''pte-install''
     else if c = FAIL_NO_HEAP then ''no-heap-vma'' else if c = FAIL_BAD_FILECAP then ''bad-file-cap''
     else ''unrecorded'')"

subsection \<open>Creating mappings\<close>

definition free_slot :: "vma_region option list \<Rightarrow> vma_region option list \<times> nat" where
  "free_slot rs = (case position Option.is_none rs of Some i \<Rightarrow> (rs, i) | None \<Rightarrow> (rs @ [None], length rs))"

definition overlaps :: "vma_region option list \<Rightarrow> usize \<Rightarrow> usize \<Rightarrow> bool" where
  "overlaps rs lo hi \<longleftrightarrow>
    list_ex (\<lambda>s. case s of None \<Rightarrow> False | Some r \<Rightarrow> lo < r_end r \<and> r_start r < hi) rs"

text \<open>Installing a run of pages: at the first failure the entries installed so far are removed.\<close>

fun map_run :: "env \<Rightarrow> machine \<Rightarrow> usize \<Rightarrow> u64 \<Rightarrow> usize list \<Rightarrow> (usize \<times> usize) list \<Rightarrow> bool \<times> machine" where
  "map_run e m root flags done [] = (True, m)"
| "map_run e m root flags done ((va, phys) # ps) =
    (let (ok, m') = map_page e m root va phys flags in
     if ok then map_run e m' root flags (done @ [va]) ps
     else (False, unmap_pages m' root done))"

definition run_of :: "usize \<Rightarrow> usize \<Rightarrow> nat \<Rightarrow> (usize \<times> usize) list" where
  "run_of virt phys n = map (\<lambda>i. (page_addr virt i, page_addr phys i)) [0..<n]"

definition new_region :: "usize \<Rightarrow> usize \<Rightarrow> usize \<Rightarrow> u64 \<Rightarrow> bool \<Rightarrow> u32 \<Rightarrow> u32 \<Rightarrow> usize \<Rightarrow> vma_region" where
  "new_region lo hi phys flags lz prot mflags cap =
    \<lparr>r_start = lo, r_end = hi, r_phys = phys, r_flags = flags, r_lazy = lz, r_lazy_pages = pv_new,
     r_lazy_count = 0, r_prot = prot, r_map_flags = mflags, r_file_cap = cap, r_file_off = 0,
     r_file_len = 0, r_cow = False, r_written = []\<rparr>"

text \<open>Every mapping call answers \<open>true\<close> or records why it refused.\<close>

type_synonym map_result = "(bool \<times> machine \<times> address_space) option"

definition refuse :: "machine \<Rightarrow> address_space \<Rightarrow> nat \<Rightarrow> map_result" where
  "refuse m s code = Some (False, note_fail m code, s)"

definition vmm_map :: "env \<Rightarrow> machine \<Rightarrow> address_space \<Rightarrow> usize \<Rightarrow> usize \<Rightarrow> u64 \<Rightarrow> map_result" where
  "vmm_map e m s virt sz flags =
    (if sz = 0 then refuse m s FAIL_ZERO_SIZE
     else let (rs, slot) = free_slot (regions s); s = s\<lparr>regions := rs\<rparr>;
              virt = page_down virt; pages = page_count sz in
       (case checked_add virt (umul pages PAGE_SIZE) of
          None \<Rightarrow> refuse m s FAIL_VA_OVERFLOW
        | Some hi \<Rightarrow>
            if overlaps rs virt hi then refuse m s FAIL_VMA_OVERLAP
            else let order = pages_to_order pages in
              do { (got, m) \<leftarrow> m_alloc e m order;
                   (case got of
                      None \<Rightarrow> refuse m s FAIL_BUDDY
                    | Some phys \<Rightarrow>
                        let m = zero_ram m phys (umul pages PAGE_SIZE);
                            (ok, m) = map_run e m (page_table_root s) flags [] (run_of virt phys pages) in
                        if \<not> ok then
                          do { m \<leftarrow> m_free m phys order; refuse m s FAIL_PTE_INSTALL }
                        else
                          Some (True, m, put_region s slot
                            (new_region virt (page_addr virt pages) phys flags False
                               (PROT_READ OR PROT_WRITE) (MAP_ANONYMOUS OR MAP_PRIVATE) 0))) }))"

definition map_device :: "env \<Rightarrow> machine \<Rightarrow> address_space \<Rightarrow> usize \<Rightarrow> usize \<Rightarrow> usize \<Rightarrow> u64 \<Rightarrow> map_result" where
  "map_device e m s virt phys sz flags =
    (if sz = 0 then refuse m s FAIL_ZERO_SIZE
     else let (rs, slot) = free_slot (regions s); s = s\<lparr>regions := rs\<rparr>;
              virt = page_down virt; phys = page_down phys; pages = page_count sz in
       (case checked_add virt (umul pages PAGE_SIZE) of
          None \<Rightarrow> refuse m s FAIL_VA_OVERFLOW
        | Some hi \<Rightarrow>
            if overlaps rs virt hi then refuse m s FAIL_VMA_OVERLAP
            else let (ok, m) = map_run e m (page_table_root s) flags [] (run_of virt phys pages) in
              if \<not> ok then refuse m s FAIL_PTE_INSTALL
              else Some (True, m, put_region s slot
                     (new_region virt hi phys flags False (PROT_READ OR PROT_WRITE) MAP_SHARED DEVICE_CAP))))"

definition map_lazy :: "machine \<Rightarrow> address_space \<Rightarrow> usize \<Rightarrow> usize \<Rightarrow> u64 \<Rightarrow> bool \<Rightarrow> bool \<times> machine \<times> address_space" where
  "map_lazy m s virt sz flags shared =
    (if sz = 0 then (False, note_fail m FAIL_ZERO_SIZE, s)
     else let (rs, slot) = free_slot (regions s); s = s\<lparr>regions := rs\<rparr>;
              virt = page_down virt; pages = page_count sz in
       (case checked_add virt (umul pages PAGE_SIZE) of
          None \<Rightarrow> (False, note_fail m FAIL_VA_OVERFLOW, s)
        | Some hi \<Rightarrow>
            if overlaps rs virt hi then (False, note_fail m FAIL_VMA_OVERLAP, s)
            else (True, m, put_region s slot
                   (new_region virt hi 0 flags True (PROT_READ OR PROT_WRITE)
                     (MAP_ANONYMOUS OR (if shared then MAP_SHARED else MAP_PRIVATE)) 0))))"

definition prot_of :: "u64 \<Rightarrow> u32" where
  "prot_of flags = PROT_READ OR (if contains flags WRITABLE then PROT_WRITE else 0)
                     OR (if contains flags EXECUTE then PROT_EXEC else 0)"

definition release_all :: "machine \<Rightarrow> usize list \<Rightarrow> machine option" where
  "release_all m frames = m_unref_all m (filter (\<lambda>p. p \<noteq> 0) frames)"

definition map_shared_frames :: "env \<Rightarrow> machine \<Rightarrow> address_space \<Rightarrow> usize \<Rightarrow> usize list \<Rightarrow> u64 \<Rightarrow> map_result" where
  "map_shared_frames e m s virt frames flags =
    (if frames = [] then refuse m s FAIL_ZERO_SIZE
     else let (rs, slot) = free_slot (regions s); s = s\<lparr>regions := rs\<rparr>;
              virt = page_down virt; pages = length frames in
       (case checked_add virt (umul pages PAGE_SIZE) of
          None \<Rightarrow> do { m \<leftarrow> release_all m frames; refuse m s FAIL_VA_OVERFLOW }
        | Some hi \<Rightarrow>
            if overlaps rs virt hi then do { m \<leftarrow> release_all m frames; refuse m s FAIL_VMA_OVERLAP }
            else let (ok, m) = map_run e m (page_table_root s) flags []
                                 (map (\<lambda>i. (page_addr virt i, frames ! i)) [0..<pages]) in
              if \<not> ok then do { m \<leftarrow> release_all m frames; refuse m s FAIL_PTE_INSTALL }
              else do { pv \<leftarrow> pv_from frames;
                        Some (True, m, put_region s slot
                          ((new_region virt hi 0 flags True (prot_of flags) MAP_SHARED 0)
                             \<lparr>r_lazy_pages := pv, r_lazy_count := pages\<rparr>)) }))"

definition map_lazy_file_with ::
  "machine \<Rightarrow> address_space \<Rightarrow> usize \<Rightarrow> usize \<Rightarrow> u64 \<Rightarrow> usize \<Rightarrow> usize \<Rightarrow> usize \<Rightarrow> u32 \<Rightarrow>
   bool \<times> machine \<times> address_space" where
  "map_lazy_file_with m s virt sz flags cap off file_len mflags =
    (if sz = 0 then (False, note_fail m FAIL_ZERO_SIZE, s)
     else if \<not> is_file_backed cap then (False, note_fail m FAIL_BAD_FILECAP, s)
     else let (rs, slot) = free_slot (regions s); s = s\<lparr>regions := rs\<rparr>;
              virt = page_down virt; pages = page_count sz in
       (case checked_add virt (umul pages PAGE_SIZE) of
          None \<Rightarrow> (False, note_fail m FAIL_VA_OVERFLOW, s)
        | Some hi \<Rightarrow>
            if overlaps rs virt hi then (False, note_fail m FAIL_VMA_OVERLAP, s)
            else (True, file_retain m cap, put_region s slot
                   ((new_region virt hi 0 flags True (prot_of flags) mflags cap)
                      \<lparr>r_file_off := off, r_file_len := file_len\<rparr>))))"

definition map_lazy_file ::
  "machine \<Rightarrow> address_space \<Rightarrow> usize \<Rightarrow> usize \<Rightarrow> u64 \<Rightarrow> usize \<Rightarrow> usize \<Rightarrow> usize \<Rightarrow> bool \<times> machine \<times> address_space" where
  "map_lazy_file m s virt sz flags cap off file_len =
     map_lazy_file_with m s virt sz flags cap off file_len MAP_PRIVATE"

definition map_private_file ::
  "machine \<Rightarrow> address_space \<Rightarrow> usize \<Rightarrow> usize \<Rightarrow> u64 \<Rightarrow> usize \<Rightarrow> usize \<Rightarrow> bool \<times> machine \<times> address_space" where
  "map_private_file m s virt sz flags cap off =
     map_lazy_file_with m s virt sz flags cap off (page_up sz) (MAP_PRIVATE OR MAP_EOF_SIGBUS)"

definition map_shared_file ::
  "machine \<Rightarrow> address_space \<Rightarrow> usize \<Rightarrow> usize \<Rightarrow> u64 \<Rightarrow> usize \<Rightarrow> usize \<Rightarrow> bool \<times> machine \<times> address_space" where
  "map_shared_file m s virt sz flags cap off =
     map_lazy_file_with m s virt sz flags cap off (page_up sz) (MAP_SHARED OR MAP_EOF_SIGBUS)"

subsection \<open>Page faults\<close>

datatype fault = Handled | Segv | Bus

record file_fault =
  ff_cap :: usize
  ff_page_va :: usize
  ff_pos :: usize
  ff_len :: usize
  ff_window :: usize
  ff_eof_sigbus :: bool
  ff_key :: usize
  ff_write :: bool

datatype fault_plan = Done fault | Read file_fault

definition FAULT_AROUND_PAGES :: nat where "FAULT_AROUND_PAGES = 16"

definition covers :: "usize \<Rightarrow> vma_region option \<Rightarrow> bool" where
  "covers va v \<longleftrightarrow> (case v of None \<Rightarrow> False | Some r \<Rightarrow> r_start r \<le> va \<and> va < r_end r)"

definition find_idx :: "address_space \<Rightarrow> usize \<Rightarrow> nat option" where
  "find_idx s va = position (covers va) (regions s)"

definition region_at :: "address_space \<Rightarrow> nat \<Rightarrow> vma_region" where
  "region_at s i = the (regions s ! i)"

type_synonym plan_result = "(fault_plan \<times> machine \<times> address_space) option"

text \<open>A fault on a page that is already backed: the first write to a clean page of a shared
  file mapping, a copy-on-write promotion, a concurrent fault, or a violation.\<close>

definition cow_promote ::
  "env \<Rightarrow> machine \<Rightarrow> address_space \<Rightarrow> nat \<Rightarrow> usize \<Rightarrow> usize \<Rightarrow> usize \<Rightarrow> plan_result" where
  "cow_promote e m s idx page_va page_idx lazy_phys =
    (let r = region_at s idx; root = page_table_root s in
     if pr_get (refs m) lazy_phys \<le> 1 then
       let (ok, m) = map_page e m root page_va lazy_phys (r_flags r) in
       if \<not> ok then Some (Done Segv, m, s)
       else Some (Done Handled, tlb_flush_local_page m page_va, put_region s idx (set_written r page_idx True))
     else
       do { (got, m) \<leftarrow> m_alloc e m 0;
            (case got of
               None \<Rightarrow> Some (Done Segv, m, s)
             | Some new_phys \<Rightarrow>
                 let m = copy_page m lazy_phys new_phys;
                     m = tlb_flush_range (unmap_page m root page_va) root page_va 1;
                     (ok, m) = map_page e m root page_va new_phys (r_flags r) in
                 if \<not> ok then do { m \<leftarrow> m_free m new_phys 0; Some (Done Segv, m, s) }
                 else do { pv \<leftarrow> pv_put (r_lazy_pages r) page_idx new_phys;
                           Some (Done Handled, m\<lparr>refs := pr_dec (refs m) lazy_phys\<rparr>,
                             put_region s idx (set_written (r\<lparr>r_lazy_pages := pv\<rparr>) page_idx True)) }) })"

definition present_fault ::
  "env \<Rightarrow> machine \<Rightarrow> address_space \<Rightarrow> nat \<Rightarrow> usize \<Rightarrow> usize \<Rightarrow> usize \<Rightarrow> bool \<Rightarrow> plan_result" where
  "present_fault e m s idx page_va page_idx lazy_phys is_write =
    (let r = region_at s idx; root = page_table_root s in
     if is_write \<and> is_shared r \<and> is_file_backed (r_file_cap r) \<and> contains (r_flags r) WRITABLE
        \<and> clean_file_page r page_idx then
       let m = (case cache_pgoff r page_idx of None \<Rightarrow> m
                | Some pg \<Rightarrow> snd (pc_mark_dirty m (file_key e (r_file_cap r)) pg lazy_phys));
           (ok, m) = map_page e m root page_va lazy_phys (r_flags r) in
       if \<not> ok then Some (Done Segv, m, s)
       else Some (Done Handled, tlb_flush_local_page m page_va, put_region s idx (set_written r page_idx True))
     else
       let clean_write = (is_write \<and> contains (r_flags r) WRITABLE \<and> clean_file_page r page_idx) in
       if \<not> (is_write \<and> (r_cow r \<or> clean_write)) then
         Some (Done (if \<not> is_write \<or> r_prot r AND PROT_WRITE \<noteq> 0 then Handled else Segv), m, s)
       else cow_promote e m s idx page_va page_idx lazy_phys)"

text \<open>An absent page of a file mapping: the cached frame and those that follow it, or the read
  the caller has to do.\<close>

function cached_around ::
  "env \<Rightarrow> machine \<Rightarrow> usize \<Rightarrow> vma_region \<Rightarrow> usize \<Rightarrow> bool \<Rightarrow> usize \<Rightarrow> nat \<Rightarrow> (machine \<times> vma_region) option" where
  "cached_around e m root r key exec page_idx i =
    (if i < FAULT_AROUND_PAGES \<and> page_idx + i < vma_pages r then
       do { p \<leftarrow> lazy_at r (page_idx + i);
            (if p \<noteq> 0 then Some (m, r)
             else case cache_pgoff r (page_idx + i) of
               None \<Rightarrow> Some (m, r)
             | Some pg \<Rightarrow>
                 (case pc_lookup m key pg exec of
                    (None, m) \<Rightarrow> Some (m, r)
                  | (Some phys, m) \<Rightarrow>
                      do { (ok, m, r) \<leftarrow> install_cached e m root r (page_idx + i) phys False;
                           (if \<not> ok then do { m \<leftarrow> m_unref m phys; Some (m, r) }
                            else cached_around e m root r key exec page_idx (i + 1)) })) }
     else Some (m, r))"
  by pat_completeness auto
termination by (relation "measure (\<lambda>(e, m, root, r, key, exec, page_idx, i). FAULT_AROUND_PAGES - i)") auto

declare cached_around.simps [simp del]

function absent_window :: "vma_region \<Rightarrow> usize \<Rightarrow> nat \<Rightarrow> nat option" where
  "absent_window r page_idx n =
    (if n < FAULT_AROUND_PAGES \<and> page_idx + n < vma_pages r then
       do { p \<leftarrow> lazy_at r (page_idx + n);
            (if p = 0 then absent_window r page_idx (n + 1) else Some n) }
     else Some n)"
  by pat_completeness auto
termination by (relation "measure (\<lambda>(r, page_idx, n). FAULT_AROUND_PAGES - n)") auto

declare absent_window.simps [simp del]

definition read_plan :: "machine \<Rightarrow> address_space \<Rightarrow> vma_region \<Rightarrow> usize \<Rightarrow> usize \<Rightarrow> usize \<Rightarrow> bool \<Rightarrow> plan_result" where
  "read_plan m s r page_va page_idx key is_write =
    do { n \<leftarrow> absent_window r page_idx 1;
         (let win_off = umul page_idx PAGE_SIZE in
          Some (Read \<lparr>ff_cap = r_file_cap r, ff_page_va = page_va, ff_pos = uadd (r_file_off r) win_off,
                      ff_len = (if win_off < r_file_len r then min (r_file_len r - win_off) (n * PAGE_SIZE) else 0),
                      ff_window = n, ff_eof_sigbus = (r_map_flags r AND MAP_EOF_SIGBUS \<noteq> 0),
                      ff_key = key, ff_write = is_write\<rparr>, m, s)) }"

definition absent_file_fault ::
  "env \<Rightarrow> machine \<Rightarrow> address_space \<Rightarrow> nat \<Rightarrow> usize \<Rightarrow> usize \<Rightarrow> bool \<Rightarrow> plan_result" where
  "absent_file_fault e m s idx page_va page_idx is_write =
    (let r = region_at s idx; root = page_table_root s; exec = contains (r_flags r) EXECUTE;
         key = (case cache_pgoff r page_idx of None \<Rightarrow> 0 | Some _ \<Rightarrow> file_key e (r_file_cap r)) in
     if key = 0 then read_plan m s r page_va page_idx key is_write
     else
       let pg0 = the (cache_pgoff r page_idx) in
       (case pc_lookup m key pg0 exec of
          (None, m) \<Rightarrow> read_plan m s r page_va page_idx key is_write
        | (Some phys, m) \<Rightarrow>
            let shared_w = (is_write \<and> is_shared r \<and> contains (r_flags r) WRITABLE);
                m = (if shared_w then snd (pc_mark_dirty m key pg0 phys) else m) in
            do { (ok, m, r) \<leftarrow> install_cached e m root r page_idx phys shared_w;
                 (if \<not> ok then
                    do { m \<leftarrow> m_unref m phys; Some (Done Segv, m, put_region s idx r) }
                  else
                    do { (m, r) \<leftarrow> cached_around e m root r key exec page_idx 1;
                         Some (Done Handled, m, put_region s idx r) }) }))"

definition anon_fault ::
  "env \<Rightarrow> machine \<Rightarrow> address_space \<Rightarrow> nat \<Rightarrow> usize \<Rightarrow> usize \<Rightarrow> bool \<Rightarrow> plan_result" where
  "anon_fault e m s idx page_va page_idx is_write =
    (let r = region_at s idx; root = page_table_root s in
     if is_write \<and> r_prot r AND PROT_WRITE = 0 \<and> \<not> contains (r_flags r) WRITABLE
     then Some (Done Segv, m, s)
     else
       do { (got, m) \<leftarrow> m_alloc e m 0;
            (case got of
               None \<Rightarrow> Some (Done Segv, m, s)
             | Some phys \<Rightarrow>
                 let m = zero_ram m phys PAGE_SIZE;
                     (ok, m) = map_page e m root page_va phys (r_flags r) in
                 if \<not> ok then do { m \<leftarrow> m_free m phys 0; Some (Done Segv, m, s) }
                 else
                   let pv = (if pv_len (r_lazy_pages r) \<le> page_idx
                             then pv_resize (r_lazy_pages r) (page_idx + 1) else r_lazy_pages r) in
                   do { pv \<leftarrow> pv_put pv page_idx phys;
                        Some (Done Handled, m, put_region s idx
                          (r\<lparr>r_lazy_pages := pv, r_lazy_count := uadd (r_lazy_count r) 1\<rparr>)) }) })"

definition plan_user_page_fault :: "env \<Rightarrow> machine \<Rightarrow> address_space \<Rightarrow> usize \<Rightarrow> bool \<Rightarrow> plan_result" where
  "plan_user_page_fault e m s fault_va is_write =
    (let page_va = page_down fault_va in
     case find_idx s fault_va of
       None \<Rightarrow> Some (Done Segv, m, s)
     | Some idx \<Rightarrow>
         let r = region_at s idx in
         if \<not> r_lazy r then Some (Done Segv, m, s)
         else if r_prot r AND PROT_ACCESS = 0 then Some (Done Segv, m, s)
         else let page_idx = usub page_va (r_start r) div PAGE_SIZE in
           do { lazy_phys \<leftarrow> lazy_at r page_idx;
                (if lazy_phys \<noteq> 0 then present_fault e m s idx page_va page_idx lazy_phys is_write
                 else if is_file_backed (r_file_cap r) then absent_file_fault e m s idx page_va page_idx is_write
                 else anon_fault e m s idx page_va page_idx is_write) })"

subsection \<open>Installing what a file fault read\<close>

fun install_pages ::
  "env \<Rightarrow> machine \<Rightarrow> usize \<Rightarrow> vma_region \<Rightarrow> file_fault \<Rightarrow> u8 list \<Rightarrow> usize \<Rightarrow> usize \<Rightarrow> nat list \<Rightarrow>
   (fault option \<times> machine \<times> vma_region) option" where
  "install_pages e m root r p data valid page_idx [] = Some (None, m, r)"
| "install_pages e m root r p data valid page_idx (i # is) =
    (let idx = page_idx + i; failed = (if i > 0 then Handled else Segv) in
     if vma_pages r \<le> idx then Some (None, m, r)
     else do { cur \<leftarrow> pv_index (r_lazy_pages r) idx;
       (if cur \<noteq> 0 then install_pages e m root r p data valid page_idx is
        else
          let copy_start = i * PAGE_SIZE;
              cacheable = (copy_start + PAGE_SIZE \<le> valid \<or> ff_eof_sigbus p \<and> copy_start < valid);
              pgoff = (if ff_key p \<noteq> 0 \<and> cacheable then cache_pgoff r idx else None);
              (hit, m) = (case pgoff of None \<Rightarrow> (None, m)
                          | Some pg \<Rightarrow> pc_lookup m (ff_key p) pg (contains (r_flags r) EXECUTE)) in
          (case hit of
             Some phys \<Rightarrow>
               let shared_w = (is_shared r \<and> i = 0 \<and> ff_write p \<and> contains (r_flags r) WRITABLE);
                   m = (if shared_w then snd (pc_mark_dirty m (ff_key p) (the pgoff) phys) else m) in
               do { (ok, m, r) \<leftarrow> install_cached e m root r idx phys shared_w;
                    (if \<not> ok then do { m \<leftarrow> m_unref m phys; Some (Some failed, m, r) }
                     else install_pages e m root r p data valid page_idx is) }
           | None \<Rightarrow>
               if is_shared r \<and> ff_key p \<noteq> 0 then
                 if i = 0 then Some (Some Handled, m, r) else install_pages e m root r p data valid page_idx is
               else
                 do { (got, m) \<leftarrow> m_alloc e m 0;
                      (case got of
                         None \<Rightarrow> Some (Some failed, m, r)
                       | Some phys \<Rightarrow>
                           let m = zero_ram m phys PAGE_SIZE;
                               m = (if copy_start < valid
                                    then write_ram m phys (take (min (valid - copy_start) PAGE_SIZE) (drop copy_start data))
                                    else m);
                               r = set_written r idx False;
                               (ok, m) = map_page e m root (page_addr (r_start r) idx) phys
                                           (install_flags r idx (r_flags r)) in
                           if \<not> ok then do { m \<leftarrow> m_unref m phys; Some (Some failed, m, r) }
                           else
                             do { pv \<leftarrow> pv_put (r_lazy_pages r) idx phys;
                                  install_pages e m root
                                    (r\<lparr>r_lazy_pages := pv, r_lazy_count := uadd (r_lazy_count r) 1\<rparr>)
                                    p data valid page_idx is }) })) })"

text \<open>How many bytes of the read are valid and how many pages to populate, or the fault the
  read's result already is.\<close>

definition read_extent :: "file_fault \<Rightarrow> u8 list \<Rightarrow> int \<Rightarrow> fault + usize \<times> usize" where
  "read_extent p data got =
    (if ff_eof_sigbus p then
       if got < 0 then Inl Bus
       else let valid = min (min (nat got) (ff_len p)) (length data) in
         if valid = 0 then Inl Bus
         else Inr (valid, min ((valid + PAGE_SIZE - 1) div PAGE_SIZE) (ff_window p))
     else if ff_len p \<noteq> 0 \<and> got \<noteq> int (ff_len p) then Inl Segv
     else Inr (min (ff_len p) (length data), ff_window p))"

definition install_file_fault ::
  "env \<Rightarrow> machine \<Rightarrow> address_space \<Rightarrow> file_fault \<Rightarrow> u8 list \<Rightarrow> int \<Rightarrow> (fault \<times> machine \<times> address_space) option" where
  "install_file_fault e m s p data got =
    (case find_idx s (ff_page_va p) of
       None \<Rightarrow> Some (Handled, m, s)
     | Some idx \<Rightarrow>
         let r = region_at s idx; page_idx = usub (ff_page_va p) (r_start r) div PAGE_SIZE in
         if \<not> r_lazy r \<or> r_file_cap r \<noteq> ff_cap p
            \<or> uadd (r_file_off r) (umul page_idx PAGE_SIZE) \<noteq> ff_pos p
            \<or> (r_map_flags r AND MAP_EOF_SIGBUS \<noteq> 0) \<noteq> ff_eof_sigbus p
         then Some (Handled, m, s)
         else do { cur \<leftarrow> lazy_at r page_idx;
           (if cur \<noteq> 0 then Some (Handled, m, s)
            else case read_extent p data got of
              Inl f \<Rightarrow> Some (f, m, s)
            | Inr (valid, pages) \<Rightarrow>
                let n = min (page_idx + pages) (vma_pages r);
                    r = (if pv_len (r_lazy_pages r) < n
                         then r\<lparr>r_lazy_pages := pv_resize (r_lazy_pages r) n\<rparr> else r) in
                do { (res, m, r) \<leftarrow> install_pages e m (page_table_root s) r p data valid page_idx [0..<pages];
                     Some (case res of None \<Rightarrow> Handled | Some f \<Rightarrow> f, m, put_region s idx r) }) })"

definition user_page_fault ::
  "env \<Rightarrow> machine \<Rightarrow> address_space \<Rightarrow> usize \<Rightarrow> bool \<Rightarrow> (fault \<times> machine \<times> address_space) option" where
  "user_page_fault e m s fault_va is_write =
    do { (plan, m, s) \<leftarrow> plan_user_page_fault e m s fault_va is_write;
         (case plan of
            Done f \<Rightarrow> Some (f, m, s)
          | Read p \<Rightarrow>
              let (got, bounce) = (if ff_len p = 0 then (0, []) else file_read_hook e (ff_cap p) (ff_pos p) (ff_len p))
              in install_file_fault e m s p bounce got) }"

definition handle_user_page_fault ::
  "env \<Rightarrow> machine \<Rightarrow> address_space \<Rightarrow> usize \<Rightarrow> bool \<Rightarrow> (bool \<times> machine \<times> address_space) option" where
  "handle_user_page_fault e m s fault_va is_write =
    map_option (\<lambda>(f, m, s). (f = Handled, m, s)) (user_page_fault e m s fault_va is_write)"

subsection \<open>Translation and kernel access to user memory\<close>

definition find_region :: "address_space \<Rightarrow> usize \<Rightarrow> vma_region option" where
  "find_region s va = map_option (region_at s) (find_idx s va)"

definition virt_to_phys :: "address_space \<Rightarrow> usize \<Rightarrow> usize option option" where
  "virt_to_phys s va =
    (case find_region s va of
       None \<Rightarrow> Some None
     | Some r \<Rightarrow>
         let off = usub va (r_start r) in
         if r_lazy r then
           map_option (\<lambda>p. if p = 0 then None else Some (uadd p (off mod PAGE_SIZE))) (lazy_at r (off div PAGE_SIZE))
         else Some (Some (uadd (r_phys r) off)))"

definition is_clean_writable_file_page :: "address_space \<Rightarrow> usize \<Rightarrow> bool option" where
  "is_clean_writable_file_page s va =
    (case find_region s va of
       None \<Rightarrow> Some False
     | Some r \<Rightarrow>
         let idx = usub va (r_start r) div PAGE_SIZE in
         if \<not> contains (r_flags r) WRITABLE then Some False
         else map_option (\<lambda>p. p \<noteq> 0 \<and> clean_file_page r idx) (lazy_at r idx))"

definition is_shared_readonly_file_page :: "machine \<Rightarrow> address_space \<Rightarrow> usize \<Rightarrow> bool option" where
  "is_shared_readonly_file_page m s va =
    (case find_region s va of
       None \<Rightarrow> Some False
     | Some r \<Rightarrow>
         map_option (\<lambda>phys. r_lazy r \<and> is_file_backed (r_file_cap r) \<and> \<not> contains (r_flags r) WRITABLE
                        \<and> phys \<noteq> 0 \<and> 1 < pr_get (refs m) phys)
           (lazy_at r (usub va (r_start r) div PAGE_SIZE)))"

definition is_absent_file_page :: "address_space \<Rightarrow> usize \<Rightarrow> bool option" where
  "is_absent_file_page s va =
    (case find_region s va of
       None \<Rightarrow> Some False
     | Some r \<Rightarrow>
         if r_lazy r \<and> is_file_backed (r_file_cap r)
         then map_option (\<lambda>p. p = 0) (lazy_at r (usub va (r_start r) div PAGE_SIZE))
         else Some False)"

function writable_from :: "address_space \<Rightarrow> usize \<Rightarrow> usize \<Rightarrow> bool" where
  "writable_from s va hi =
    (if va < hi then
       (case find_region s va of
          None \<Rightarrow> False
        | Some r \<Rightarrow>
            if r_prot r AND PROT_WRITE = 0 \<and> \<not> contains (r_flags r) WRITABLE then False
            else writable_from s (r_end r) hi)
     else True)"
  by pat_completeness auto
termination
proof (relation "measure (\<lambda>(s, va, hi). hi - va)", goal_cases)
  case (2 s va hi r)
  then have "va < r_end r"
    by (auto simp: find_region_def find_idx_def covers_def region_at_def dest!: position_SomeD split: option.splits)
  then show ?case using 2 by auto
qed simp

declare writable_from.simps [simp del]

definition range_writable :: "address_space \<Rightarrow> usize \<Rightarrow> usize \<Rightarrow> bool" where
  "range_writable s addr n =
    (if n = 0 then True else case checked_add addr n of None \<Rightarrow> False | Some hi \<Rightarrow> writable_from s addr hi)"

definition unshare_cow_page ::
  "env \<Rightarrow> machine \<Rightarrow> address_space \<Rightarrow> usize \<Rightarrow> bool \<Rightarrow> (bool \<times> machine \<times> address_space) option" where
  "unshare_cow_page e m s va only_writable =
    do { shared \<leftarrow> (case find_region s va of
           None \<Rightarrow> Some False
         | Some r \<Rightarrow>
             if r_lazy r \<and> r_cow r \<and> (\<not> only_writable \<or> contains (r_flags r) WRITABLE)
             then map_option (\<lambda>phys. phys \<noteq> 0 \<and> 1 < pr_get (refs m) phys)
                    (lazy_at r (usub (page_down va) (r_start r) div PAGE_SIZE))
             else Some False);
         (if \<not> shared then Some (True, m, s) else handle_user_page_fault e m s va True) }"

definition page_list :: "usize \<Rightarrow> usize \<Rightarrow> usize list" where
  "page_list lo hi = map (page_addr lo) [0..<(hi - lo) div PAGE_SIZE]"

fun prefault_pages :: "env \<Rightarrow> bool \<Rightarrow> machine \<Rightarrow> address_space \<Rightarrow> usize list \<Rightarrow>
    (usize option \<times> machine \<times> address_space) option" where
  "prefault_pages e ro m s [] = Some (None, m, s)"
| "prefault_pages e ro m s (va # vas) =
    do { tr \<leftarrow> virt_to_phys s va;
         (case tr of
            None \<Rightarrow>
              do { absent \<leftarrow> is_absent_file_page s va;
                   (if absent then Some (Some va, m, s)
                    else do { (_, m, s) \<leftarrow> handle_user_page_fault e m s va False; prefault_pages e ro m s vas }) }
          | Some _ \<Rightarrow>
              if ro then prefault_pages e ro m s vas
              else do { (_, m, s) \<leftarrow> unshare_cow_page e m s va True;
                        clean \<leftarrow> is_clean_writable_file_page s va;
                        (if clean then do { (_, m, s) \<leftarrow> handle_user_page_fault e m s va True;
                                            prefault_pages e ro m s vas }
                         else prefault_pages e ro m s vas) }) }"

definition prefault_range ::
  "env \<Rightarrow> machine \<Rightarrow> address_space \<Rightarrow> usize \<Rightarrow> usize \<Rightarrow> (usize option \<times> machine \<times> address_space) option" where
  "prefault_range e m s addr n =
    (if n = 0 then Some (None, m, s)
     else prefault_pages e False m s (page_list (page_down addr) (page_up (uadd addr n))))"

definition prefault_range_ro ::
  "env \<Rightarrow> machine \<Rightarrow> address_space \<Rightarrow> usize \<Rightarrow> usize \<Rightarrow> (usize option \<times> machine \<times> address_space) option" where
  "prefault_range_ro e m s addr n =
    (if n = 0 then Some (None, m, s)
     else prefault_pages e True m s (page_list (page_down addr) (page_up (uadd addr n))))"

end
