(* ===== verification/Vmm_Range.thy ===== *)
theory Vmm_Range
  imports Vmm
begin

text \<open>
  The operations of \<open>AddressSpace\<close> (\<open>mm/src/vmm.rs\<close>) on address ranges: splitting a region,
  \<open>munmap\<close>, \<open>madvise(MADV_DONTNEED)\<close>, \<open>mprotect\<close>, \<open>mremap\<close> in place, \<open>brk\<close>, teardown, the
  kernel's copies from and to user memory, and the memory accounting behind
  \<open>/proc/<pid>/status\<close> and \<open>smaps\<close>.
\<close>

subsection \<open>Accounting\<close>

definition live_regions :: "address_space \<Rightarrow> vma_region list" where
  "live_regions s = List.map_filter (\<lambda>x. x) (regions s)"

definition is_stack_vma :: "address_space \<Rightarrow> vma_region \<Rightarrow> bool" where
  "is_stack_vma s r \<longleftrightarrow> stack_top s \<noteq> 0 \<and> r_start r < stack_top s \<and> stack_top s \<le> r_end r"

definition totals :: "address_space \<Rightarrow> usize \<times> usize" where
  "totals s = (sum_list (map resident_pages (live_regions s)), sum_list (map vma_pages (live_regions s)))"

definition update_hiwater :: "address_space \<Rightarrow> address_space" where
  "update_hiwater s =
    (let (rss, span) = totals s in
     s\<lparr>hiwater_rss := max (hiwater_rss s) rss, hiwater_vm := max (hiwater_vm s) span\<rparr>)"

record mem_counters =
  mc_size :: usize
  mc_rss_anon :: usize
  mc_rss_file :: usize
  mc_rss_shmem :: usize
  mc_data :: usize
  mc_stk :: usize
  mc_exe :: usize
  mc_hwm :: usize
  mc_peak :: usize

definition mc_rss :: "mem_counters \<Rightarrow> usize" where
  "mc_rss c = mc_rss_anon c + mc_rss_file c + mc_rss_shmem c"

definition count_region :: "address_space \<Rightarrow> vma_region \<Rightarrow> mem_counters \<Rightarrow> mem_counters" where
  "count_region s r c =
    (let span = vma_pages r;
         c = c\<lparr>mc_size := mc_size c + span\<rparr>;
         c = (if is_stack_vma s r then c\<lparr>mc_stk := mc_stk c + span\<rparr>
              else if r_map_flags r AND MAP_SHARED = 0 \<and> r_prot r AND PROT_WRITE \<noteq> 0 \<and> r_file_cap r \<noteq> DEVICE_CAP
              then c\<lparr>mc_data := mc_data c + span\<rparr> else c);
         c = (if r_prot r AND PROT_EXEC \<noteq> 0 \<and> r_prot r AND PROT_WRITE = 0
              then c\<lparr>mc_exe := mc_exe c + span\<rparr> else c)
     in case rss_kind_of r of
          RssNone \<Rightarrow> c
        | RssAnon \<Rightarrow> c\<lparr>mc_rss_anon := mc_rss_anon c + resident_pages r\<rparr>
        | RssShmem \<Rightarrow> c\<lparr>mc_rss_shmem := mc_rss_shmem c + resident_pages r\<rparr>
        | RssFile \<Rightarrow> let (f, a) = file_anon_split r
                    in c\<lparr>mc_rss_file := mc_rss_file c + f, mc_rss_anon := mc_rss_anon c + a\<rparr>)"

definition mem_counters_of :: "address_space \<Rightarrow> mem_counters" where
  "mem_counters_of s =
    (let c = fold (count_region s) (live_regions s)
               \<lparr>mc_size = 0, mc_rss_anon = 0, mc_rss_file = 0, mc_rss_shmem = 0, mc_data = 0,
                mc_stk = 0, mc_exe = 0, mc_hwm = 0, mc_peak = 0\<rparr>
     in c\<lparr>mc_hwm := max (hiwater_rss s) (mc_rss c), mc_peak := max (hiwater_vm s) (mc_size c)\<rparr>)"

record vma_stat =
  st_start :: usize
  st_end :: usize
  st_prot :: u32
  st_shared :: bool
  st_file_backed :: bool
  st_file_off :: usize
  st_is_stack :: bool
  st_is_heap :: bool
  st_rss :: usize
  st_anon :: usize
  st_shared_pages :: usize
  st_pss_bytes :: usize

definition owners :: "machine \<Rightarrow> usize \<Rightarrow> nat" where
  "owners m phys = max (pr_get (refs m) phys) 1"

definition region_stat :: "machine \<Rightarrow> address_space \<Rightarrow> vma_region \<Rightarrow> vma_stat" where
  "region_stat m s r =
    (let kind = rss_kind_of r; counted = kind \<noteq> RssNone;
         rss = (if counted then resident_pages r else 0);
         frames = (if counted \<and> r_lazy r then map snd (pv_present (r_lazy_pages r)) else []) in
     \<lparr>st_start = r_start r, st_end = r_end r, st_prot = r_prot r,
      st_shared = (r_map_flags r AND MAP_SHARED \<noteq> 0),
      st_file_backed = (is_file_backed (r_file_cap r) \<or> r_map_flags r AND MAP_FILE_COPY \<noteq> 0),
      st_file_off = r_file_off r, st_is_stack = is_stack_vma s r,
      st_is_heap = (heap_start s \<noteq> 0 \<and> r_start r = heap_start s),
      st_rss = rss,
      st_anon = (case kind of RssAnon \<Rightarrow> rss | RssFile \<Rightarrow> snd (file_anon_split r) | _ \<Rightarrow> 0),
      st_shared_pages = length (filter (\<lambda>p. 1 < owners m p) frames),
      st_pss_bytes = (if counted \<and> \<not> r_lazy r then rss * PAGE_SIZE
                      else sum_list (map (\<lambda>p. PAGE_SIZE div owners m p) frames))\<rparr>)"

definition vma_census :: "machine \<Rightarrow> address_space \<Rightarrow> vma_stat list" where
  "vma_census m s = map (region_stat m s) (sort_key r_start (live_regions s))"

definition mark_file_copy :: "address_space \<Rightarrow> usize \<Rightarrow> address_space" where
  "mark_file_copy s virt =
    (let virt = page_down virt in
     case position (\<lambda>v. case v of None \<Rightarrow> False | Some r \<Rightarrow> r_start r = virt) (regions s) of
       None \<Rightarrow> s
     | Some i \<Rightarrow> let r = region_at s i in
         put_region s i (r\<lparr>r_map_flags := (r_map_flags r AND NOT MAP_ANONYMOUS) OR MAP_FILE_COPY\<rparr>))"

definition set_prot :: "address_space \<Rightarrow> usize \<Rightarrow> u32 \<Rightarrow> address_space" where
  "set_prot s virt prot =
    (let virt = page_down virt in
     case position (\<lambda>v. case v of None \<Rightarrow> False | Some r \<Rightarrow> r_start r = virt) (regions s) of
       None \<Rightarrow> s
     | Some i \<Rightarrow> put_region s i ((region_at s i)\<lparr>r_prot := prot\<rparr>))"

subsection \<open>Eager blocks\<close>

fun tail_order :: "nat \<Rightarrow> nat \<Rightarrow> nat \<Rightarrow> nat" where
  "tail_order npages i 0 = 0"
| "tail_order npages i (Suc k) = (if i + 2 ^ Suc k > npages then tail_order npages i k else Suc k)"

function eager_tail :: "machine \<Rightarrow> usize \<Rightarrow> nat \<Rightarrow> nat \<Rightarrow> machine option" where
  "eager_tail m phys npages i =
    (if i < npages then
       let k = tail_order npages i (trailing_zeros i) in
       Option.bind (m_free m (page_addr phys i) k) (\<lambda>m'. eager_tail m' phys npages (i + 2 ^ k))
     else Some m)"
  by pat_completeness auto
termination by (relation "measure (\<lambda>(m, phys, npages, i). npages - i)") (auto intro!: diff_less_mono2)

declare eager_tail.simps [simp del]

definition free_eager_tail :: "machine \<Rightarrow> usize \<Rightarrow> nat \<Rightarrow> machine option" where
  "free_eager_tail m phys n =
    (if phys = 0 \<or> n = 0 then Some m else eager_tail m phys (2 ^ pages_to_order n) n)"

text \<open>An eager region becomes per-page tracked; its block's rounding tail goes back.\<close>

definition to_lazy :: "machine \<Rightarrow> vma_region \<Rightarrow> (machine \<times> vma_region) option" where
  "to_lazy m r =
    (if r_lazy r then Some (m, r)
     else let n = vma_pages r in
       do { m \<leftarrow> free_eager_tail m (r_phys r) n;
            pv \<leftarrow> pv_from (map (page_addr (r_phys r)) [0..<n]);
            Some (m, r\<lparr>r_lazy := True, r_phys := 0, r_lazy_pages := pv, r_lazy_count := n\<rparr>) })"

subsection \<open>Splitting\<close>

definition written_tail :: "vma_region \<Rightarrow> nat \<Rightarrow> u64 list" where
  "written_tail r at =
    fold (\<lambda>i tw. if is_written r i then
            let k = i - at; tw = (if length tw \<le> k div 64 then vec_resize 0 (k div 64 + 1) tw else tw)
            in tw[k div 64 := word_set (tw ! (k div 64)) (k mod 64)]
          else tw) [at..<length (r_written r) * 64] []"

definition written_head :: "vma_region \<Rightarrow> nat \<Rightarrow> u64 list" where
  "written_head r at =
    (let w = r_written r in
     if at div 64 < length w then
       if at mod 64 = 0 then take (at div 64) w
       else let w = take (at div 64 + 1) w in w[at div 64 := w ! (at div 64) AND mask (at mod 64)]
     else w)"

definition split_region :: "vma_region \<Rightarrow> usize \<Rightarrow> (vma_region \<times> vma_region) option" where
  "split_region r boundary =
    (let at = usub boundary (r_start r) div PAGE_SIZE; bytes = umul at PAGE_SIZE in
     do { (hd, tl) \<leftarrow> (if at < pv_len (r_lazy_pages r) then pv_split_off (r_lazy_pages r) at
                        else Some (r_lazy_pages r, pv_new));
          Some (r\<lparr>r_end := boundary, r_lazy_pages := hd, r_lazy_count := pv_count_present hd,
                  r_file_len := (if is_file_backed (r_file_cap r) \<and> bytes < r_file_len r then bytes else r_file_len r),
                  r_written := written_head r at\<rparr>,
                r\<lparr>r_start := boundary, r_phys := 0, r_lazy := True, r_lazy_pages := tl,
                  r_lazy_count := pv_count_present tl, r_file_off := uadd (r_file_off r) bytes,
                  r_file_len := r_file_len r - bytes, r_written := written_tail r at\<rparr>) })"

definition add_region :: "vma_region option list \<Rightarrow> vma_region \<Rightarrow> vma_region option list" where
  "add_region rs r = (case position Option.is_none rs of Some i \<Rightarrow> rs[i := Some r] | None \<Rightarrow> rs @ [Some r])"

definition inside :: "usize \<Rightarrow> vma_region option \<Rightarrow> bool" where
  "inside boundary v \<longleftrightarrow> (case v of None \<Rightarrow> False | Some r \<Rightarrow> r_start r < boundary \<and> boundary < r_end r)"

definition split_at :: "machine \<Rightarrow> address_space \<Rightarrow> usize \<Rightarrow> (bool \<times> machine \<times> address_space) option" where
  "split_at m s boundary =
    (let boundary = page_down boundary in
     case position (inside boundary) (regions s) of
       None \<Rightarrow> Some (False, m, s)
     | Some idx \<Rightarrow>
         let r = region_at s idx in
         if r_file_cap r = DEVICE_CAP then Some (False, m, s)
         else
           do { (m, r) \<leftarrow> to_lazy m r;
                (left, right) \<leftarrow> split_region r boundary;
                (let m = (if is_file_backed (r_file_cap r) then file_retain m (r_file_cap r) else m) in
                 Some (True, m, s\<lparr>regions := add_region ((regions s)[idx := Some left]) right\<rparr>)) })"

subsection \<open>Unmapping\<close>

definition region_run :: "vma_region \<Rightarrow> usize list" where
  "region_run r = map (page_addr (r_start r)) [0..<vma_pages r]"

definition wholly_in :: "usize \<Rightarrow> usize \<Rightarrow> vma_region \<Rightarrow> bool" where
  "wholly_in lo hi r \<longleftrightarrow> lo \<le> r_start r \<and> r_end r \<le> hi \<and> r_start r < r_end r"

text \<open>Per slot: the entries removed, the frames and blocks to release after the flush.\<close>

fun unmap_slots :: "machine \<Rightarrow> usize \<Rightarrow> usize \<Rightarrow> usize \<Rightarrow> vma_region option list \<Rightarrow>
    machine \<times> vma_region option list \<times> usize list \<times> (usize \<times> nat) list \<times> bool" where
  "unmap_slots m pt lo hi [] = (m, [], [], [], False)"
| "unmap_slots m pt lo hi (None # vs) =
    (let (m, vs', rel, blk, did) = unmap_slots m pt lo hi vs in (m, None # vs', rel, blk, did))"
| "unmap_slots m pt lo hi (Some r # vs) =
    (if \<not> wholly_in lo hi r then
       let (m, vs', rel, blk, did) = unmap_slots m pt lo hi vs in (m, Some r # vs', rel, blk, did)
     else
       let present = pv_present (r_lazy_pages r);
           m = (if r_lazy r then unmap_pages m pt (map (\<lambda>(i, _). page_addr (r_start r) i) present)
                else unmap_pages m pt (region_run r));
           rel0 = (if r_lazy r then map snd present else []);
           blk0 = (if \<not> r_lazy r \<and> r_file_cap r \<noteq> DEVICE_CAP \<and> r_phys r \<noteq> 0
                   then [(r_phys r, pages_to_order (vma_pages r))] else []);
           did0 = (if r_lazy r then present \<noteq> [] else True);
           m = (if is_file_backed (r_file_cap r) then file_release m (r_file_cap r) else m);
           (m, vs', rel, blk, did) = unmap_slots m pt lo hi vs
       in (m, None # vs', rel0 @ rel, blk0 @ blk, did0 \<or> did))"

fun m_free_all :: "machine \<Rightarrow> (usize \<times> nat) list \<Rightarrow> machine option" where
  "m_free_all m [] = Some m"
| "m_free_all m ((phys, order) # bs) = Option.bind (m_free m phys order) (\<lambda>m'. m_free_all m' bs)"

definition unmap_range :: "machine \<Rightarrow> address_space \<Rightarrow> usize \<Rightarrow> usize \<Rightarrow> (machine \<times> address_space) option" where
  "unmap_range m s virt n =
    (if n = 0 then Some (m, s)
     else let virt = page_down virt; n = page_up n in
       (case checked_add virt n of
          None \<Rightarrow> Some (m, s)
        | Some hi \<Rightarrow>
            do { (_, m, s) \<leftarrow> split_at m (update_hiwater s) virt;
                 (_, m, s) \<leftarrow> split_at m s hi;
                 (let pt = page_table_root s; (m, vs, rel, blk, did) = unmap_slots m pt virt hi (regions s);
                      m = (if did then tlb_flush_range m pt virt (n div PAGE_SIZE) else m) in
                  do { m \<leftarrow> m_unref_all m rel;
                       m \<leftarrow> m_free_all m blk;
                       Some (m, s\<lparr>regions := vs\<rparr>) }) }))"

text \<open>\<open>madvise(MADV_DONTNEED)\<close>: the pages of private regions are dropped in place.\<close>

fun drop_pages :: "machine \<Rightarrow> usize \<Rightarrow> vma_region \<Rightarrow> nat list \<Rightarrow> (machine \<times> vma_region \<times> usize list) option" where
  "drop_pages m pt r [] = Some (m, r, [])"
| "drop_pages m pt r (i # is) =
    do { phys \<leftarrow> pv_index (r_lazy_pages r) i;
         (if phys = 0 then drop_pages m pt r is
          else
            do { pv \<leftarrow> pv_put (r_lazy_pages r) i 0;
                 (m, r, rel) \<leftarrow> drop_pages (unmap_page m pt (page_addr (r_start r) i)) pt
                    ((set_written (r\<lparr>r_lazy_pages := pv\<rparr>) i False)\<lparr>r_lazy_count := r_lazy_count r - 1\<rparr>) is;
                 Some (m, r, phys # rel) }) }"

fun discard_slots :: "machine \<Rightarrow> usize \<Rightarrow> usize \<Rightarrow> usize \<Rightarrow> vma_region option list \<Rightarrow>
    (machine \<times> vma_region option list \<times> usize \<times> usize list) option" where
  "discard_slots m pt lo hi [] = Some (m, [], 0, [])"
| "discard_slots m pt lo hi (None # vs) =
    do { (m, vs', cov, rel) \<leftarrow> discard_slots m pt lo hi vs; Some (m, None # vs', cov, rel) }"
| "discard_slots m pt lo hi (Some r # vs) =
    (if r_end r \<le> lo \<or> hi \<le> r_start r then
       do { (m, vs', cov, rel) \<leftarrow> discard_slots m pt lo hi vs; Some (m, Some r # vs', cov, rel) }
     else
       let a = max (r_start r) lo; b = min (r_end r) hi in
       do { (m, r', rel0) \<leftarrow>
              (if is_shared r \<or> r_file_cap r = DEVICE_CAP then Some (m, r, [])
               else if r_lazy r then
                 drop_pages m pt r
                   [(a - r_start r) div PAGE_SIZE..<min ((b - r_start r) div PAGE_SIZE) (pv_len (r_lazy_pages r))]
               else if r_phys r \<noteq> 0 \<and> \<not> is_file_backed (r_file_cap r) then
                 Some (zero_ram m (uadd (r_phys r) (a - r_start r)) (b - a), r, [])
               else Some (m, r, []));
            (m, vs', cov, rel) \<leftarrow> discard_slots m pt lo hi vs;
            Some (m, Some r' # vs', (b - a) + cov, rel0 @ rel) })"

definition discard_range :: "machine \<Rightarrow> address_space \<Rightarrow> usize \<Rightarrow> usize \<Rightarrow> (bool \<times> machine \<times> address_space) option" where
  "discard_range m s virt n =
    (let virt = page_down virt; n = page_up n in
     case checked_add virt n of
       None \<Rightarrow> Some (False, m, s)
     | Some hi \<Rightarrow>
         if n = 0 then Some (True, m, s)
         else let s = update_hiwater s; pt = page_table_root s in
           do { (m, vs, cov, rel) \<leftarrow> discard_slots m pt virt hi (regions s);
                m \<leftarrow> (if rel = [] then Some m
                      else m_unref_all (tlb_flush_range m pt virt (n div PAGE_SIZE)) rel);
                Some (cov = n, m, s\<lparr>regions := vs\<rparr>) })"

definition unmap :: "machine \<Rightarrow> address_space \<Rightarrow> usize \<Rightarrow> usize \<Rightarrow> (machine \<times> address_space) option" where
  "unmap m s virt n = unmap_range m s virt n"

subsection \<open>Protection\<close>

definition flags_of_prot :: "u32 \<Rightarrow> u64" where
  "flags_of_prot prot = PRESENT OR USER OR (if prot AND PROT_WRITE \<noteq> 0 then WRITABLE else 0)
                          OR (if prot AND PROT_EXEC \<noteq> 0 then EXECUTE else 0)"

text \<open>Remapping the backed pages of one region; a failed \<open>map_page\<close> is ignored.\<close>

definition remap_pages :: "env \<Rightarrow> machine \<Rightarrow> usize \<Rightarrow> (usize \<times> usize \<times> u64) list \<Rightarrow> machine" where
  "remap_pages e m pt ps = fold (\<lambda>(va, phys, f) m. snd (map_page e m pt va phys f)) ps m"

definition protect_region :: "env \<Rightarrow> machine \<Rightarrow> usize \<Rightarrow> u32 \<Rightarrow> vma_region \<Rightarrow> machine \<times> vma_region" where
  "protect_region e m pt prot r0 =
    (let f = flags_of_prot prot; r = r0\<lparr>r_prot := prot, r_flags := f\<rparr>; present = pv_present (r_lazy_pages r) in
     if prot AND PROT_ACCESS = 0 then
       (if r_lazy r then unmap_pages m pt (map (\<lambda>(i, _). page_addr (r_start r) i) present)
        else if r_phys r \<noteq> 0 then unmap_pages m pt (region_run r) else m, r)
     else if r_lazy r then
       (remap_pages e m pt (map (\<lambda>(i, phys). (page_addr (r_start r) i, phys,
          if r_cow r \<and> 1 < pr_get (refs m) phys then without f WRITABLE else install_flags r i f)) present), r)
     else if r_phys r \<noteq> 0 then
       (remap_pages e m pt (map (\<lambda>i. (page_addr (r_start r) i, page_addr (r_phys r) i, f)) [0..<vma_pages r]), r)
     else (m, r))"

fun protect_slots :: "env \<Rightarrow> machine \<Rightarrow> usize \<Rightarrow> u32 \<Rightarrow> usize \<Rightarrow> usize \<Rightarrow> vma_region option list \<Rightarrow>
    machine \<times> vma_region option list \<times> bool" where
  "protect_slots e m pt prot lo hi [] = (m, [], False)"
| "protect_slots e m pt prot lo hi (None # vs) =
    (let (m, vs', ch) = protect_slots e m pt prot lo hi vs in (m, None # vs', ch))"
| "protect_slots e m pt prot lo hi (Some r # vs) =
    (if \<not> wholly_in lo hi r then
       let (m, vs', ch) = protect_slots e m pt prot lo hi vs in (m, Some r # vs', ch)
     else let (m, r) = protect_region e m pt prot r;
              (m, vs', ch) = protect_slots e m pt prot lo hi vs in (m, Some r # vs', True))"

definition mprotect ::
  "env \<Rightarrow> machine \<Rightarrow> address_space \<Rightarrow> usize \<Rightarrow> usize \<Rightarrow> u32 \<Rightarrow> (bool \<times> machine \<times> address_space) option" where
  "mprotect e m s addr n prot =
    (if prot AND PROT_WRITE \<noteq> 0 \<and> prot AND PROT_EXEC \<noteq> 0 then Some (False, m, s)
     else let addr = page_down addr in
       (case checked_add addr (page_up n) of
          None \<Rightarrow> Some (False, m, s)
        | Some hi \<Rightarrow>
            do { (_, m, s) \<leftarrow> split_at m s addr;
                 (_, m, s) \<leftarrow> split_at m s hi;
                 (let pt = page_table_root s; (m, vs, changed) = protect_slots e m pt prot addr hi (regions s);
                      m = (if changed then tlb_flush_range m pt addr ((hi - addr) div PAGE_SIZE) else m)
                  in Some (changed, m, s\<lparr>regions := vs\<rparr>)) }))"

subsection \<open>Growing and shrinking in place\<close>

definition grow_in_place :: "address_space \<Rightarrow> usize \<Rightarrow> usize \<Rightarrow> usize \<Rightarrow> int \<times> address_space" where
  "grow_in_place s addr old_n new_n =
    (if addr AND (PAGE_SIZE - 1) \<noteq> 0 then (-22, s)
     else case checked_add addr old_n of None \<Rightarrow> (-14, s)
     | Some old_end \<Rightarrow> (case checked_add addr new_n of None \<Rightarrow> (-12, s)
       | Some new_end \<Rightarrow> (case find_idx s addr of None \<Rightarrow> (-14, s)
         | Some idx \<Rightarrow>
             let r = region_at s idx; growable = (r_lazy r \<and> r_file_cap r = 0 \<and> \<not> is_shared r) in
             if r_end r < old_end then (-14, s)
             else if old_end \<noteq> r_end r \<or> \<not> growable \<or> 0x0000800000000000 < new_end then (-12, s)
             else if overlaps (regions s) (r_end r) new_end then (-12, s)
             else (int addr, put_region s idx (r\<lparr>r_end := new_end\<rparr>)))))"

definition brk :: "machine \<Rightarrow> address_space \<Rightarrow> usize \<Rightarrow> (usize \<times> machine \<times> address_space) option" where
  "brk m s new_end =
    (let current = (if heap_end s \<noteq> 0 then heap_end s else heap_start s) in
     if new_end = 0 then Some (current, m, s)
     else if heap_start s = 0 then Some (current, note_fail m FAIL_NO_HEAP, s)
     else let new_end = page_up new_end in
       (case position (\<lambda>v. case v of None \<Rightarrow> False | Some r \<Rightarrow> r_start r = heap_start s) (regions s) of
          None \<Rightarrow>
            if new_end \<le> heap_start s then Some (current, m, s)
            else (case map_lazy m s (heap_start s) (new_end - heap_start s) (PRESENT OR USER OR WRITABLE) False of
                    (True, m, s) \<Rightarrow> Some (new_end, m, s\<lparr>heap_end := new_end\<rparr>)
                  | (False, m, s) \<Rightarrow> Some (current, m, s))
        | Some idx \<Rightarrow>
            let r = region_at s idx in
            if new_end = r_end r then Some (new_end, m, s)
            else if r_end r < new_end then
              if overlaps ((regions s)[idx := None]) (r_end r) new_end
              then Some (current, note_fail m FAIL_VMA_OVERLAP, s)
              else Some (new_end, m, (put_region s idx (r\<lparr>r_end := new_end\<rparr>))\<lparr>heap_end := new_end\<rparr>)
            else
              let s = update_hiwater s; pt = page_table_root s;
                  first = usub new_end (r_start r) div PAGE_SIZE;
                  last = page_count (usub (r_end r) (r_start r)) in
              do { (m, r', rel) \<leftarrow> drop_pages m pt (r\<lparr>r_end := new_end\<rparr>)
                                    [first..<min last (pv_len (r_lazy_pages r))];
                   m \<leftarrow> m_unref_all (tlb_flush_range m pt (page_addr (r_start r) first) (last - first)) rel;
                   Some (new_end, m, (put_region s idx r')\<lparr>heap_end := new_end\<rparr>) }))"

subsection \<open>Kernel copies\<close>

function read_user_buf :: "machine \<Rightarrow> address_space \<Rightarrow> usize \<Rightarrow> nat \<Rightarrow> u8 list option option" where
  "read_user_buf m s va n =
    (if n = 0 then Some (Some [])
     else let chunk = min (PAGE_SIZE - va mod PAGE_SIZE) n in
       Option.bind (virt_to_phys s va) (\<lambda>tr.
         case tr of None \<Rightarrow> Some None
         | Some phys \<Rightarrow>
             map_option (map_option ((@) (map (\<lambda>i. ram m (phys + i)) [0..<chunk])))
               (read_user_buf m s (uadd va chunk) (n - chunk))))"
  by pat_completeness auto
termination
  by (relation "measure (\<lambda>(m, s, va, n). n)") (auto simp: PAGE_SIZE_def)

declare read_user_buf.simps [simp del]

function write_user_buf ::
  "env \<Rightarrow> machine \<Rightarrow> address_space \<Rightarrow> usize \<Rightarrow> u8 list \<Rightarrow> (bool \<times> machine \<times> address_space) option" where
  "write_user_buf e m s va src =
    (if src = [] then Some (True, m, s)
     else
       Option.bind (unshare_cow_page e m s va False) (\<lambda>(ok, m, s).
       if \<not> ok then Some (False, m, s)
       else Option.bind (is_shared_readonly_file_page m s va) (\<lambda>ro.
         if ro then Some (False, m, s)
         else Option.bind (is_clean_writable_file_page s va) (\<lambda>clean.
           Option.bind (if clean then handle_user_page_fault e m s va True else Some (True, m, s)) (\<lambda>(_, m, s).
             Option.bind (virt_to_phys s va) (\<lambda>tr.
               case tr of None \<Rightarrow> Some (False, m, s)
               | Some phys \<Rightarrow>
                   let chunk = min (PAGE_SIZE - va mod PAGE_SIZE) (length src) in
                   write_user_buf e (write_ram m phys (take chunk src)) s (uadd va chunk) (drop chunk src)))))))"
  by pat_completeness auto
termination
  by (relation "measure (\<lambda>(e, m, s, va, src). length src)") (auto simp: PAGE_SIZE_def)

declare write_user_buf.simps [simp del]

subsection \<open>Queries on ranges\<close>

definition shared_file_keys :: "env \<Rightarrow> address_space \<Rightarrow> usize \<Rightarrow> usize \<Rightarrow> usize list option" where
  "shared_file_keys e s addr n =
    (case checked_add addr (page_up n) of
       None \<Rightarrow> None
     | Some hi \<Rightarrow>
         let rs = filter (\<lambda>r. \<not> (r_end r \<le> addr \<or> hi \<le> r_start r)) (live_regions s);
             covered = sum_list (map (\<lambda>r. min (r_end r) hi - max (r_start r) addr) rs);
             keys = fold (\<lambda>r ks. let k = file_key e (r_file_cap r) in
                       if r_lazy r \<and> is_shared r \<and> is_file_backed (r_file_cap r) \<and> k \<noteq> 0 \<and> k \<notin> set ks
                       then ks @ [k] else ks) rs []
         in if covered < hi - addr then None else Some keys)"

fun scan_absent :: "vma_region \<Rightarrow> usize option \<Rightarrow> usize list \<Rightarrow> usize option option" where
  "scan_absent r best [] = Some best"
| "scan_absent r best (va # vas) =
    (if (case best of None \<Rightarrow> True | Some b \<Rightarrow> va < b) then
       do { p \<leftarrow> lazy_at r (usub va (r_start r) div PAGE_SIZE);
            (if p = 0 then Some (Some va) else scan_absent r best vas) }
     else Some best)"

fun first_absent :: "usize \<Rightarrow> usize \<Rightarrow> usize option \<Rightarrow> vma_region list \<Rightarrow> usize option option" where
  "first_absent lo hi best [] = Some best"
| "first_absent lo hi best (r # rs) =
    (if \<not> r_lazy r \<or> \<not> is_file_backed (r_file_cap r) \<or> r_end r \<le> lo \<or> hi \<le> r_start r
     then first_absent lo hi best rs
     else let va = max lo (r_start r); stop = min hi (r_end r) in
       do { best \<leftarrow> scan_absent r best (map (page_addr va) [0..<(stop - va + PAGE_SIZE - 1) div PAGE_SIZE]);
            first_absent lo hi best rs })"

definition first_absent_file_page :: "address_space \<Rightarrow> usize \<Rightarrow> usize \<Rightarrow> usize option option" where
  "first_absent_file_page s lo hi = first_absent (page_down lo) hi None (live_regions s)"

subsection \<open>Teardown\<close>

fun drop_regions :: "machine \<Rightarrow> vma_region list \<Rightarrow> machine option" where
  "drop_regions m [] = Some m"
| "drop_regions m (r # rs) =
    do { m \<leftarrow> (if r_lazy r then m_unref_all m (map snd (pv_present (r_lazy_pages r)))
               else if r_phys r \<noteq> 0 \<and> r_file_cap r \<noteq> DEVICE_CAP
               then m_free m (r_phys r) (pages_to_order (vma_pages r)) else Some m);
         drop_regions (if is_file_backed (r_file_cap r) then file_release m (r_file_cap r) else m) rs }"

definition as_drop :: "env \<Rightarrow> machine \<Rightarrow> address_space \<Rightarrow> machine option" where
  "as_drop e m s =
    do { m \<leftarrow> drop_regions m (live_regions s);
         (let root = page_table_root s in
          if root = 0 then Some m
          else let m = tlb_flush_as m root in
            do { b \<leftarrow> pt_free_nodes e (bud m) root;
                 m_free (m\<lparr>bud := b, ptes := (ptes m)(root := (\<lambda>_. None))\<rparr>) root 0 }) }"

end
