(* ===== verification/Cow.thy ===== *)
theory Cow
  imports Vmm_Range
begin

text \<open>
  \<open>mm/src/cow.rs\<close>: cloning an address space for \<open>fork\<close>. Private pages are shared read-only by
  both sides and counted in the frame-sharing table, shared mappings are aliased with their
  permissions, device mappings are aliased and never counted. The diagnostic page counters are
  left out, and the copy-on-write lock (each operation runs to completion).
\<close>

text \<open>One loop serves both branches: every frame gains an owner, is recorded for the child and,
  unless the region is inaccessible, mapped in the child and (\<open>both\<close>) remapped in the parent.\<close>

fun clone_pages :: "env \<Rightarrow> machine \<Rightarrow> usize \<Rightarrow> usize \<Rightarrow> usize \<Rightarrow> bool \<Rightarrow> bool \<Rightarrow> (nat \<Rightarrow> u64) \<Rightarrow> page_vec \<Rightarrow>
    (usize \<times> usize) list \<Rightarrow> (machine \<times> page_vec) option" where
  "clone_pages e m src_root new_root start no_access both flags pv [] = Some (m, pv)"
| "clone_pages e m src_root new_root start no_access both flags pv ((i, phys) # ps) =
    (let m = m\<lparr>refs := pr_inc (refs m) phys\<rparr>;
         pv = (if pv_len pv \<le> i then pv_resize pv (i + 1) else pv) in
     do { pv \<leftarrow> pv_put pv i phys;
          (let m = (if no_access then m else snd (map_page e m new_root (page_addr start i) phys (flags i)));
               m = (if no_access \<or> \<not> both then m else snd (map_page e m src_root (page_addr start i) phys (flags i)))
           in clone_pages e m src_root new_root start no_access both flags pv ps) })"

definition clone_device :: "env \<Rightarrow> machine \<Rightarrow> usize \<Rightarrow> vma_region \<Rightarrow> machine \<times> vma_region" where
  "clone_device e m new_root r =
    (remap_pages e m new_root (map (\<lambda>i. (page_addr (r_start r) i, page_addr (r_phys r) i, r_flags r)) [0..<vma_pages r]),
     r\<lparr>r_lazy := False, r_lazy_pages := pv_new, r_lazy_count := 0, r_cow := False, r_written := []\<rparr>)"

definition clone_region ::
  "env \<Rightarrow> machine \<Rightarrow> usize \<Rightarrow> usize \<Rightarrow> vma_region \<Rightarrow> (machine \<times> vma_region \<times> vma_region) option" where
  "clone_region e m src_root new_root r =
    (if \<not> r_lazy r \<and> r_file_cap r = DEVICE_CAP then
       let (m, d) = clone_device e m new_root r in Some (m, r, d)
     else
       let shared = is_shared r; downgraded = without (r_flags r) WRITABLE;
           no_access = (r_prot r AND PROT_ACCESS = 0) in
       do { (m, r, pv, n) \<leftarrow>
              (if \<not> r_lazy r then
                 let n = vma_pages r in
                 do { (m, pv) \<leftarrow> clone_pages e m src_root new_root (r_start r) no_access True
                        (\<lambda>_. if shared then r_flags r else downgraded) (pv_resize pv_new n)
                        (map (\<lambda>i. (i, page_addr (r_phys r) i)) [0..<n]);
                      m \<leftarrow> free_eager_tail m (r_phys r) n;
                      Some (m, r\<lparr>r_lazy := True, r_phys := 0, r_lazy_pages := pv, r_lazy_count := n,
                                 r_cow := \<not> shared\<rparr>, pv, n) }
               else
                 do { (m, pv) \<leftarrow> clone_pages e m src_root new_root (r_start r) no_access (\<not> shared)
                        (\<lambda>i. if \<not> shared then downgraded
                             else if is_file_backed (r_file_cap r) then install_flags r i (r_flags r)
                             else r_flags r) pv_new
                        (pv_present (r_lazy_pages r));
                      Some (m, if shared then r else r\<lparr>r_cow := True\<rparr>, pv,
                            length (pv_present (r_lazy_pages r))) });
            (let m = (if is_file_backed (r_file_cap r) then file_retain m (r_file_cap r) else m) in
             Some (m, r, r\<lparr>r_phys := 0, r_lazy := True, r_lazy_pages := pv,
                          r_lazy_count := n, r_cow := \<not> shared\<rparr>)) })"

fun clone_slots :: "env \<Rightarrow> machine \<Rightarrow> usize \<Rightarrow> usize \<Rightarrow> vma_region option list \<Rightarrow>
    (machine \<times> vma_region option list \<times> vma_region option list) option" where
  "clone_slots e m src_root new_root [] = Some (m, [], [])"
| "clone_slots e m src_root new_root (None # vs) =
    do { (m, ss, ds) \<leftarrow> clone_slots e m src_root new_root vs; Some (m, None # ss, None # ds) }"
| "clone_slots e m src_root new_root (Some r # vs) =
    do { (m, r', d) \<leftarrow> clone_region e m src_root new_root r;
         (m, ss, ds) \<leftarrow> clone_slots e m src_root new_root vs;
         Some (m, Some r' # ss, Some d # ds) }"

definition clone_as :: "env \<Rightarrow> machine \<Rightarrow> address_space \<Rightarrow> usize \<Rightarrow> (machine \<times> address_space \<times> address_space) option" where
  "clone_as e m src new_root =
    (let src_root = page_table_root src;
         dst = (as_new new_root)\<lparr>heap_start := heap_start src, heap_end := heap_end src, stack_top := stack_top src\<rparr> in
     do { (m, ss, ds) \<leftarrow> clone_slots e m src_root new_root (regions src);
          Some (tlb_flush_as m src_root, src\<lparr>regions := ss\<rparr>, dst\<lparr>regions := ds\<rparr>) })"

end
