(* ===== verification/Vmm_View.thy ===== *)
theory Vmm_View
  imports Vmm_Range "HOL-Library.Multiset"
begin

text \<open>
  What an address space means: the function from addresses to what is mapped there
  (\<open>as_view\<close>), which does not depend on how the regions are cut or in which slots they sit.
  Splitting a region leaves it unchanged, \<open>munmap\<close> clears exactly its range, \<open>mprotect\<close>
  changes the protection of exactly its range. The slot table is abstracted to the multiset of
  its regions, which are well formed and pairwise disjoint.
\<close>

subsection \<open>The view\<close>


definition page_index :: "vma_region \<Rightarrow> usize \<Rightarrow> nat" where
  "page_index r va = (va - r_start r) div PAGE_SIZE"




subsection \<open>Well-formed regions\<close>



definition region_set :: "vma_region option list \<Rightarrow> vma_region multiset" where
  "region_set vs = mset (List.map_filter (\<lambda>x. x) vs)"

definition mpairwise :: "('a \<Rightarrow> 'a \<Rightarrow> bool) \<Rightarrow> 'a multiset \<Rightarrow> bool" where
  "mpairwise P M \<longleftrightarrow> (\<forall>r \<in># M. \<forall>q \<in># M - {#r#}. P r q)"




lemma mpairwise_empty [simp]: "mpairwise P {#}"
  by (simp add: mpairwise_def)



lemma mpairwise_sub:
  assumes "mpairwise P M" "N \<subseteq># M"
  shows "mpairwise P N"
  unfolding mpairwise_def
proof (intro ballI)
  fix r q assume rq: "r \<in># N" "q \<in># N - {#r#}"
  then have "q \<in># M - {#r#}" using mset_subset_eq_count [OF assms(2), of q] by (simp add: in_diff_count)
  then show "P r q" using assms rq(1) mset_subset_eqD unfolding mpairwise_def by metis
qed

subsection \<open>Slots and regions\<close>

lemma region_set_simps [simp]:
  "region_set [] = {#}" "region_set (None # vs) = region_set vs" "region_set (Some r # vs) = add_mset r (region_set vs)"
  "region_set (vs @ ws) = region_set vs + region_set ws"
  by (simp_all add: region_set_def List.map_filter_def)

lemma region_set_replicate [simp]: "region_set (replicate n None) = {#}"
  by (induction n) simp_all



lemma region_set_fill: "i < length vs \<Longrightarrow> vs ! i = None \<Longrightarrow> region_set (vs[i := Some q]) = add_mset q (region_set vs)"
proof -
  assume a: "i < length vs" "vs ! i = None"
  have vs: "vs = take i vs @ None # drop (Suc i) vs" using a id_take_nth_drop by metis
  show ?thesis unfolding upd_conv_take_nth_drop [OF a(1)] by (subst (3) vs, simp)
qed

lemma region_set_add_region [simp]: "region_set (add_region vs r) = add_mset r (region_set vs)"
proof (cases "position Option.is_none vs")
  case (Some i)
  then have "i < length vs" "vs ! i = None" by (auto dest!: position_SomeD simp: Option.is_none_def)
  then show ?thesis using Some by (simp add: add_region_def region_set_fill)
qed (simp add: add_region_def)

lemma free_slot_ok:
  assumes "free_slot vs = (ws, i)"
  shows "region_set ws = region_set vs" "i < length ws" "ws ! i = None"
  using assms by (auto simp: free_slot_def Option.is_none_def split: option.splits dest!: position_SomeD)




subsection \<open>Page arithmetic\<close>

lemma page_down_eq: "v < 2 ^ 64 \<Longrightarrow> page_down v = v - v mod PAGE_SIZE"
  using and_unot_mask [of v 12] by (simp add: page_down_def PAGE_SIZE_def)


lemma page_down_le: "v < 2 ^ 64 \<Longrightarrow> page_down v \<le> v"
  by (simp add: page_down_eq)

lemma page_down_aligned [simp]: "PAGE_SIZE dvd v \<Longrightarrow> v < 2 ^ 64 \<Longrightarrow> page_down v = v"
  by (simp add: page_down_eq dvd_imp_mod_0)



lemma page_index_add [simp]: "r_start r = a * PAGE_SIZE \<Longrightarrow> page_index r (a * PAGE_SIZE + d) = d div PAGE_SIZE"
  by (simp add: page_index_def)



subsection \<open>Splitting one region\<close>

definition wbit :: "u64 list \<Rightarrow> nat \<Rightarrow> bool" where
  "wbit ws i \<longleftrightarrow> i div 64 < length ws \<and> bit (ws ! (i div 64)) (i mod 64)"




lemma wbit_clear:
  "wbit (ws[k div 64 := word_clear (ws ! (k div 64)) (k mod 64)]) i \<longleftrightarrow> i \<noteq> k \<and> wbit ws i"
proof (cases "i div 64 = k div 64")
  case True
  then have "i mod 64 = k mod 64 \<longleftrightarrow> i = k" using div_mod_64_eq by blast
  then show ?thesis using True by (auto simp: wbit_def bit_word_clear)
qed (auto simp: wbit_def)









subsection \<open>Eager blocks\<close>
















subsection \<open>Splitting in an address space\<close>













subsection \<open>Properties\<close>







end
