(* ===== verification/Slot_Set.thy ===== *)
theory Slot_Set
  imports Kernel_Prelude
begin

text \<open>
  Sets of table slots kept as arrays of 64-bit words, as the run queue
  (\<open>sched/src/runqueue.rs\<close>) keeps its occupancy, runnable and parked sets: setting, clearing
  and testing the bit of a slot, and the walk over the set bits of a word by
  \<open>trailing_zeros\<close> and \<open>bits &= bits - 1\<close>. The walk visits exactly the members of the set, in
  ascending order.
\<close>

definition word_ctz :: "u64 \<Rightarrow> nat" where
  "word_ctz w = length (takeWhile (\<lambda>i. \<not> word_bit w i) [0..<64])"

definition slot_in :: "u64 list \<Rightarrow> nat \<Rightarrow> bool" where
  "slot_in ws i = word_bit (ws ! (i div 64)) (i mod 64)"

definition slot_add :: "u64 list \<Rightarrow> nat \<Rightarrow> u64 list" where
  "slot_add ws i = ws[i div 64 := word_set (ws ! (i div 64)) (i mod 64)]"

definition slot_del :: "u64 list \<Rightarrow> nat \<Rightarrow> u64 list" where
  "slot_del ws i = ws[i div 64 := word_clear (ws ! (i div 64)) (i mod 64)]"

definition slots_inter :: "u64 list \<Rightarrow> u64 list \<Rightarrow> u64 list" where
  "slots_inter xs ys = map2 (AND) xs ys"

subsection \<open>Walking a word\<close>

lemma nat_bit_0_odd: "bit (n::nat) 0 \<longleftrightarrow> odd n"
  by (simp add: bit_0)

lemma clear_lowest_nat:
  fixes x :: nat
  assumes "bit x k" "\<And>i. i < k \<Longrightarrow> \<not> bit x i"
  shows "bit (x AND (x - 1)) n \<longleftrightarrow> bit x n \<and> n \<noteq> k"
  using assms
proof (induction k arbitrary: x n)
  case 0
  then obtain m where x: "x = 2 * m + 1" by (auto simp: nat_bit_0_odd elim: oddE)
  show ?case unfolding bit_and_iff by (cases n) (simp_all add: x bit_0 bit_Suc)
next
  case (Suc k)
  have "even x" using Suc.prems(2) [of 0] by (simp add: nat_bit_0_odd)
  then obtain m where x: "x = 2 * m" by (auto elim: evenE)
  have m: "bit m k" using Suc.prems(1) by (simp add: x bit_Suc)
  then have pos: "0 < m" by (cases m) auto
  have low: "\<not> bit m i" if "i < k" for i using Suc.prems(2) [of "Suc i"] that by (simp add: x bit_Suc)
  have x1: "x - 1 = 2 * (m - 1) + 1" using pos by (simp add: x)
  show ?case
  proof (cases n)
    case 0
    then show ?thesis unfolding bit_and_iff by (simp add: x bit_0)
  next
    case (Suc j)
    have "bit (x AND (x - 1)) (Suc j) \<longleftrightarrow> bit (m AND (m - 1)) j"
      unfolding bit_and_iff x1 unfolding x by (simp add: bit_Suc)
    then show ?thesis using Suc.IH [OF m low] Suc by (simp add: x bit_Suc)
  qed
qed

lemma clear_lowest:
  fixes w :: u64
  assumes "bit w k" "\<And>i. i < k \<Longrightarrow> \<not> bit w i"
  shows "bit (w AND (w - 1)) n \<longleftrightarrow> bit w n \<and> n \<noteq> k"
proof -
  have w: "w \<noteq> 0" using assms(1) by auto
  then have "unat (w - 1) = unat w - 1" by (metis unat_gt_0 unat_minus_one)
  then have "unat (w AND (w - 1)) = unat w AND (unat w - 1)" by (simp add: unsigned_and_eq)
  moreover have b: "bit (unat v) i \<longleftrightarrow> bit v i" for v :: u64 and i by (simp add: bit_unsigned_iff)
  ultimately show ?thesis using clear_lowest_nat [of "unat w" k n] assms by (metis b)
qed

lemma word_ctz_least:
  assumes "w \<noteq> 0"
  shows "word_ctz w < 64" "bit w (word_ctz w)" "i < word_ctz w \<Longrightarrow> \<not> bit w i"
proof -
  obtain k where k: "bit w k" using assms by (metis bit_eqI bit_0_eq bot_apply bot_bool_def)
  then have k64: "k < 64" using bit_imp_le_length by fastforce
  let ?P = "\<lambda>i. \<not> word_bit w i"
  have ex: "\<exists>x\<in>set [0..<64]. \<not> ?P x" using k k64 by (auto simp: bits)
  then have "takeWhile ?P [0..<64] \<noteq> [0..<64]" by (simp add: takeWhile_eq_all_conv)
  then have lt: "length (takeWhile ?P [0..<64]) < length [0..<64]"
    by (metis takeWhile_eq_take length_takeWhile_le le_neq_implies_less take_all order_refl)
  then show "word_ctz w < 64" by (simp add: word_ctz_def)
  show "bit w (word_ctz w)" using nth_length_takeWhile [OF lt] lt by (simp add: word_ctz_def bits)
  assume "i < word_ctz w"
  then have "i < length (takeWhile ?P [0..<64])" by (simp add: word_ctz_def)
  from nth_mem [OF this] have "?P (takeWhile ?P [0..<64] ! i)" by (blast dest: set_takeWhileD)
  moreover have "takeWhile ?P [0..<64] ! i = i"
    using \<open>i < length (takeWhile ?P [0..<64])\<close> lt by (simp add: takeWhile_nth)
  ultimately show "\<not> bit w i" by (simp add: bits)
qed

lemma clear_lowest_less: "bits \<noteq> 0 \<Longrightarrow> unat (bits AND (bits - 1) :: u64) < unat bits"
proof -
  assume nz: "bits \<noteq> 0"
  have "bits AND (bits - 1) \<noteq> bits"
    using clear_lowest [OF word_ctz_least(2,3) [OF nz]] word_ctz_least(2) [OF nz] by metis
  moreover have "unat (bits AND (bits - 1)) \<le> unat bits" by (simp add: word_and_le2 word_le_nat_alt [symmetric])
  ultimately show ?thesis by (metis le_neq_implies_less unsigned_word_eqI)
qed

function word_slots :: "nat \<Rightarrow> u64 \<Rightarrow> nat list" where
  "word_slots base bits =
    (if bits = 0 then [] else (base + word_ctz bits) # word_slots base (bits AND (bits - 1)))"
  by pat_completeness auto
termination by (relation "measure (\<lambda>(base, bits). unat bits)") (auto simp: clear_lowest_less)

declare word_slots.simps [simp del]

definition slots_of :: "u64 list \<Rightarrow> nat list" where
  "slots_of ws = concat (map (\<lambda>(w, bits). word_slots (w * 64) bits) (enumerate 0 ws))"

lemma filter_least:
  assumes "k < n" "P k" "\<And>i. i < k \<Longrightarrow> \<not> P i"
  shows "filter P [0..<n] = k # filter (\<lambda>i. P i \<and> i \<noteq> k) [0..<n]"
proof -
  have u: "[0..<n] = [0..<k] @ k # [Suc k..<n]"
    using assms(1) by (metis le_add_diff_inverse less_imp_le_nat upt_add_eq_append upt_conv_Cons zero_le)
  have "filter (\<lambda>i. P i \<and> i \<noteq> k) [Suc k..<n] = filter P [Suc k..<n]" by (rule filter_cong) auto
  moreover have "filter P [0..<k] = []" "filter (\<lambda>i. P i \<and> i \<noteq> k) [0..<k] = []"
    using assms(3) by (auto simp: filter_empty_conv)
  ultimately show ?thesis unfolding u using assms(2) by simp
qed

lemma word_slots_filter: "word_slots base bits = map ((+) base) (filter (bit bits) [0..<64])"
proof (induction base bits rule: word_slots.induct)
  case (1 base bits)
  show ?case
  proof (cases "bits = 0")
    case False
    note k = word_ctz_least [OF False]
    have "bit (bits AND (bits - 1)) = (\<lambda>i. bit bits i \<and> i \<noteq> word_ctz bits)"
      using clear_lowest [OF k(2,3)] by blast
    then show ?thesis
      using 1 [OF False] False filter_least [of "word_ctz bits" 64 "bit bits", OF k]
      by (simp add: word_slots.simps [of base bits])
  qed (simp add: word_slots.simps)
qed

lemma upt_split_at: "[0..<k + m] = [0..<k] @ map ((+) k) [0..<m]"
proof -
  have "map ((+) k) [0..<m] = [k..<k + m]" by (rule nth_equalityI) simp_all
  then show ?thesis using upt_add_eq_append [of 0 k m] by simp
qed

lemma slots_of_filter: "slots_of ws = filter (slot_in ws) [0..<64 * length ws]"
proof (induction ws rule: rev_induct)
  case (snoc w ws)
  have e: "64 * length (ws @ [w]) = 64 * length ws + 64" by simp
  have "slots_of (ws @ [w]) = slots_of ws @ word_slots (64 * length ws) w"
    by (simp add: slots_of_def enumerate_append_eq mult.commute [of 64])
  moreover have "filter (slot_in (ws @ [w])) [0..<64 * length ws] = filter (slot_in ws) [0..<64 * length ws]"
    by (rule filter_cong) (auto simp: slot_in_def nth_append)
  moreover have "filter (slot_in (ws @ [w])) (map ((+) (64 * length ws)) [0..<64])
      = map ((+) (64 * length ws)) (filter (bit w) [0..<64])"
    unfolding filter_map comp_def
    by (intro arg_cong [of _ _ "map _"] filter_cong refl) (simp add: slot_in_def word_bit_iff)
  ultimately show ?case
    unfolding e upt_split_at filter_append snoc word_slots_filter by (simp only:)
qed (simp add: slots_of_def)

lemma slots_of_iff: "i \<in> set (slots_of ws) \<longleftrightarrow> i < 64 * length ws \<and> slot_in ws i"
  by (auto simp: slots_of_filter)

lemma slots_of_sorted: "sorted_wrt (<) (slots_of ws)"
  unfolding slots_of_filter by (intro sorted_wrt_filter sorted_wrt_upt)

lemma distinct_slots_of [simp]: "distinct (slots_of ws)"
  by (simp add: slots_of_filter)

subsection \<open>Membership\<close>

lemma slot_len [simp]: "length (slot_add ws i) = length ws" "length (slot_del ws i) = length ws"
    "length (slots_inter xs ys) = min (length xs) (length ys)"
  by (simp_all add: slot_add_def slot_del_def slots_inter_def)

lemma word_index: "i < 64 * n \<Longrightarrow> i div 64 < (n::nat)"
  by (simp add: less_mult_imp_div_less mult.commute)

lemma slot_in_add:
  assumes "i < 64 * length ws"
  shows "slot_in (slot_add ws i) j \<longleftrightarrow> j = i \<or> slot_in ws j"
proof (cases "j div 64 = i div 64")
  case True
  have "bit (word_set (ws ! (i div 64)) (i mod 64)) (j mod 64) \<longleftrightarrow> j mod 64 = i mod 64 \<or> bit (ws ! (i div 64)) (j mod 64)"
    by (rule bit_word_set) simp
  moreover have "j mod 64 = i mod 64 \<longleftrightarrow> j = i" using True div_mod_64_eq by metis
  ultimately show ?thesis unfolding slot_in_def slot_add_def word_bit_iff True using word_index [OF assms] by simp
next
  case False
  then have "j \<noteq> i" by blast
  then show ?thesis using False unfolding slot_in_def slot_add_def by simp
qed

lemma slot_in_del:
  assumes "i < 64 * length ws"
  shows "slot_in (slot_del ws i) j \<longleftrightarrow> j \<noteq> i \<and> slot_in ws j"
proof (cases "j div 64 = i div 64")
  case True
  moreover have "j mod 64 = i mod 64 \<longleftrightarrow> j = i" using True div_mod_64_eq by metis
  ultimately show ?thesis unfolding slot_in_def slot_del_def word_bit_iff True
    using word_index [OF assms] by (simp add: bit_word_clear)
next
  case False
  then have "j \<noteq> i" by blast
  then show ?thesis using False unfolding slot_in_def slot_del_def by simp
qed

lemma slot_in_inter:
  assumes "i < 64 * length xs" "i < 64 * length ys"
  shows "slot_in (slots_inter xs ys) i \<longleftrightarrow> slot_in xs i \<and> slot_in ys i"
  using word_index [OF assms(1)] word_index [OF assms(2)]
  by (simp add: slot_in_def slots_inter_def word_bit_iff bit_and_iff)

lemmas slot_mem = slot_in_add slot_in_del slot_in_inter

end
