(* ===== verification/Probe_Table.thy ===== *)
theory Probe_Table
  imports Kernel_Prelude "HOL-Library.Multiset"
begin

text \<open>
  The two pid tables of the scheduler: the run queue's pid index
  (\<open>sched/src/runqueue.rs\<close>, pid to slot) and the lock-free pid-to-tgid table
  (\<open>sched/src/lib.rs\<close>). Both are arrays of packed words \<open>(pid << 32) | value\<close>, 0 for an
  empty place, a power of two long, with linear probing from \<open>pid & mask\<close> and deletion by
  backward shift. The two sets of functions run the same probe sequence and the same shift;
  they are the instances of the definitions below at their table. Such a table implements a
  finite map as long as one place is empty.
\<close>

subsection \<open>The operations\<close>

definition pack :: "nat \<Rightarrow> nat \<Rightarrow> nat" where
  "pack key v = push_bit 32 key OR v"

definition key_of :: "nat \<Rightarrow> nat" where
  "key_of e = drop_bit 32 e"

definition val_of :: "nat \<Rightarrow> nat" where
  "val_of e = e AND (2 ^ 32 - 1)"

definition table_mask :: "nat list \<Rightarrow> nat" where
  "table_mask t = length t - 1"

definition home_of :: "nat list \<Rightarrow> nat \<Rightarrow> nat" where
  "home_of t key = key AND table_mask t"

text \<open>The first place from \<open>s\<close> on that is empty or holds the key, in at most \<open>n\<close> steps.\<close>

fun probe :: "nat list \<Rightarrow> nat \<Rightarrow> nat \<Rightarrow> nat \<Rightarrow> nat option" where
  "probe t key s 0 = None"
| "probe t key s (Suc n) =
    (if t ! s = 0 \<or> key_of (t ! s) = key then Some s else probe t key ((s + 1) AND table_mask t) n)"

definition table_insert :: "nat list \<Rightarrow> nat \<Rightarrow> nat \<Rightarrow> nat list" where
  "table_insert t key v =
    (if key = 0 then t
     else case probe t key (home_of t key) (length t) of None \<Rightarrow> t | Some s \<Rightarrow> t[s := pack key v])"

definition table_lookup :: "nat list \<Rightarrow> nat \<Rightarrow> nat option" where
  "table_lookup t key =
    (case probe t key (home_of t key) (length t) of
       None \<Rightarrow> None
     | Some s \<Rightarrow> if t ! s = 0 then None else Some (val_of (t ! s)))"

text \<open>The shift loop ends at an empty place; with none it runs for ever (\<open>None\<close>: more rounds
  than the table has places).\<close>

fun shift_back :: "nat list \<Rightarrow> nat \<Rightarrow> nat \<Rightarrow> nat \<Rightarrow> nat list option" where
  "shift_back t hole j 0 = None"
| "shift_back t hole j (Suc n) =
    (let j = (j + 1) AND table_mask t; e = t ! j in
     if e = 0 then Some (t[hole := 0])
     else if usub j hole AND table_mask t \<le> usub j (home_of t (key_of e)) AND table_mask t
     then shift_back (t[hole := e]) j j n
     else shift_back t hole j n)"

definition table_remove :: "nat list \<Rightarrow> nat \<Rightarrow> nat list option" where
  "table_remove t key =
    (if key = 0 then Some t
     else case probe t key (home_of t key) (length t) of
         None \<Rightarrow> Some t
       | Some s \<Rightarrow> if t ! s = 0 then Some t else shift_back t s s (length t))"

subsection \<open>Packed words\<close>

lemma pack_eq: "v < 2 ^ 32 \<Longrightarrow> pack key v = key * 2 ^ 32 + v"
proof -
  assume v: "v < 2 ^ 32"
  have "\<not> bit (push_bit 32 key) n \<or> \<not> bit v n" for n
    using v by (metis bit_push_bit_iff bit_take_bit_iff take_bit_nat_eq_self not_le)
  then show ?thesis unfolding pack_def by (simp add: disjunctive_add [symmetric] push_bit_eq_mult)
qed

lemma pack_key [simp]: "v < 2 ^ 32 \<Longrightarrow> key_of (pack key v) = key"
  and pack_val [simp]: "v < 2 ^ 32 \<Longrightarrow> val_of (pack key v) = v"
proof -
  assume v: "v < 2 ^ 32"
  show "key_of (pack key v) = key" using v by (simp add: pack_eq key_of_def drop_bit_eq_div)
  show "val_of (pack key v) = v" unfolding val_of_def and_mask_mod using v by (simp add: pack_eq)
qed

lemma pack_nonzero: "v < 2 ^ 32 \<Longrightarrow> key \<noteq> 0 \<Longrightarrow> pack key v \<noteq> 0"
  by (simp add: pack_eq)

subsection \<open>Cyclic distance\<close>

text \<open>Places from \<open>a\<close> forward to \<open>b\<close>, and the places passed on the way from \<open>a\<close> to \<open>b\<close>.\<close>

definition cdist :: "nat \<Rightarrow> nat \<Rightarrow> nat \<Rightarrow> nat" where
  "cdist N a b = (if a \<le> b then b - a else N - a + b)"

definition passes :: "nat \<Rightarrow> nat \<Rightarrow> nat \<Rightarrow> nat \<Rightarrow> bool" where
  "passes N a b x \<longleftrightarrow> cdist N a x < cdist N a b"

definition succ_of :: "nat \<Rightarrow> nat \<Rightarrow> nat" where
  "succ_of N s = (if s + 1 = N then 0 else s + 1)"

definition table_size :: "nat list \<Rightarrow> bool" where
  "table_size t \<longleftrightarrow> (\<exists>k. length t = 2 ^ k \<and> k \<le> 32)"

lemma mask_mod: "table_size t \<Longrightarrow> x AND table_mask t = x mod length t"
  by (auto simp: table_size_def table_mask_def and_mask_mod simp del: One_nat_def)

lemma table_size_pos: "table_size t \<Longrightarrow> 0 < length t"
  by (auto simp: table_size_def)

lemma succ_mask: "table_size t \<Longrightarrow> s < length t \<Longrightarrow> (s + 1) AND table_mask t = succ_of (length t) s"
  by (auto simp: mask_mod succ_of_def)

lemma home_lt: "table_size t \<Longrightarrow> home_of t key < length t"
  using table_size_pos by (simp add: home_of_def mask_mod)

lemma cdist_mask:
  assumes "table_size t" "a < length t" "b < length t"
  shows "usub b a AND table_mask t = cdist (length t) a b"
proof -
  obtain k where k: "length t = 2 ^ k" "k \<le> 32" using assms(1) by (auto simp: table_size_def)
  define c :: nat where "c = 2 ^ (64 - k)"
  have e: "(2::nat) ^ 64 = c * length t" using k by (simp add: c_def flip: power_add)
  have cp: "0 < c" by (simp add: c_def)
  then have le: "length t \<le> c * length t" by simp
  have "usub b a mod length t = (b + (c * length t - a)) mod length t"
  proof -
    have "a < c * length t" using assms(2) le by linarith
    then show ?thesis unfolding usub_def e by (simp only: mod_less mod_mod_cancel [OF dvd_triv_right])
  qed
  also have "\<dots> = cdist (length t) a b"
  proof -
    obtain d where d: "c = Suc d" using cp by (cases c) auto
    have "b + (c * length t - a) = (b + length t - a) + d * length t" using assms(2) d by simp
    then have "(b + (c * length t - a)) mod length t = (b + length t - a) mod length t" by simp
    moreover have "(b + length t - a) mod length t = cdist (length t) a b"
    proof (cases "a \<le> b")
      case True
      then have "b + length t - a = (b - a) + length t" by simp
      then have "(b + length t - a) mod length t = (b - a + length t) mod length t" by (rule arg_cong)
      also have "\<dots> = b - a" using assms(3) by simp
      finally show ?thesis using True by (simp add: cdist_def)
    qed (use assms(2) in \<open>simp add: cdist_def\<close>)
    ultimately show ?thesis by simp
  qed
  finally show ?thesis using mask_mod [OF assms(1)] by simp
qed

text \<open>Facts on cyclic distance are linear arithmetic once the wrap-around is split off.\<close>

lemmas cyc = cdist_def passes_def succ_of_def

lemma cdist_le_passes:
  "a < N \<Longrightarrow> b < N \<Longrightarrow> x < N \<Longrightarrow> x \<noteq> b \<Longrightarrow> cdist N x b \<le> cdist N a b \<longleftrightarrow> passes N a b x"
  by (auto simp: cyc)

lemma succ_lt: "s < N \<Longrightarrow> succ_of N s < N"
  by (auto simp: succ_of_def)

lemma passes_self [simp]: "\<not> passes N a a x" "\<not> passes N a b b"
  by (simp_all add: cyc)

lemma passes_succ:
  "s < N \<Longrightarrow> b < N \<Longrightarrow> x < N \<Longrightarrow> s \<noteq> b \<Longrightarrow> passes N s b x \<longleftrightarrow> x = s \<or> passes N (succ_of N s) b x"
  by (auto simp: cyc split: if_splits)

lemma cdist_succ: "s < N \<Longrightarrow> b < N \<Longrightarrow> s \<noteq> b \<Longrightarrow> cdist N s b = Suc (cdist N (succ_of N s) b)"
  by (auto simp: cyc)

lemma cdist_lt: "a < N \<Longrightarrow> b < N \<Longrightarrow> cdist N a b < N"
  by (auto simp: cdist_def)

subsection \<open>Well-formed tables\<close>

text \<open>Every entry is reached from its home without crossing an empty place, no key occurs
  twice, and an empty place is left.\<close>

definition entry_ok :: "nat list \<Rightarrow> nat \<Rightarrow> bool" where
  "entry_ok t p \<longleftrightarrow> (\<forall>x < length t. passes (length t) (home_of t (key_of (t ! p))) p x \<longrightarrow> t ! x \<noteq> 0)"

definition keys_ok :: "nat list \<Rightarrow> bool" where
  "keys_ok t \<longleftrightarrow> (\<forall>p < length t. t ! p \<noteq> 0 \<longrightarrow> key_of (t ! p) \<noteq> 0)
     \<and> (\<forall>p < length t. \<forall>q < length t. t ! p \<noteq> 0 \<longrightarrow> t ! q \<noteq> 0 \<longrightarrow> key_of (t ! p) = key_of (t ! q) \<longrightarrow> p = q)"

definition table_ok :: "nat list \<Rightarrow> bool" where
  "table_ok t \<longleftrightarrow> table_size t \<and> keys_ok t \<and> (\<forall>p < length t. t ! p \<noteq> 0 \<longrightarrow> entry_ok t p) \<and> (\<exists>p < length t. t ! p = 0)"

definition table_map :: "nat list \<Rightarrow> nat \<rightharpoonup> nat" where
  "table_map t = map_of (map (\<lambda>e. (key_of e, val_of e)) (filter (\<lambda>e. e \<noteq> 0) t))"

lemma table_entries:
  "(key, v) \<in> set (map (\<lambda>e. (key_of e, val_of e)) (filter (\<lambda>e. e \<noteq> 0) t)) \<longleftrightarrow>
   (\<exists>p < length t. t ! p \<noteq> 0 \<and> key_of (t ! p) = key \<and> val_of (t ! p) = v)"
  unfolding set_map set_filter image_iff in_set_conv_nth by (simp, metis)

lemma table_map_iff:
  assumes "keys_ok t"
  shows "table_map t key = Some v \<longleftrightarrow> (\<exists>p < length t. t ! p \<noteq> 0 \<and> key_of (t ! p) = key \<and> val_of (t ! p) = v)"
proof
  assume "table_map t key = Some v"
  then show "\<exists>p < length t. t ! p \<noteq> 0 \<and> key_of (t ! p) = key \<and> val_of (t ! p) = v"
    unfolding table_entries [symmetric] table_map_def by (rule map_of_SomeD)
next
  assume R: "\<exists>p < length t. t ! p \<noteq> 0 \<and> key_of (t ! p) = key \<and> val_of (t ! p) = v"
  then obtain v' where v': "table_map t key = Some v'"
    unfolding table_entries [symmetric] table_map_def using weak_map_of_SomeI by metis
  from map_of_SomeD [OF this [unfolded table_map_def], unfolded table_entries]
  have "v' = v" using R assms unfolding keys_ok_def by blast
  then show "table_map t key = Some v" using v' by simp
qed

text \<open>Two tables with the same entries, and one more or one less, represent the map they should.\<close>

lemma table_map_eqI:
  assumes "keys_ok t" "\<And>key v. (\<exists>p < length t. t ! p \<noteq> 0 \<and> key_of (t ! p) = key \<and> val_of (t ! p) = v) \<longleftrightarrow> m key = Some v"
  shows "table_map t = m"
  by (rule ext, rule option_eqI) (unfold table_map_iff [OF assms(1)], rule assms(2))

subsection \<open>Probing\<close>

lemma probe_skip:
  assumes "table_size t" "s < length t" "p < length t"
    and "\<And>x. x < length t \<Longrightarrow> passes (length t) s p x \<Longrightarrow> t ! x \<noteq> 0 \<and> key_of (t ! x) \<noteq> key"
    and "cdist (length t) s p < n"
  shows "probe t key s n = probe t key p (n - cdist (length t) s p)"
  using assms
proof (induction n arbitrary: s)
  case (Suc n)
  show ?case
  proof (cases "s = p")
    case True
    then show ?thesis by (simp add: cdist_def)
  next
    case False
    let ?s = "succ_of (length t) s"
    have d: "cdist (length t) s p = Suc (cdist (length t) ?s p)" using cdist_succ [OF Suc.prems(2,3) False] .
    have "t ! s \<noteq> 0 \<and> key_of (t ! s) \<noteq> key"
      using Suc.prems(2,3,4) False passes_succ [OF Suc.prems(2,3) Suc.prems(2) False] by blast
    then have "probe t key s (Suc n) = probe t key ?s n"
      using succ_mask [OF Suc.prems(1,2)] by simp
    also have "\<dots> = probe t key p (n - cdist (length t) ?s p)"
    proof (rule Suc.IH [OF Suc.prems(1) succ_lt [OF Suc.prems(2)] Suc.prems(3)])
      show "t ! x \<noteq> 0 \<and> key_of (t ! x) \<noteq> key" if "x < length t" "passes (length t) ?s p x" for x
        using Suc.prems(4) that passes_succ [OF Suc.prems(2,3) that(1) False] by blast
      show "cdist (length t) ?s p < n" using Suc.prems(5) d by simp
    qed
    finally show ?thesis using d by simp
  qed
qed simp

text \<open>The probe for a key stops at its entry, or at the first empty place when it has none.\<close>

lemma first_empty:
  assumes "z < length t" "t ! z = 0" "s < length t"
  obtains p where "p < length t" "t ! p = 0" "\<And>x. x < length t \<Longrightarrow> passes (length t) s p x \<Longrightarrow> t ! x \<noteq> 0"
proof -
  let ?P = "\<lambda>d. \<exists>p < length t. t ! p = 0 \<and> cdist (length t) s p = d"
  have "?P (cdist (length t) s z)" using assms by blast
  then obtain d where d: "?P d" "\<And>d'. d' < d \<Longrightarrow> \<not> ?P d'" using exists_least_iff [of ?P] by blast
  then show ?thesis using that unfolding passes_def by blast
qed

lemma probe_present:
  assumes ok: "table_ok t" and p: "p < length t" "t ! p \<noteq> 0" "key_of (t ! p) = key"
  shows "probe t key (home_of t key) (length t) = Some p"
proof -
  let ?h = "home_of t key"
  have ts: "table_size t" using ok by (simp add: table_ok_def)
  have "t ! x \<noteq> 0 \<and> key_of (t ! x) \<noteq> key" if "x < length t" "passes (length t) ?h p x" for x
  proof -
    have "entry_ok t p" using ok p by (simp add: table_ok_def)
    then have "t ! x \<noteq> 0" using that p(3) by (simp add: entry_ok_def)
    moreover have "x \<noteq> p" using that(2) by auto
    ultimately show ?thesis using ok p that(1) by (auto simp: table_ok_def keys_ok_def)
  qed
  moreover have lt: "cdist (length t) ?h p < length t" by (rule cdist_lt [OF home_lt [OF ts] p(1)])
  ultimately have "probe t key ?h (length t) = probe t key p (length t - cdist (length t) ?h p)"
    by (rule probe_skip [OF ts home_lt [OF ts] p(1)])
  moreover obtain k where "length t - cdist (length t) ?h p = Suc k" using lt by (metis Suc_diff_Suc)
  ultimately show ?thesis using p(3) by simp
qed

lemma probe_absent:
  assumes ok: "table_ok t" and no: "\<And>p. p < length t \<Longrightarrow> t ! p \<noteq> 0 \<Longrightarrow> key_of (t ! p) \<noteq> key"
  obtains p where "probe t key (home_of t key) (length t) = Some p" "p < length t" "t ! p = 0"
    "\<And>x. x < length t \<Longrightarrow> passes (length t) (home_of t key) p x \<Longrightarrow> t ! x \<noteq> 0"
proof -
  let ?h = "home_of t key"
  have ts: "table_size t" using ok by (simp add: table_ok_def)
  obtain p where p: "p < length t" "t ! p = 0" "\<And>x. x < length t \<Longrightarrow> passes (length t) ?h p x \<Longrightarrow> t ! x \<noteq> 0"
    using ok first_empty [OF _ _ home_lt [OF ts]] unfolding table_ok_def by metis
  have lt: "cdist (length t) ?h p < length t" by (rule cdist_lt [OF home_lt [OF ts] p(1)])
  have "probe t key ?h (length t) = probe t key p (length t - cdist (length t) ?h p)"
    using probe_skip [OF ts home_lt [OF ts] p(1) _ lt] p(3) no by blast
  moreover obtain k where "length t - cdist (length t) ?h p = Suc k" using lt by (metis Suc_diff_Suc)
  ultimately have "probe t key ?h (length t) = Some p" using p(2) by simp
  then show ?thesis using that p by blast
qed

lemma table_lookup_map:
  assumes "table_ok t"
  shows "table_lookup t key = table_map t key"
proof -
  have k: "keys_ok t" using assms by (simp add: table_ok_def)
  show ?thesis
  proof (cases "table_map t key")
    case None
    then have "\<And>p. p < length t \<Longrightarrow> t ! p \<noteq> 0 \<Longrightarrow> key_of (t ! p) \<noteq> key"
      using table_map_iff [OF k, of key] by fastforce
    then obtain p where "probe t key (home_of t key) (length t) = Some p" "t ! p = 0"
      using probe_absent [OF assms] by blast
    then show ?thesis using None by (simp add: table_lookup_def)
  next
    case (Some v)
    then obtain p where p: "p < length t" "t ! p \<noteq> 0" "key_of (t ! p) = key" "val_of (t ! p) = v"
      using table_map_iff [OF k] by blast
    then show ?thesis using probe_present [OF assms p(1-3)] Some by (simp add: table_lookup_def)
  qed
qed

subsection \<open>Insertion\<close>

lemma upd_len [simp]: "home_of (t[s := e]) = home_of t" "table_size (t[s := e]) = table_size t"
  by (rule ext) (simp_all add: home_of_def table_mask_def table_size_def)

lemma entry_ok_upd:
  assumes "entry_ok t p" "p \<noteq> s" "e \<noteq> 0" "s < length t"
  shows "entry_ok (t[s := e]) p"
  using assms by (auto simp: entry_ok_def nth_list_update)

lemma some_empty:
  assumes "keys_ok t" "finite D" "card D < length t" "\<And>p. p < length t \<Longrightarrow> t ! p \<noteq> 0 \<Longrightarrow> key_of (t ! p) \<in> D"
  shows "\<exists>p < length t. t ! p = 0"
proof (rule ccontr)
  assume "\<not> ?thesis"
  then have nz: "t ! p \<noteq> 0" if "p < length t" for p using that by simp
  have inj: "inj_on (\<lambda>p. key_of (t ! p)) {..<length t}"
  proof (rule inj_onI)
    fix p q assume "p \<in> {..<length t}" "q \<in> {..<length t}" "key_of (t ! p) = key_of (t ! q)"
    then show "p = q" using nz assms(1) unfolding keys_ok_def by blast
  qed
  have sub: "(\<lambda>p. key_of (t ! p)) ` {..<length t} \<subseteq> D" using assms(4) nz by blast
  have "card {..<length t} \<le> card D" by (rule card_inj_on_le [OF inj sub assms(2)])
  then show False using assms(3) by simp
qed

lemma place_entry:
  assumes ok: "table_size t" "keys_ok t" "\<And>p. p < length t \<Longrightarrow> t ! p \<noteq> 0 \<Longrightarrow> entry_ok t p"
    and s: "s < length t" and v: "v < 2 ^ 32" and key: "key \<noteq> 0"
    and here: "\<And>p. p < length t \<Longrightarrow> t ! p \<noteq> 0 \<Longrightarrow> key_of (t ! p) = key \<longleftrightarrow> p = s"
    and path: "\<And>x. x < length t \<Longrightarrow> passes (length t) (home_of t key) s x \<Longrightarrow> t ! x \<noteq> 0"
    and room: "finite (dom (table_map t))" "card (insert key (dom (table_map t))) < length t"
  shows "table_ok (t[s := pack key v]) \<and> table_map (t[s := pack key v]) = (table_map t)(key \<mapsto> v)"
proof -
  let ?t = "t[s := pack key v]"
  have nz: "pack key v \<noteq> 0" using pack_nonzero [OF v key] .
  have k: "keys_ok ?t"
    using ok(2) here s key v nz unfolding keys_ok_def by (auto simp: nth_list_update)
  have e: "entry_ok ?t p" if "p < length ?t" "?t ! p \<noteq> 0" for p
  proof (cases "p = s")
    case True
    then show ?thesis using path s v nz by (auto simp: entry_ok_def nth_list_update)
  next
    case False
    then show ?thesis using that ok(3) [of p] nz s by (intro entry_ok_upd) simp_all
  qed
  have m: "table_map ?t = (table_map t)(key \<mapsto> v)"
  proof (rule table_map_eqI [OF k])
    fix key' v'
    show "(\<exists>p < length ?t. ?t ! p \<noteq> 0 \<and> key_of (?t ! p) = key' \<and> val_of (?t ! p) = v') \<longleftrightarrow>
        ((table_map t)(key \<mapsto> v)) key' = Some v'"
    proof (cases "key' = key")
      case True
      have "(\<exists>p < length ?t. ?t ! p \<noteq> 0 \<and> key_of (?t ! p) = key \<and> val_of (?t ! p) = v') \<longleftrightarrow>
          ?t ! s \<noteq> 0 \<and> key_of (?t ! s) = key \<and> val_of (?t ! s) = v'"
        using s here by (metis length_list_update nth_list_update_neq)
      then show ?thesis using True s v nz by auto
    next
      case False
      have "(\<exists>p < length ?t. ?t ! p \<noteq> 0 \<and> key_of (?t ! p) = key' \<and> val_of (?t ! p) = v') \<longleftrightarrow>
          (\<exists>p < length t. t ! p \<noteq> 0 \<and> key_of (t ! p) = key' \<and> val_of (t ! p) = v')"
        using s v False here by (metis length_list_update nth_list_update_eq nth_list_update_neq pack_key)
      then show ?thesis using False by (simp add: table_map_iff [OF ok(2)])
    qed
  qed
  have "\<exists>p < length ?t. ?t ! p = 0"
  proof (rule some_empty [OF k, of "insert key (dom (table_map t))"])
    fix p assume "p < length ?t" "?t ! p \<noteq> 0"
    then have "table_map ?t (key_of (?t ! p)) = Some (val_of (?t ! p))" using table_map_iff [OF k] by blast
    then show "key_of (?t ! p) \<in> insert key (dom (table_map t))" unfolding m by (auto split: if_splits)
  qed (use room in simp_all)
  then show ?thesis using ok(1) k e m by (simp add: table_ok_def)
qed

lemma table_insert_ok:
  assumes ok: "table_ok t" and key: "key \<noteq> 0" and v: "v < 2 ^ 32"
    and room: "finite (dom (table_map t))" "card (insert key (dom (table_map t))) < length t"
  shows "table_ok (table_insert t key v) \<and> table_map (table_insert t key v) = (table_map t)(key \<mapsto> v)
    \<and> length (table_insert t key v) = length t"
proof -
  have o: "table_size t" "keys_ok t" "\<And>p. p < length t \<Longrightarrow> t ! p \<noteq> 0 \<Longrightarrow> entry_ok t p"
    using ok by (simp_all add: table_ok_def)
  show ?thesis
  proof (cases "\<exists>p < length t. t ! p \<noteq> 0 \<and> key_of (t ! p) = key")
    case True
    then obtain p where p: "p < length t" "t ! p \<noteq> 0" "key_of (t ! p) = key" by blast
    then have "table_insert t key v = t[p := pack key v]"
      using probe_present [OF ok p] key by (simp add: table_insert_def)
    moreover have "key_of (t ! q) = key \<longleftrightarrow> q = p" if "q < length t" "t ! q \<noteq> 0" for q
      using o(2) p that by (auto simp: keys_ok_def)
    moreover have "t ! x \<noteq> 0" if "x < length t" "passes (length t) (home_of t key) p x" for x
      using o(3) [OF p(1,2)] p(3) that by (simp add: entry_ok_def)
    ultimately show ?thesis using place_entry [OF o p(1) v key _ _ room] by simp
  next
    case False
    then obtain p where p: "probe t key (home_of t key) (length t) = Some p" "p < length t" "t ! p = 0"
      "\<And>x. x < length t \<Longrightarrow> passes (length t) (home_of t key) p x \<Longrightarrow> t ! x \<noteq> 0"
      using probe_absent [OF ok] by blast
    then have "table_insert t key v = t[p := pack key v]" using key by (simp add: table_insert_def)
    moreover have "key_of (t ! q) = key \<longleftrightarrow> q = p" if "q < length t" "t ! q \<noteq> 0" for q
      using False p(3) that by auto
    ultimately show ?thesis using place_entry [OF o p(2) v key _ p(4) room] by simp
  qed
qed

subsection \<open>Removal\<close>

lemma same_entries_map:
  assumes "keys_ok t" "keys_ok u" "set t - {0} = set u - {0}"
  shows "table_map t = table_map u"
proof (rule table_map_eqI [OF assms(1)])
  have e: "(\<exists>p < length x. x ! p \<noteq> 0 \<and> Q (x ! p)) \<longleftrightarrow> (\<exists>y \<in> set x - {0}. Q y)" for x :: "nat list" and Q
    unfolding Bex_def Diff_iff in_set_conv_nth by auto
  show "(\<exists>p < length t. t ! p \<noteq> 0 \<and> key_of (t ! p) = key \<and> val_of (t ! p) = v) \<longleftrightarrow> table_map u key = Some v" for key v
    unfolding table_map_iff [OF assms(2)] e [of _ "\<lambda>x. key_of x = key \<and> val_of x = v"] assms(3) ..
qed

text \<open>The loop's invariant. The place \<open>hole\<close> holds a stale word that counts as empty; the
  places after it up to \<open>j\<close> are occupied, and their entries are reached without crossing it.\<close>

definition shift_inv :: "nat list \<Rightarrow> nat \<Rightarrow> nat \<Rightarrow> nat \<Rightarrow> bool" where
  "shift_inv t hole j z \<longleftrightarrow> table_size t \<and> hole < length t \<and> j < length t \<and> z < length t
     \<and> t ! hole \<noteq> 0 \<and> t ! j \<noteq> 0 \<and> t ! z = 0 \<and> keys_ok (t[hole := 0])
     \<and> (\<forall>p < length t. p \<noteq> hole \<longrightarrow> t ! p \<noteq> 0 \<longrightarrow> entry_ok t p)
     \<and> (\<forall>p < length t. p \<noteq> hole \<longrightarrow> cdist (length t) hole p \<le> cdist (length t) hole j \<longrightarrow>
          t ! p \<noteq> 0 \<and> \<not> passes (length t) (home_of t (key_of (t ! p))) p hole)"

lemma shift_end:
  assumes inv: "shift_inv t hole j z" and e: "t ! succ_of (length t) j = 0"
  shows "table_ok (t[hole := 0])"
proof -
  let ?N = "length t" and ?j = "succ_of (length t) j"
  have i: "table_size t" "hole < ?N" "j < ?N" "t ! hole \<noteq> 0" "keys_ok (t[hole := 0])"
    using inv by (simp_all add: shift_inv_def)
  have "entry_ok (t[hole := 0]) p" if p: "p < ?N" "t[hole := 0] ! p \<noteq> 0" for p
  proof -
    have np: "p \<noteq> hole" "t ! p \<noteq> 0" using p i(2) by (auto simp: nth_list_update split: if_splits)
    let ?h = "home_of t (key_of (t ! p))"
    have h: "?h < ?N" by (rule home_lt [OF i(1)])
    have ent: "t ! x \<noteq> 0" if "x < ?N" "passes ?N ?h p x" for x
      using inv p(1) np that by (simp add: shift_inv_def entry_ok_def)
    have "\<not> passes ?N ?h p hole"
    proof
      assume pass: "passes ?N ?h p hole"
      then have far: "\<not> cdist ?N hole p \<le> cdist ?N hole j" using inv p(1) np by (auto simp: shift_inv_def)
      have jp: "?j \<noteq> p" using e np by auto
      have "passes ?N ?h p ?j"
        using pass far jp h p(1) i(2,3) by (auto simp: cyc split: if_splits)
      then show False using ent [OF succ_lt [OF i(3)]] e by simp
    qed
    then show ?thesis using ent np(1) i(2) by (auto simp: entry_ok_def nth_list_update)
  qed
  then show ?thesis using i by (auto simp: table_ok_def)
qed

lemma shift_not_hole:
  assumes "shift_inv t hole j z"
  shows "succ_of (length t) j \<noteq> hole"
proof
  assume eq: "succ_of (length t) j = hole"
  have i: "hole < length t" "j < length t" "z < length t" "z \<noteq> hole" using assms by (auto simp: shift_inv_def)
  then have "cdist (length t) hole z \<le> cdist (length t) hole j"
    using eq by (auto simp: cyc split: if_splits)
  then show False using assms i by (auto simp: shift_inv_def)
qed

lemma shift_keep:
  assumes inv: "shift_inv t hole j z" and e: "t ! succ_of (length t) j \<noteq> 0"
    and stay: "\<not> passes (length t) (home_of t (key_of (t ! succ_of (length t) j))) (succ_of (length t) j) hole"
  shows "shift_inv t hole (succ_of (length t) j) z"
proof -
  let ?N = "length t" and ?j = "succ_of (length t) j"
  have i: "hole < ?N" "j < ?N" "?j \<noteq> hole" using inv shift_not_hole [OF inv] by (simp_all add: shift_inv_def)
  have "cdist ?N hole p \<le> cdist ?N hole j \<or> p = ?j" if "p < ?N" "cdist ?N hole p \<le> cdist ?N hole ?j" for p
    using that i by (auto simp: cyc split: if_splits)
  then show ?thesis using inv e stay succ_lt [OF i(2)] unfolding shift_inv_def by blast
qed

lemma swap_hole:
  assumes "hole < length t" "j < length t" "hole \<noteq> j"
  shows "mset (t[hole := t ! j, j := 0]) = mset (t[hole := 0])"
proof -
  let ?u = "t[hole := 0]"
  have "t[hole := t ! j, j := 0] = ?u[hole := ?u ! j, j := ?u ! hole]" using assms by (simp add: list_update_overwrite)
  then show ?thesis using mset_swap [of j ?u hole] assms by simp
qed

lemma swap_keys:
  assumes "hole < length t" "j < length t" "hole \<noteq> j" "keys_ok (t[hole := 0])"
  shows "keys_ok (t[hole := t ! j, j := 0])"
proof -
  let ?u = "t[hole := 0]" and ?w = "t[hole := t ! j, j := 0]" and ?f = "\<lambda>p. if p = hole then j else if p = j then hole else p"
  have w: "?w ! p = ?u ! ?f p" if "p < length t" for p using assms(1,2,3) that by (simp add: nth_list_update)
  have f: "?f p < length t" "?f p = ?f q \<longleftrightarrow> p = q" if "p < length t" for p q using assms that by auto
  show ?thesis
    unfolding keys_ok_def length_list_update
  proof (intro conjI allI impI)
    fix p assume "p < length t" "?w ! p \<noteq> 0"
    then show "key_of (?w ! p) \<noteq> 0" using assms(4) f(1) [of p] w [of p] by (auto simp: keys_ok_def)
  next
    fix p q assume pq: "p < length t" "q < length t" "?w ! p \<noteq> 0" "?w ! q \<noteq> 0" "key_of (?w ! p) = key_of (?w ! q)"
    then have "?f p = ?f q"
      using assms(4) f(1) [of p] f(1) [of q] unfolding w [OF pq(1)] w [OF pq(2)] keys_ok_def length_list_update by blast
    then show "p = q" using f(2) [OF pq(1)] by blast
  qed
qed

lemma shift_move:
  assumes inv: "shift_inv t hole j z" and e: "t ! succ_of (length t) j \<noteq> 0"
    and mv: "passes (length t) (home_of t (key_of (t ! succ_of (length t) j))) (succ_of (length t) j) hole"
  shows "shift_inv (t[hole := t ! succ_of (length t) j]) (succ_of (length t) j) (succ_of (length t) j) z"
proof -
  let ?N = "length t" and ?j = "succ_of (length t) j" and ?t = "t[hole := t ! succ_of (length t) j]"
  have i: "table_size t" "hole < ?N" "j < ?N" "z < ?N" "t ! hole \<noteq> 0" "t ! z = 0" "keys_ok (t[hole := 0])" "?j \<noteq> hole"
    using inv shift_not_hole [OF inv] by (simp_all add: shift_inv_def)
  have j: "?j < ?N" by (rule succ_lt [OF i(3)])
  have ent: "entry_ok t p" if "p < ?N" "p \<noteq> hole" "t ! p \<noteq> 0" for p using inv that by (simp add: shift_inv_def)
  have "entry_ok ?t p" if p: "p < ?N" "p \<noteq> ?j" "?t ! p \<noteq> 0" for p
  proof (cases "p = hole")
    case True
    let ?h = "home_of t (key_of (t ! ?j))"
    have "passes ?N ?h ?j x" if "passes ?N ?h hole x" for x using that mv unfolding passes_def by linarith
    then show ?thesis using True ent [OF j i(8) e] e i(2) by (auto simp: entry_ok_def nth_list_update)
  next
    case False
    then show ?thesis using p ent [of p] e i(2) by (intro entry_ok_upd) simp_all
  qed
  moreover have "p = ?j" if "p < ?N" "cdist ?N ?j p \<le> cdist ?N ?j ?j" for p
    using that j by (auto simp: cdist_def split: if_splits)
  moreover have "?t[?j := 0] = t[hole := t ! ?j, ?j := 0]" by simp
  ultimately show ?thesis
    using i j e swap_keys [OF i(2) j i(8) [symmetric] i(7)] unfolding shift_inv_def by (auto simp: nth_list_update)
qed

lemma shift_back_ok:
  assumes "shift_inv t hole j z" "cdist (length t) j z \<le> n"
  shows "\<exists>t'. shift_back t hole j n = Some t' \<and> table_ok t' \<and> set t' - {0} = set (t[hole := 0]) - {0} \<and> length t' = length t"
  using assms
proof (induction n arbitrary: t hole j)
  case 0
  then have "j = z" by (auto simp: cdist_def shift_inv_def split: if_splits)
  then show ?case using 0 by (auto simp: shift_inv_def)
next
  case (Suc n)
  let ?N = "length t" and ?j = "succ_of (length t) j"
  have i: "table_size t" "hole < ?N" "j < ?N" "z < ?N" "j \<noteq> z" using Suc.prems by (auto simp: shift_inv_def)
  have j: "?j < ?N" by (rule succ_lt [OF i(3)])
  note nh = shift_not_hole [OF Suc.prems(1)]
  let ?h = "home_of t (key_of (t ! ?j))"
  have cond: "usub ?j hole AND table_mask t \<le> usub ?j ?h AND table_mask t \<longleftrightarrow> passes ?N ?h ?j hole"
    unfolding cdist_mask [OF i(1,2) j] cdist_mask [OF i(1) home_lt [OF i(1)] j]
    by (rule cdist_le_passes [OF home_lt [OF i(1)] j i(2) nh [symmetric]])
  have fuel: "cdist ?N ?j z \<le> n" using Suc.prems(2) cdist_succ [OF i(3,4,5)] by simp
  show ?case
  proof (cases "t ! ?j = 0")
    case True
    then have "shift_back t hole j (Suc n) = Some (t[hole := 0])" using succ_mask [OF i(1,3)] by (simp add: Let_def)
    then show ?thesis using shift_end [OF Suc.prems(1) True] by simp
  next
    case nz: False
    show ?thesis
    proof (cases "passes ?N ?h ?j hole")
      case True
      let ?t = "t[hole := t ! ?j]"
      have "shift_back t hole j (Suc n) = shift_back ?t ?j ?j n" using nz True cond succ_mask [OF i(1,3)] by (simp add: Let_def)
      moreover have "set (?t[?j := 0]) = set (t[hole := 0])"
        using swap_hole [OF i(2) j nh [symmetric]] by (metis set_mset_mset)
      ultimately show ?thesis using Suc.IH [OF shift_move [OF Suc.prems(1) nz True]] fuel by simp
    next
      case False
      then have "shift_back t hole j (Suc n) = shift_back t hole ?j n" using nz cond succ_mask [OF i(1,3)] by (simp add: Let_def)
      then show ?thesis using Suc.IH [OF shift_keep [OF Suc.prems(1) nz False] fuel] by simp
    qed
  qed
qed

lemma table_remove_ok:
  assumes ok: "table_ok t"
  shows "\<exists>t'. table_remove t key = Some t' \<and> table_ok t' \<and> table_map t' = (table_map t)(key := None) \<and> length t' = length t"
proof -
  have o: "table_size t" "keys_ok t" using ok by (simp_all add: table_ok_def)
  show ?thesis
  proof (cases "\<exists>p < length t. t ! p \<noteq> 0 \<and> key_of (t ! p) = key")
    case False
    then have "table_map t key = None" using table_map_iff [OF o(2)] by (metis not_Some_eq)
    then have m: "(table_map t)(key := None) = table_map t" by auto
    obtain p where "probe t key (home_of t key) (length t) = Some p" "t ! p = 0"
      using probe_absent [OF ok] False by blast
    then have "table_remove t key = Some t" by (simp add: table_remove_def)
    then show ?thesis using ok m by simp
  next
    case True
    then obtain p where p: "p < length t" "t ! p \<noteq> 0" "key_of (t ! p) = key" by blast
    then have "key \<noteq> 0" using o(2) by (auto simp: keys_ok_def)
    then have rem: "table_remove t key = shift_back t p p (length t)"
      using probe_present [OF ok p] p(2) by (simp add: table_remove_def)
    obtain z where z: "z < length t" "t ! z = 0" using ok by (auto simp: table_ok_def)
    have k: "keys_ok (t[p := 0])" using o(2) p(1) by (auto simp: keys_ok_def nth_list_update)
    have "shift_inv t p p z"
      using ok p z k unfolding shift_inv_def table_ok_def by (auto simp: cdist_def)
    then obtain t' where t': "shift_back t p p (length t) = Some t'" "table_ok t'"
      "set t' - {0} = set (t[p := 0]) - {0}" "length t' = length t"
      using shift_back_ok [of t p p z "length t"] cdist_lt [OF p(1) z(1)] by force
    have "table_map t' = table_map (t[p := 0])"
      using same_entries_map [OF _ k t'(3)] t'(2) by (simp add: table_ok_def)
    also have "\<dots> = (table_map t)(key := None)"
    proof (rule table_map_eqI [OF k])
      show "(\<exists>q < length (t[p := 0]). t[p := 0] ! q \<noteq> 0 \<and> key_of (t[p := 0] ! q) = k \<and> val_of (t[p := 0] ! q) = v)
          \<longleftrightarrow> ((table_map t)(key := None)) k = Some v" for k v
        using p o(2) table_map_iff [OF o(2), of k v] by (auto simp: nth_list_update keys_ok_def)
    qed
    finally show ?thesis using rem t' by auto
  qed
qed

subsection \<open>Properties\<close>

text \<open>C21: An open-addressed pid table with linear probing and deletion by backward shift
  implements a finite map. Lookup returns what the map holds; insertion replaces or adds the
  entry, as long as a place stays empty; removal always ends, moves later entries of the probe
  chain into the hole and removes exactly the key. Every operation keeps the chains unbroken,
  so that no other pid is lost.\<close>

theorem probe_table_refines_map:
  assumes "table_ok t" "0 < key" "v < 2 ^ 32"
    and "finite (dom (table_map t))" "card (insert key (dom (table_map t))) < length t"
  shows "table_lookup t = table_map t
    \<and> table_ok (table_insert t key v) \<and> table_map (table_insert t key v) = (table_map t)(key \<mapsto> v)
    \<and> (\<exists>t'. table_remove t key = Some t' \<and> table_ok t' \<and> table_map t' = (table_map t)(key := None) \<and> length t' = length t)"
  using table_lookup_map [OF assms(1)] table_insert_ok [OF assms(1) _ assms(3-5)] table_remove_ok [OF assms(1)] assms(2)
  by (auto intro: ext)

definition chain_table :: "nat list" where
  "chain_table = [pack 4 7, pack 8 2, 0, 0]"

lemma chain_table_ok:
  "table_ok chain_table" "table_map chain_table = [4 \<mapsto> 7, 8 \<mapsto> 2]" "length chain_table = 4"
proof -
  show n: "length chain_table = 4" by (simp add: chain_table_def)
  have nz: "pack 4 7 \<noteq> 0" "pack 8 2 \<noteq> 0" by (simp_all add: pack_nonzero)
  have nth: "chain_table ! p = (if p = 0 then pack 4 7 else if p = 1 then pack 8 2 else 0)" if p4: "p < 4" for p
  proof -
    consider "p = 0" | "p = 1" | "p = 2" | "p = 3" using p4 by linarith
    then show ?thesis by cases (simp_all add: chain_table_def)
  qed
  have sz: "table_size chain_table" unfolding table_size_def by (intro exI [of _ 2]) (simp add: n)
  have h: "home_of chain_table 4 = 0" "home_of chain_table 8 = 0"
    unfolding home_of_def mask_mod [OF sz] n by simp_all
  have "keys_ok chain_table" unfolding keys_ok_def n using nz by (auto simp: nth split: if_splits)
  moreover have "entry_ok chain_table p" if p: "p < 4" "chain_table ! p \<noteq> 0" for p
  proof -
    consider "p = 0" | "p = 1" using p nth by (auto split: if_splits)
    then show ?thesis
    proof cases
      case 1
      have "home_of chain_table (key_of (chain_table ! 0)) = 0" using nth [of 0] h(1) by simp
      then show ?thesis unfolding 1 entry_ok_def n by simp
    next
      case 2
      have "home_of chain_table (key_of (chain_table ! 1)) = 0" using nth [of 1] h(2) by simp
      moreover have "x = 0" if "passes 4 0 1 x" for x using that by (auto simp: passes_def cdist_def)
      moreover have "chain_table ! 0 \<noteq> 0" using nth [of 0] nz by simp
      ultimately show ?thesis unfolding 2 entry_ok_def n by metis
    qed
  qed
  moreover have "chain_table ! 3 = 0" by (simp add: nth)
  ultimately show "table_ok chain_table" unfolding table_ok_def n using sz by (intro conjI exI [of _ 3]) simp_all
  show "table_map chain_table = [4 \<mapsto> 7, 8 \<mapsto> 2]"
    using nz by (auto simp: table_map_def chain_table_def)
qed

theorem probe_table_refines_map_witness:
  "table_lookup chain_table 8 = Some 2 \<and> table_map (table_insert chain_table 4 9) = [4 \<mapsto> 9, 8 \<mapsto> 2]
   \<and> (\<exists>t'. table_remove chain_table 4 = Some t' \<and> table_map t' = [8 \<mapsto> 2])"
proof -
  have d: "insert 4 (dom (table_map chain_table)) = {4, 8}" "finite (dom (table_map chain_table))"
    by (auto simp: chain_table_ok(2))
  have "card (insert 4 (dom (table_map chain_table))) < length chain_table" unfolding d by (simp add: chain_table_ok)
  note r = probe_table_refines_map [OF chain_table_ok(1) _ _ d(2) this, of 9, unfolded chain_table_ok(2)]
  have "[4::nat \<mapsto> 7, 8 \<mapsto> 2](4 \<mapsto> 9) = [4 \<mapsto> 9, 8 \<mapsto> (2::nat)]" "[4::nat \<mapsto> 7, 8 \<mapsto> 2](4 := None) = [8 \<mapsto> (2::nat)]"
    by (auto simp: fun_eq_iff)
  then show ?thesis using r by auto
qed

end
