(* ===== verification/Task.thy ===== *)
theory Task
  imports Slot_Set Probe_Table
begin

text \<open>
  \<open>sched/src/task.rs\<close>: the fields of a task that the run queue, the wait channels and the
  credential checks read and write, the weights of the nice levels and the virtual-time
  arithmetic of the EEVDF policy. The register context, the kernel stack, the signal state
  and the filesystem state of a task are not part of this model. Virtual times are 64-bit
  values kept as naturals with the wrap-around written out.
\<close>

datatype task_state = Ready | Running | Blocked | Stopped | Zombie

definition NICE0_WEIGHT :: nat where "NICE0_WEIGHT = 1024"
definition BASE_SLICE_TICKS :: nat where "BASE_SLICE_TICKS = 4"
definition VT_PER_TICK :: nat where "VT_PER_TICK = 1024"

definition NICE_TO_WEIGHT :: "nat list" where
  "NICE_TO_WEIGHT =
    [88761, 71755, 56483, 46273, 36291,
     29154, 23254, 18705, 14949, 11916,
      9548,  7620,  6100,  4904,  3906,
      3121,  2501,  1991,  1586,  1277,
      1024,   820,   655,   526,   423,
       335,   272,   215,   172,   137,
       110,    87,    70,    56,    45,
        36,    29,    23,    18,    15]"

definition clamp_nice :: "int \<Rightarrow> int" where
  "clamp_nice nice = max (- 20) (min 19 nice)"

definition nice_to_weight :: "int \<Rightarrow> nat" where
  "nice_to_weight nice = NICE_TO_WEIGHT ! nat (clamp_nice nice + 20)"

definition RLIM_NLIMITS :: nat where "RLIM_NLIMITS = 16"
definition RLIM_INFINITY :: nat where "RLIM_INFINITY = 2 ^ 64 - 1"
definition RLIMIT_NOFILE :: nat where "RLIMIT_NOFILE = 7"
definition RLIMIT_NICE :: nat where "RLIMIT_NICE = 13"
definition RLIMIT_RTPRIO :: nat where "RLIMIT_RTPRIO = 14"
definition NR_OPEN :: nat where "NR_OPEN = 2 ^ 20"

definition U64_MAX :: nat where "U64_MAX = 2 ^ 64 - 1"

text \<open>A process limit is a pair of current and maximum.\<close>

record task =
  pid :: nat
  state :: task_state
  priority :: int
  on_cpu :: "nat option"
  weight :: nat
  vruntime :: nat
  vdeadline :: nat
  blocked_on :: "nat option"
  poll_deadline :: nat
  poll_mask :: u64
  blocked_futex :: nat
  has_space :: bool
  ppid :: nat
  tgid :: nat
  pgid :: nat
  sid :: nat
  uid :: nat
  gid :: nat
  euid :: nat
  egid :: nat
  suid :: nat
  sgid :: nat
  rlimits :: "(nat \<times> nat) list"

definition slice_vt :: "nat \<Rightarrow> nat" where
  "slice_vt w = max (BASE_SLICE_TICKS * VT_PER_TICK * NICE0_WEIGHT div w) 1"

definition charge_vruntime :: "task \<Rightarrow> nat \<Rightarrow> task" where
  "charge_vruntime t delta_ticks =
    (let charged = max (umul (umul delta_ticks VT_PER_TICK) NICE0_WEIGHT div weight t) 1;
         t = t\<lparr>vruntime := uadd (vruntime t) charged\<rparr>
     in if vdeadline t \<le> vruntime t then t\<lparr>vdeadline := uadd (vruntime t) (slice_vt (weight t))\<rparr> else t)"

definition place :: "task \<Rightarrow> nat \<Rightarrow> task" where
  "place t min_vruntime =
    (let t = (if vruntime t < min_vruntime then t\<lparr>vruntime := min_vruntime\<rparr> else t)
     in t\<lparr>vdeadline := uadd (vruntime t) (slice_vt (weight t))\<rparr>)"

subsection \<open>Weights\<close>

lemma clamp_nice_bounds: "- 20 \<le> clamp_nice n \<and> clamp_nice n \<le> 19"
  by (simp add: clamp_nice_def)

lemma weights_sorted: "sorted_wrt (>) NICE_TO_WEIGHT"
  by (simp add: NICE_TO_WEIGHT_def)

lemma nice_to_weight_bounds: "15 \<le> nice_to_weight n \<and> nice_to_weight n \<le> 88761"
proof -
  have "nat (clamp_nice n + 20) < length NICE_TO_WEIGHT"
    using clamp_nice_bounds [of n] by (simp add: NICE_TO_WEIGHT_def nat_less_iff)
  then have "nice_to_weight n \<in> set NICE_TO_WEIGHT" by (simp add: nice_to_weight_def)
  then show ?thesis by (auto simp: NICE_TO_WEIGHT_def)
qed

lemma nice_to_weight_antimono:
  assumes "- 20 \<le> m" "m < n" "n \<le> 19"
  shows "nice_to_weight n < nice_to_weight m"
proof -
  have "clamp_nice m = m" "clamp_nice n = n" using assms by (simp_all add: clamp_nice_def)
  moreover have "nat (n + 20) < length NICE_TO_WEIGHT" "nat (m + 20) < nat (n + 20)"
    using assms by (simp_all add: NICE_TO_WEIGHT_def nat_less_iff)
  ultimately show ?thesis
    using sorted_wrt_nth_less [OF weights_sorted] by (simp add: nice_to_weight_def)
qed

lemma slice_bounds: "0 < w \<Longrightarrow> 1 \<le> slice_vt w \<and> slice_vt w \<le> 2 ^ 22"
  by (auto simp: slice_vt_def BASE_SLICE_TICKS_def VT_PER_TICK_def NICE0_WEIGHT_def intro: order.trans [OF div_le_dividend])

subsection \<open>Placement\<close>

lemma place_simps [simp]:
  "pid (place t v) = pid t" "state (place t v) = state t" "weight (place t v) = weight t"
  "on_cpu (place t v) = on_cpu t" "blocked_on (place t v) = blocked_on t" "tgid (place t v) = tgid t"
  "blocked_futex (place t v) = blocked_futex t" "poll_deadline (place t v) = poll_deadline t"
  "poll_mask (place t v) = poll_mask t" "vruntime (place t v) = max (vruntime t) v"
  by (auto simp: place_def Let_def max_def)

end
