(* ===== verification/Run_Queue.thy ===== *)
theory Run_Queue
  imports Task
begin

text \<open>
  \<open>sched/src/runqueue.rs\<close>: the run queue, a table of task slots with an occupancy bitmap, the
  pid index, the two hint sets (possibly runnable, possibly parked) and EEVDF selection. The
  statics the queue writes under its own lock, the pid-to-tgid table of \<open>sched/src/lib.rs\<close>, are
  a field of the state; the tick counter and the stop-the-world filter that \<open>pick_next\<close> reads
  are arguments. The candidate buffer is a local list, and the profiling counters
  (\<open>lockwatch\<close>, \<open>gdwake\<close>, \<open>idlestat\<close>) are left out. Every loop reads a word of the bitmaps before
  it changes bits of that word only at slots it has passed, so it runs over the slots the
  bitmaps held at the start.
\<close>

definition MAX_TASKS :: nat where "MAX_TASKS = 4096"
definition MAX_PROCESSES :: nat where "MAX_PROCESSES = 2048"
definition OCC_WORDS :: nat where "OCC_WORDS = MAX_TASKS div 64"
definition PID_INDEX_SLOTS :: nat where "PID_INDEX_SLOTS = 4 * MAX_TASKS"
definition PID_TGID_SLOTS :: nat where "PID_TGID_SLOTS = 4 * MAX_TASKS"
definition POLL_TAG_ALL :: u64 where "POLL_TAG_ALL = - 1"
definition POLL_WAIT_CHANNEL :: nat where "POLL_WAIT_CHANNEL = 0xFFFFFF01"
definition KWAIT_CHANNEL :: nat where "KWAIT_CHANNEL = 0xFFFFFF03"

record run_queue =
  tasks :: "task option list"
  qlen :: nat
  nproc :: nat
  occupied :: "u64 list"
  maybe_ready :: "u64 list"
  parked :: "u64 list"
  last_full_scan :: nat
  pid_index :: "nat list"
  pid_tgid :: "nat list"

definition rq_new :: run_queue where
  "rq_new = \<lparr>tasks = replicate MAX_TASKS None, qlen = 0, nproc = 0, occupied = replicate OCC_WORDS 0,
     maybe_ready = replicate OCC_WORDS 0, parked = replicate OCC_WORDS 0, last_full_scan = 0,
     pid_index = replicate PID_INDEX_SLOTS 0, pid_tgid = replicate PID_TGID_SLOTS 0\<rparr>"

definition wake_scannable :: "task \<Rightarrow> bool" where
  "wake_scannable t \<longleftrightarrow> state t = Blocked
     \<and> (blocked_on t \<noteq> None \<or> blocked_futex t \<noteq> 0 \<and> poll_deadline t \<noteq> U64_MAX)"

definition live_slots :: "run_queue \<Rightarrow> nat list" where
  "live_slots rq = slots_of (occupied rq)"

definition parked_slots :: "run_queue \<Rightarrow> nat list" where
  "parked_slots rq = slots_of (slots_inter (parked rq) (occupied rq))"

definition task_at :: "run_queue \<Rightarrow> nat \<Rightarrow> task option" where
  "task_at rq i = tasks rq ! i"

definition put_task :: "run_queue \<Rightarrow> nat \<Rightarrow> task \<Rightarrow> run_queue" where
  "put_task rq i t = rq\<lparr>tasks := (tasks rq)[i := Some t]\<rparr>"

definition touch :: "run_queue \<Rightarrow> nat \<Rightarrow> run_queue" where
  "touch rq i = rq\<lparr>maybe_ready := slot_add (maybe_ready rq) i\<rparr>"

subsection \<open>The pid index and the pid-to-tgid table\<close>

definition index_insert :: "run_queue \<Rightarrow> nat \<Rightarrow> nat \<Rightarrow> run_queue" where
  "index_insert rq p i = rq\<lparr>pid_index := table_insert (pid_index rq) p i\<rparr>"

definition index_remove :: "run_queue \<Rightarrow> nat \<Rightarrow> run_queue option" where
  "index_remove rq p = map_option (\<lambda>t. rq\<lparr>pid_index := t\<rparr>) (table_remove (pid_index rq) p)"

definition index_lookup :: "run_queue \<Rightarrow> nat \<Rightarrow> nat option" where
  "index_lookup rq p = table_lookup (pid_index rq) p"

definition reindex :: "run_queue \<Rightarrow> nat \<Rightarrow> run_queue" where
  "reindex rq i = (case task_at rq i of None \<Rightarrow> rq | Some t \<Rightarrow> index_insert rq (pid t) i)"

definition pid_tgid_insert :: "run_queue \<Rightarrow> nat \<Rightarrow> nat \<Rightarrow> run_queue" where
  "pid_tgid_insert rq p g = rq\<lparr>pid_tgid := table_insert (pid_tgid rq) p g\<rparr>"

definition pid_tgid_remove :: "run_queue \<Rightarrow> nat \<Rightarrow> run_queue option" where
  "pid_tgid_remove rq p = map_option (\<lambda>t. rq\<lparr>pid_tgid := t\<rparr>) (table_remove (pid_tgid rq) p)"

definition pid_tgid_get :: "run_queue \<Rightarrow> nat \<Rightarrow> nat option" where
  "pid_tgid_get rq p = table_lookup (pid_tgid rq) p"

definition scan_pid :: "run_queue \<Rightarrow> nat \<Rightarrow> nat option" where
  "scan_pid rq p = find (\<lambda>i. case task_at rq i of None \<Rightarrow> False | Some t \<Rightarrow> pid t = p) (live_slots rq)"

definition find_pid_idx :: "run_queue \<Rightarrow> nat \<Rightarrow> nat option" where
  "find_pid_idx rq p =
    (if p = 0 then scan_pid rq p
     else case index_lookup rq p of
         None \<Rightarrow> None
       | Some i \<Rightarrow> (case task_at rq i of
             None \<Rightarrow> scan_pid rq p
           | Some t \<Rightarrow> if pid t = p then Some i else scan_pid rq p))"

definition find_pid :: "run_queue \<Rightarrow> nat \<Rightarrow> task option" where
  "find_pid rq p = Option.bind (find_pid_idx rq p) (task_at rq)"

text \<open>\<open>find_pid_mut\<close> and \<open>get_mut\<close> followed by a change of the task they hand out.\<close>

definition update_slot :: "run_queue \<Rightarrow> nat \<Rightarrow> (task \<Rightarrow> task) \<Rightarrow> run_queue" where
  "update_slot rq i f =
    (let rq = touch rq i in case task_at rq i of None \<Rightarrow> rq | Some t \<Rightarrow> put_task rq i (f t))"

definition update_pid :: "run_queue \<Rightarrow> nat \<Rightarrow> (task \<Rightarrow> task) \<Rightarrow> run_queue" where
  "update_pid rq p f = (case find_pid_idx rq p of None \<Rightarrow> rq | Some i \<Rightarrow> update_slot rq i f)"

definition tgid_of :: "run_queue \<Rightarrow> nat \<Rightarrow> nat" where
  "tgid_of rq p =
    (case pid_tgid_get rq p of Some t \<Rightarrow> t
     | None \<Rightarrow> (case find_pid rq p of Some t \<Rightarrow> tgid t | None \<Rightarrow> p))"

subsection \<open>Entering and leaving the queue\<close>

definition runnable :: "task \<Rightarrow> bool" where
  "runnable t \<longleftrightarrow> state t = Ready \<or> state t = Running"

definition min_step :: "run_queue \<Rightarrow> nat \<Rightarrow> nat \<Rightarrow> nat" where
  "min_step rq i m =
    (case task_at rq i of None \<Rightarrow> m | Some t \<Rightarrow> if runnable t \<and> vruntime t < m then vruntime t else m)"

definition min_vruntime :: "run_queue \<Rightarrow> nat" where
  "min_vruntime rq =
    (let m = fold (min_step rq) (slots_of (slots_inter (maybe_ready rq) (occupied rq))) U64_MAX
     in if m = U64_MAX then 0 else m)"

fun free_slot_from :: "nat \<Rightarrow> u64 list \<Rightarrow> nat option" where
  "free_slot_from w [] = None"
| "free_slot_from w (x # xs) =
    (let free = NOT x in if free \<noteq> 0 then Some (w * 64 + word_ctz free) else free_slot_from (w + 1) xs)"

definition rq_free_slot :: "run_queue \<Rightarrow> nat option" where
  "rq_free_slot rq = free_slot_from 0 (occupied rq)"

definition rq_enqueue :: "run_queue \<Rightarrow> task \<Rightarrow> bool \<times> run_queue" where
  "rq_enqueue rq t =
    (case rq_free_slot rq of
       None \<Rightarrow> (False, rq)
     | Some i \<Rightarrow>
         let t = place t (min_vruntime rq);
             rq = pid_tgid_insert rq (pid t) (tgid t);
             rq = (if pid t = tgid t then rq\<lparr>nproc := nproc rq + 1\<rparr> else rq);
             rq = put_task rq i t;
             rq = touch (rq\<lparr>occupied := slot_add (occupied rq) i\<rparr>) i;
             rq = index_insert rq (pid t) i
         in (True, rq\<lparr>qlen := qlen rq + 1\<rparr>))"

definition process_count :: "run_queue \<Rightarrow> nat" where
  "process_count rq = nproc rq"

definition note_leader_promoted :: "run_queue \<Rightarrow> run_queue" where
  "note_leader_promoted rq = rq\<lparr>nproc := nproc rq + 1\<rparr>"

definition rq_remove :: "run_queue \<Rightarrow> nat \<Rightarrow> (task option \<times> run_queue) option" where
  "rq_remove rq i =
    (case task_at rq i of
       None \<Rightarrow> Some (None, rq)
     | Some t \<Rightarrow>
         let rq = rq\<lparr>tasks := (tasks rq)[i := None], qlen := qlen rq - 1,
                     nproc := (if pid t = tgid t then nproc rq - 1 else nproc rq),
                     occupied := slot_del (occupied rq) i, maybe_ready := slot_del (maybe_ready rq) i,
                     parked := slot_del (parked rq) i\<rparr>
         in Option.bind (index_remove rq (pid t)) (\<lambda>rq.
              map_option (Pair (Some t)) (pid_tgid_remove rq (pid t))))"

definition mark_zombie :: "run_queue \<Rightarrow> nat \<Rightarrow> run_queue" where
  "mark_zombie rq p = update_pid rq p (\<lambda>t. t\<lparr>state := Zombie\<rparr>)"

subsection \<open>Selection\<close>

text \<open>The stop-the-world filter of a forking process: siblings of the thread \<open>except\<close> in the
  group \<open>q\<close> are not dispatched.\<close>

definition quiesce_filtered :: "nat \<times> nat \<Rightarrow> nat \<Rightarrow> nat \<Rightarrow> bool" where
  "quiesce_filtered q g p = (case q of (q, except) \<Rightarrow> q \<noteq> 0 \<and> g = q \<and> p \<noteq> except)"

definition pickable :: "nat \<times> nat \<Rightarrow> task \<Rightarrow> bool" where
  "pickable q t \<longleftrightarrow> state t = Ready \<and> on_cpu t = None \<and> \<not> quiesce_filtered q (tgid t) (pid t)"

text \<open>First pass: repair or clear the hints of each visited slot, sum the weights (\<open>u64\<close>) and
  the weighted virtual runtimes (\<open>u128\<close>) of the candidates, and collect them.\<close>

definition hints_step :: "bool \<Rightarrow> run_queue \<Rightarrow> nat \<Rightarrow> task \<Rightarrow> run_queue" where
  "hints_step full rq i t =
    (let rq = (if full \<and> \<not> slot_in (parked rq) i \<and> wake_scannable t
               then rq\<lparr>parked := slot_add (parked rq) i\<rparr> else rq)
     in if state t \<noteq> Ready then
          if state t \<noteq> Running then rq\<lparr>maybe_ready := slot_del (maybe_ready rq) i\<rparr>
          else if full \<and> \<not> slot_in (maybe_ready rq) i then touch rq i else rq
        else if full \<and> \<not> slot_in (maybe_ready rq) i then touch rq i else rq)"

fun pick_pass1 :: "bool \<Rightarrow> nat \<times> nat \<Rightarrow> run_queue \<Rightarrow> nat list \<Rightarrow> run_queue \<times> nat \<times> nat \<times> nat list" where
  "pick_pass1 full q rq [] = (rq, 0, 0, [])"
| "pick_pass1 full q rq (i # is) =
    (case task_at rq i of
       None \<Rightarrow> pick_pass1 full q rq is
     | Some t \<Rightarrow>
         let (rq, sw, swv, cand) = pick_pass1 full q (hints_step full rq i t) is
         in if pickable q t
            then (rq, uadd (weight t) sw, (weight t * vruntime t + swv) mod 2 ^ 128, i # cand)
            else (rq, sw, swv, cand))"

text \<open>Second pass: the eligible candidate with the earliest deadline, and the one with the
  smallest virtual runtime as a fallback; the first one wins a tie.\<close>

definition better :: "(nat \<times> nat) option \<Rightarrow> nat \<Rightarrow> bool" where
  "better b d = (case b of None \<Rightarrow> True | Some (_, d') \<Rightarrow> d < d')"

definition eligible :: "nat \<Rightarrow> nat \<Rightarrow> task \<Rightarrow> bool" where
  "eligible sw swv t \<longleftrightarrow> vruntime t * sw mod 2 ^ 128 \<le> swv"

fun pick_pass2 :: "run_queue \<Rightarrow> nat \<Rightarrow> nat \<Rightarrow> (nat \<times> nat) option \<Rightarrow> (nat \<times> nat) option \<Rightarrow> nat list \<Rightarrow>
    (nat \<times> nat) option \<times> (nat \<times> nat) option" where
  "pick_pass2 rq sw swv best fallback [] = (best, fallback)"
| "pick_pass2 rq sw swv best fallback (i # is) =
    (case task_at rq i of
       None \<Rightarrow> pick_pass2 rq sw swv best fallback is
     | Some t \<Rightarrow>
         pick_pass2 rq sw swv
           (if eligible sw swv t \<and> better best (vdeadline t) then Some (i, vdeadline t) else best)
           (if better fallback (vruntime t) then Some (i, vruntime t) else fallback) is)"

definition pick_next :: "nat \<Rightarrow> nat \<times> nat \<Rightarrow> run_queue \<Rightarrow> nat option \<times> run_queue" where
  "pick_next now q rq =
    (if qlen rq = 0 then (None, rq)
     else let full = (now \<noteq> last_full_scan rq);
              rq = (if full then rq\<lparr>last_full_scan := now\<rparr> else rq);
              visit = slots_of (if full then occupied rq else slots_inter (maybe_ready rq) (occupied rq));
              (rq, sw, swv, cand) = pick_pass1 full q rq visit
          in if sw = 0 then (None, rq)
             else case pick_pass2 rq sw swv None None cand of
                 (Some (i, _), _) \<Rightarrow> (Some i, rq)
               | (None, Some (i, _)) \<Rightarrow> (Some i, rq)
               | (None, None) \<Rightarrow> (None, rq))"

subsection \<open>Blocking and waking\<close>

definition block_on_port_until :: "run_queue \<Rightarrow> nat \<Rightarrow> nat \<Rightarrow> nat \<Rightarrow> u64 \<Rightarrow> run_queue" where
  "block_on_port_until rq p port deadline pmask =
    (case find_pid_idx rq p of
       None \<Rightarrow> rq
     | Some i \<Rightarrow>
         update_slot (rq\<lparr>parked := slot_add (parked rq) i\<rparr>) i
           (\<lambda>t. t\<lparr>state := Blocked, blocked_on := Some port, poll_deadline := deadline, poll_mask := pmask\<rparr>))"

definition block_on_port :: "run_queue \<Rightarrow> nat \<Rightarrow> nat \<Rightarrow> run_queue" where
  "block_on_port rq p port = block_on_port_until rq p port U64_MAX POLL_TAG_ALL"

definition note_timed_wait :: "run_queue \<Rightarrow> nat \<Rightarrow> run_queue" where
  "note_timed_wait rq p =
    (case find_pid_idx rq p of None \<Rightarrow> rq | Some i \<Rightarrow> rq\<lparr>parked := slot_add (parked rq) i\<rparr>)"

definition make_ready :: "nat \<Rightarrow> task \<Rightarrow> task" where
  "make_ready min_vr t =
    place (t\<lparr>state := Ready, blocked_on := None, poll_deadline := U64_MAX, poll_mask := POLL_TAG_ALL\<rparr>) min_vr"

definition port_wakes :: "nat \<Rightarrow> u64 \<Rightarrow> task \<Rightarrow> bool" where
  "port_wakes port tag t \<longleftrightarrow> blocked_on t = Some port \<and> state t = Blocked
     \<and> (poll_mask t AND tag \<noteq> 0 \<or> tag = POLL_TAG_ALL)"

definition unblock_step :: "nat \<Rightarrow> u64 \<Rightarrow> nat \<Rightarrow> nat \<Rightarrow> run_queue \<times> nat \<Rightarrow> run_queue \<times> nat" where
  "unblock_step port tag min_vr i s =
    (case s of (rq, woken) \<Rightarrow>
     case task_at rq i of
       None \<Rightarrow> (rq, woken)
     | Some t \<Rightarrow>
         if \<not> wake_scannable t then (rq\<lparr>parked := slot_del (parked rq) i\<rparr>, woken)
         else if port_wakes port tag t then (put_task (touch rq i) i (make_ready min_vr t), woken + 1)
         else (rq, woken))"

definition unblock_port_tagged :: "run_queue \<Rightarrow> nat \<Rightarrow> u64 \<Rightarrow> run_queue \<times> nat" where
  "unblock_port_tagged rq port tag = fold (unblock_step port tag (min_vruntime rq)) (parked_slots rq) (rq, 0)"

definition unblock_port :: "run_queue \<Rightarrow> nat \<Rightarrow> run_queue \<times> nat" where
  "unblock_port rq port = unblock_port_tagged rq port POLL_TAG_ALL"

definition kwaiting :: "task \<Rightarrow> bool" where
  "kwaiting t \<longleftrightarrow> state t = Blocked \<and> blocked_on t = Some KWAIT_CHANNEL"

definition wake_kwaiter :: "run_queue \<Rightarrow> nat \<Rightarrow> bool \<times> run_queue" where
  "wake_kwaiter rq p =
    (let min_vr = min_vruntime rq in
     case find_pid_idx rq p of
       None \<Rightarrow> (False, rq)
     | Some i \<Rightarrow>
         let rq = touch rq i in
         (case task_at rq i of
            None \<Rightarrow> (False, rq)
          | Some t \<Rightarrow> if kwaiting t then (True, put_task rq i (make_ready min_vr t)) else (False, rq)))"

definition kwait_step :: "nat \<Rightarrow> nat \<Rightarrow> run_queue \<times> nat \<Rightarrow> run_queue \<times> nat" where
  "kwait_step min_vr i s =
    (case s of (rq, woken) \<Rightarrow>
     case task_at rq i of
       None \<Rightarrow> (rq, woken)
     | Some t \<Rightarrow> if kwaiting t then (put_task (touch rq i) i (make_ready min_vr t), woken + 1) else (rq, woken))"

definition wake_all_kwaiters :: "run_queue \<Rightarrow> run_queue \<times> nat" where
  "wake_all_kwaiters rq = fold (kwait_step (min_vruntime rq)) (parked_slots rq) (rq, 0)"

definition widen_step :: "nat \<Rightarrow> u64 \<Rightarrow> u64 \<Rightarrow> nat \<Rightarrow> run_queue \<Rightarrow> run_queue" where
  "widen_step port match_tag add i rq =
    (case task_at rq i of
       None \<Rightarrow> rq
     | Some t \<Rightarrow>
         if blocked_on t = Some port \<and> state t = Blocked \<and> poll_mask t AND match_tag \<noteq> 0
         then put_task rq i (t\<lparr>poll_mask := poll_mask t OR add\<rparr>) else rq)"

definition widen_port_masks :: "run_queue \<Rightarrow> nat \<Rightarrow> u64 \<Rightarrow> u64 \<Rightarrow> run_queue" where
  "widen_port_masks rq port match_tag add = fold (widen_step port match_tag add) (parked_slots rq) rq"

definition is_poll :: "nat \<Rightarrow> task \<Rightarrow> bool" where
  "is_poll port t \<longleftrightarrow> blocked_on t = Some port \<or> blocked_on t = Some KWAIT_CHANNEL"

definition is_due :: "nat \<Rightarrow> nat \<Rightarrow> u64 \<Rightarrow> task \<Rightarrow> bool" where
  "is_due port now tags t \<longleftrightarrow> is_poll port t \<and> poll_mask t AND tags \<noteq> 0 \<or> poll_deadline t \<le> now"

definition release_due :: "nat \<Rightarrow> nat \<Rightarrow> task \<Rightarrow> task" where
  "release_due port min_vr t =
    (let poll = is_poll port t; futex = (blocked_futex t \<noteq> 0);
         t = t\<lparr>state := Ready\<rparr>;
         t = (if poll then t\<lparr>blocked_on := None, poll_mask := POLL_TAG_ALL\<rparr> else t);
         t = (if futex then t\<lparr>blocked_futex := 0\<rparr> else t)
     in place (t\<lparr>poll_deadline := U64_MAX\<rparr>) min_vr)"

definition due_step :: "nat \<Rightarrow> nat \<Rightarrow> u64 \<Rightarrow> nat \<Rightarrow> nat \<Rightarrow> run_queue \<times> nat \<times> nat \<Rightarrow> run_queue \<times> nat \<times> nat" where
  "due_step port now tags min_vr i s =
    (case s of (rq, new_min, woken) \<Rightarrow>
     case task_at rq i of
       None \<Rightarrow> (rq, new_min, woken)
     | Some t \<Rightarrow>
         if \<not> wake_scannable t then (rq\<lparr>parked := slot_del (parked rq) i\<rparr>, new_min, woken)
         else if \<not> is_poll port t \<and> blocked_futex t = 0 then (rq, new_min, woken)
         else if is_due port now tags t then (put_task (touch rq i) i (release_due port min_vr t), new_min, woken + 1)
         else if poll_deadline t < new_min then (rq, poll_deadline t, woken)
         else (rq, new_min, woken))"

definition wake_due_poll_deadlines :: "run_queue \<Rightarrow> nat \<Rightarrow> nat \<Rightarrow> u64 \<Rightarrow> run_queue \<times> nat \<times> nat" where
  "wake_due_poll_deadlines rq port now tags =
    fold (due_step port now tags (min_vruntime rq)) (parked_slots rq) (rq, U64_MAX, 0)"

end
