(* ===== verification/Run_Queue_Correct.thy ===== *)
theory Run_Queue_Correct
  imports Run_Queue
begin

text \<open>
  The run queue keeps its tables consistent and finds, adds and removes tasks as a map from
  pids to tasks does; \<open>pick_next\<close> returns the eligible task with the earliest virtual deadline;
  a port wake releases exactly the tasks parked on the port that match the tag.
\<close>

subsection \<open>The invariant\<close>

definition holds :: "run_queue \<Rightarrow> nat \<Rightarrow> task \<Rightarrow> bool" where
  "holds rq i t \<longleftrightarrow> i < MAX_TASKS \<and> tasks rq ! i = Some t"

definition task_ok :: "task \<Rightarrow> bool" where
  "task_ok t \<longleftrightarrow> pid t < 2 ^ 32 \<and> tgid t < 2 ^ 32 \<and> 15 \<le> weight t \<and> weight t \<le> 88761 \<and> vruntime t < 2 ^ 64"

definition sizes_ok :: "run_queue \<Rightarrow> bool" where
  "sizes_ok rq \<longleftrightarrow> length (tasks rq) = MAX_TASKS \<and> length (occupied rq) = OCC_WORDS \<and> length (maybe_ready rq) = OCC_WORDS
     \<and> length (parked rq) = OCC_WORDS \<and> length (pid_index rq) = PID_INDEX_SLOTS \<and> length (pid_tgid rq) = PID_TGID_SLOTS"

definition counts_ok :: "run_queue \<Rightarrow> bool" where
  "counts_ok rq \<longleftrightarrow> qlen rq = card {i. \<exists>t. holds rq i t} \<and> nproc rq = card {i. \<exists>t. holds rq i t \<and> pid t = tgid t}"

definition tables_ok :: "run_queue \<Rightarrow> bool" where
  "tables_ok rq \<longleftrightarrow> table_ok (pid_index rq) \<and> table_ok (pid_tgid rq)
     \<and> (\<forall>i < MAX_TASKS. slot_in (occupied rq) i \<longleftrightarrow> (\<exists>t. holds rq i t))
     \<and> (\<forall>p i. table_map (pid_index rq) p = Some i \<longleftrightarrow> p \<noteq> 0 \<and> (\<exists>t. holds rq i t \<and> pid t = p))
     \<and> (\<forall>p g. table_map (pid_tgid rq) p = Some g \<longleftrightarrow> p \<noteq> 0 \<and> (\<exists>i t. holds rq i t \<and> pid t = p \<and> tgid t = g))"

definition hints_ok :: "run_queue \<Rightarrow> bool" where
  "hints_ok rq \<longleftrightarrow> (\<forall>i t. holds rq i t \<longrightarrow> (runnable t \<longrightarrow> slot_in (maybe_ready rq) i) \<and> (wake_scannable t \<longrightarrow> slot_in (parked rq) i))"

definition rq_ok :: "run_queue \<Rightarrow> bool" where
  "rq_ok rq \<longleftrightarrow> sizes_ok rq \<and> counts_ok rq \<and> tables_ok rq \<and> hints_ok rq
     \<and> (\<forall>i t. holds rq i t \<longrightarrow> task_ok t)
     \<and> (\<forall>i j t u. holds rq i t \<longrightarrow> holds rq j u \<longrightarrow> pid t = pid u \<longrightarrow> i = j)"

lemma holds_unique: "holds rq i t \<Longrightarrow> holds rq i u \<Longrightarrow> t = u"
  by (simp add: holds_def)

lemma holds_task_at: "holds rq i t \<Longrightarrow> task_at rq i = Some t"
  by (simp add: holds_def task_at_def)

lemma finite_holds [simp]: "finite {i. \<exists>t. holds rq i t \<and> P t}" "finite {i. \<exists>t. holds rq i t}"
  by (auto simp: holds_def intro: finite_subset [of _ "{..<MAX_TASKS}"])

lemma slot_bound: "sizes_ok rq \<Longrightarrow> i < MAX_TASKS \<Longrightarrow> i < 64 * length (occupied rq) \<and> i < 64 * length (maybe_ready rq) \<and> i < 64 * length (parked rq)"
  by (simp add: sizes_ok_def OCC_WORDS_def MAX_TASKS_def)

lemma sizes_64: "sizes_ok rq \<Longrightarrow> 64 * length (occupied rq) = MAX_TASKS"
  by (simp add: sizes_ok_def OCC_WORDS_def MAX_TASKS_def)

lemma live_slots_iff:
  assumes "rq_ok rq"
  shows "i \<in> set (live_slots rq) \<longleftrightarrow> (\<exists>t. holds rq i t)"
  using assms sizes_64 [of rq] by (auto simp: live_slots_def slots_of_iff rq_ok_def tables_ok_def holds_def)

lemma parked_slots_iff:
  assumes "rq_ok rq"
  shows "i \<in> set (parked_slots rq) \<longleftrightarrow> (\<exists>t. holds rq i t) \<and> slot_in (parked rq) i"
proof -
  have s: "length (parked rq) = OCC_WORDS" "length (occupied rq) = OCC_WORDS" and n: "64 * OCC_WORDS = MAX_TASKS"
    using assms by (simp_all add: rq_ok_def sizes_ok_def OCC_WORDS_def MAX_TASKS_def)
  show ?thesis
    using assms slot_in_inter [of i "parked rq" "occupied rq"]
    by (auto simp: parked_slots_def slots_of_iff s n rq_ok_def tables_ok_def holds_def)
qed

subsection \<open>Lookup\<close>

lemma scan_pid_Some:
  assumes "rq_ok rq"
  shows "scan_pid rq p = Some i \<longleftrightarrow> (\<exists>t. holds rq i t \<and> pid t = p)"
proof -
  let ?P = "\<lambda>i. case task_at rq i of None \<Rightarrow> False | Some t \<Rightarrow> pid t = p"
  have P: "?P i \<longleftrightarrow> (\<exists>t. holds rq i t \<and> pid t = p)" if "i \<in> set (live_slots rq)" for i
    using that unfolding live_slots_iff [OF assms] by (auto simp: holds_def task_at_def)
  show ?thesis
  proof
    assume "scan_pid rq p = Some i"
    then have "i \<in> set (live_slots rq)" "?P i"
      unfolding scan_pid_def find_Some_iff by auto
    then show "\<exists>t. holds rq i t \<and> pid t = p" using P by blast
  next
    assume R: "\<exists>t. holds rq i t \<and> pid t = p"
    then have i: "i \<in> set (live_slots rq)" "?P i" using P live_slots_iff [OF assms] by auto
    then obtain j where j: "scan_pid rq p = Some j" unfolding scan_pid_def by (metis find_None_iff not_Some_eq)
    then have "j \<in> set (live_slots rq)" "?P j" unfolding scan_pid_def find_Some_iff by auto
    then have "j = i" using P R assms unfolding rq_ok_def by blast
    then show "scan_pid rq p = Some i" using j by simp
  qed
qed

lemma find_pid_idx_Some:
  assumes "rq_ok rq"
  shows "find_pid_idx rq p = Some i \<longleftrightarrow> (\<exists>t. holds rq i t \<and> pid t = p)"
proof (cases "p = 0")
  case True
  then show ?thesis using scan_pid_Some [OF assms] by (simp add: find_pid_idx_def)
next
  case False
  have t: "table_ok (pid_index rq)" "\<And>i. table_map (pid_index rq) p = Some i \<longleftrightarrow> (\<exists>t. holds rq i t \<and> pid t = p)"
    using assms False by (auto simp: rq_ok_def tables_ok_def)
  have l: "index_lookup rq p = table_map (pid_index rq) p" by (simp add: index_lookup_def table_lookup_map [OF t(1)])
  show ?thesis
  proof (cases "table_map (pid_index rq) p")
    case None
    then show ?thesis using t(2) [of i] l False by (simp add: find_pid_idx_def)
  next
    case (Some j)
    then obtain u where u: "holds rq j u" "pid u = p" using t(2) by blast
    then have "find_pid_idx rq p = Some j" using Some l False by (simp add: find_pid_idx_def holds_task_at)
    then show ?thesis using t(2) [of i] Some by auto
  qed
qed

lemma find_pid_Some:
  assumes "rq_ok rq"
  shows "find_pid rq p = Some t \<longleftrightarrow> (\<exists>i. holds rq i t) \<and> pid t = p"
proof
  assume "find_pid rq p = Some t"
  then obtain i where "find_pid_idx rq p = Some i" "task_at rq i = Some t" by (auto simp: find_pid_def bind_eq_Some_conv)
  then show "(\<exists>i. holds rq i t) \<and> pid t = p"
    using find_pid_idx_Some [OF assms, of p i] by (metis holds_task_at option.inject)
next
  assume "(\<exists>i. holds rq i t) \<and> pid t = p"
  then obtain i where "holds rq i t" "pid t = p" by blast
  then show "find_pid rq p = Some t"
    using find_pid_idx_Some [OF assms, of p i] by (auto simp: find_pid_def holds_task_at)
qed


lemma tgid_of_ok:
  assumes "rq_ok rq" "p \<noteq> 0"
  shows "tgid_of rq p = (case find_pid rq p of Some t \<Rightarrow> tgid t | None \<Rightarrow> p)"
proof -
  have t: "table_ok (pid_tgid rq)" "\<And>g. table_map (pid_tgid rq) p = Some g \<longleftrightarrow> (\<exists>i t. holds rq i t \<and> pid t = p \<and> tgid t = g)"
    using assms by (auto simp: rq_ok_def tables_ok_def)
  have l: "pid_tgid_get rq p = table_map (pid_tgid rq) p" by (simp add: pid_tgid_get_def table_lookup_map [OF t(1)])
  show ?thesis
  proof (cases "table_map (pid_tgid rq) p")
    case None
    then show ?thesis by (simp add: tgid_of_def l)
  next
    case (Some g)
    then obtain i u where "holds rq i u" "pid u = p" "tgid u = g" using t(2) by blast
    then have "find_pid rq p = Some u" using find_pid_Some [OF assms(1)] by blast
    then show ?thesis using Some \<open>tgid u = g\<close> by (simp add: tgid_of_def l)
  qed
qed

subsection \<open>Adding a task\<close>

lemma free_slot_from_Some:
  "free_slot_from w xs = Some i \<Longrightarrow> \<exists>j < 64 * length xs. i = w * 64 + j \<and> \<not> slot_in xs j"
proof (induction xs arbitrary: w)
  case (Cons x xs)
  show ?case
  proof (cases "NOT x = 0")
    case True
    then have "free_slot_from (w + 1) xs = Some i" using Cons.prems by (simp add: Let_def)
    from Cons.IH [OF this] obtain j where j: "j < 64 * length xs" "i = (w + 1) * 64 + j" "\<not> slot_in xs j" by blast
    moreover have "(64 + j) div 64 = Suc (j div 64)" "(64 + j) mod 64 = j mod 64" by simp_all
    ultimately have "64 + j < 64 * length (x # xs) \<and> i = w * 64 + (64 + j) \<and> \<not> slot_in (x # xs) (64 + j)"
      by (simp add: slot_in_def)
    then show ?thesis by blast
  next
    case False
    let ?k = "word_ctz (NOT x)"
    note k = word_ctz_least(1,2) [OF False]
    then have "\<not> bit x ?k" by (simp add: bit_not_iff)
    then have "?k < 64 * length (x # xs) \<and> \<not> slot_in (x # xs) ?k" using k(1) by (simp add: slot_in_def word_bit_iff)
    then show ?thesis using Cons.prems False by (simp add: Let_def) blast
  qed
qed simp

lemma free_slot_from_None: "free_slot_from w xs = None \<Longrightarrow> j < 64 * length xs \<Longrightarrow> slot_in xs j"
proof (induction xs arbitrary: w j)
  case (Cons x xs)
  then have x: "NOT x = 0" and xs: "free_slot_from (w + 1) xs = None" by (auto simp: Let_def split: if_splits)
  have ones: "bit x k" if "k < 64" for k
  proof -
    have "bit (NOT x) k = bit (0 :: u64) k" using x by simp
    then show ?thesis using that by (simp add: bit_not_iff)
  qed
  show ?case
  proof (cases "j < 64")
    case True
    then show ?thesis using ones by (simp add: slot_in_def word_bit_iff)
  next
    case False
    then obtain k where k: "j = 64 + k" by (metis add.commute le_Suc_ex not_less)
    have "(64 + k) div 64 = Suc (k div 64)" "(64 + k) mod 64 = k mod 64" by simp_all
    then show ?thesis using Cons.IH [OF xs, of k] Cons.prems(2) k by (simp add: slot_in_def)
  qed
qed simp

lemma rq_free_slot_ok:
  assumes "rq_ok rq"
  shows "rq_free_slot rq = Some i \<Longrightarrow> i < MAX_TASKS \<and> (\<forall>t. \<not> holds rq i t)"
    and "rq_free_slot rq = None \<longleftrightarrow> qlen rq = MAX_TASKS"
proof -
  have n: "64 * length (occupied rq) = MAX_TASKS" using assms sizes_64 by (simp add: rq_ok_def)
  have occ: "slot_in (occupied rq) i \<longleftrightarrow> (\<exists>t. holds rq i t)" if "i < MAX_TASKS" for i
    using assms that by (simp add: rq_ok_def tables_ok_def)
  have some: "i < MAX_TASKS \<and> (\<forall>t. \<not> holds rq i t)" if fs: "rq_free_slot rq = Some i" for i
  proof -
    from free_slot_from_Some [OF fs [unfolded rq_free_slot_def]]
    obtain j where "j < 64 * length (occupied rq)" "i = 0 * 64 + j" "\<not> slot_in (occupied rq) j" by blast
    then show ?thesis using occ unfolding n by simp
  qed
  then show "rq_free_slot rq = Some i \<Longrightarrow> i < MAX_TASKS \<and> (\<forall>t. \<not> holds rq i t)" .
  have q: "qlen rq = card {i. \<exists>t. holds rq i t}" using assms by (simp add: rq_ok_def counts_ok_def)
  have sub: "{i. \<exists>t. holds rq i t} \<subseteq> {..<MAX_TASKS}" by (auto simp: holds_def)
  show "rq_free_slot rq = None \<longleftrightarrow> qlen rq = MAX_TASKS"
  proof
    assume none: "rq_free_slot rq = None"
    have "{..<MAX_TASKS} \<subseteq> {i. \<exists>t. holds rq i t}"
    proof
      fix i assume "i \<in> {..<MAX_TASKS}"
      then have i: "i < MAX_TASKS" by simp
      have "slot_in (occupied rq) i"
        using free_slot_from_None [OF none [unfolded rq_free_slot_def], of i] i n by simp
      then show "i \<in> {i. \<exists>t. holds rq i t}" using occ [OF i] by simp
    qed
    from subset_antisym [OF sub this] show "qlen rq = MAX_TASKS" using q by simp
  next
    assume "qlen rq = MAX_TASKS"
    then have all: "{i. \<exists>t. holds rq i t} = {..<MAX_TASKS}" by (intro card_subset_eq [OF _ sub]) (simp_all add: q)
    show "rq_free_slot rq = None"
    proof (cases "rq_free_slot rq")
      case (Some i)
      have "i \<in> {i. \<exists>t. holds rq i t}" unfolding all using some [OF Some] by simp
      then show ?thesis using some [OF Some] by blast
    qed
  qed
qed

lemma fold_min_le: "fold (min_step rq) is m \<le> m"
proof (induction "is" arbitrary: m)
  case (Cons i "is")
  have "min_step rq i m \<le> m" by (auto simp: min_step_def split: option.split)
  then show ?case using Cons [of "min_step rq i m"] by simp
qed simp

lemma min_vruntime_le: "min_vruntime rq < 2 ^ 64"
proof -
  define m where "m = fold (min_step rq) (slots_of (slots_inter (maybe_ready rq) (occupied rq))) U64_MAX"
  have "min_vruntime rq \<le> m" by (simp add: min_vruntime_def m_def [symmetric])
  also have "m \<le> U64_MAX" unfolding m_def by (rule fold_min_le)
  also have "U64_MAX < 2 ^ 64" by (simp add: U64_MAX_def)
  finally show ?thesis .
qed

lemma task_ok_place: "task_ok t \<Longrightarrow> task_ok (place t (min_vruntime rq))"
  using min_vruntime_le [of rq] by (simp add: task_ok_def)

text \<open>There is always room in the tables: they have four places per task.\<close>

lemma table_room:
  assumes "sizes_ok rq" "\<And>p v. table_map tb p = Some v \<Longrightarrow> \<exists>i t. holds rq i t \<and> pid t = p" "length tb = PID_INDEX_SLOTS"
  shows "finite (dom (table_map tb))" "card (insert p (dom (table_map tb))) < length tb"
proof -
  have sub: "dom (table_map tb) \<subseteq> (\<lambda>i. pid (the (tasks rq ! i))) ` {..<MAX_TASKS}"
    using assms(2) by (force simp: holds_def)
  then show fin: "finite (dom (table_map tb))" by (rule finite_subset) simp
  have "card (dom (table_map tb)) \<le> MAX_TASKS"
    using card_mono [OF _ sub] card_image_le [of "{..<MAX_TASKS}" "\<lambda>i. pid (the (tasks rq ! i))"] by fastforce
  then show "card (insert p (dom (table_map tb))) < length tb"
    using card_insert_le_m1 fin assms(3) card_insert_if [OF fin, of p]
    by (auto simp: PID_INDEX_SLOTS_def MAX_TASKS_def split: if_splits)
qed

text \<open>A queue that differs from another one in one slot only.\<close>

definition slot_changed :: "run_queue \<Rightarrow> run_queue \<Rightarrow> nat \<Rightarrow> task option \<Rightarrow> bool" where
  "slot_changed rq rq' i v \<longleftrightarrow> (\<forall>j u. holds rq' j u \<longleftrightarrow> (if j = i then v = Some u else holds rq j u))"

lemma slot_changedI:
  assumes "tasks rq' = (tasks rq)[i := v]" "length (tasks rq) = MAX_TASKS" "i < MAX_TASKS"
  shows "slot_changed rq rq' i v"
  unfolding slot_changed_def holds_def assms(1) using assms(2,3) by (auto simp: nth_list_update)

lemma slot_filled_card:
  assumes "slot_changed rq rq' i (Some t)" "\<forall>u. \<not> holds rq i u"
  shows "card {j. \<exists>u. holds rq' j u \<and> P u} = card {j. \<exists>u. holds rq j u \<and> P u} + (if P t then 1 else 0)"
proof -
  have "{j. \<exists>u. holds rq' j u \<and> P u} = (if P t then {i} else {}) \<union> {j. \<exists>u. holds rq j u \<and> P u}"
    using assms by (auto simp: slot_changed_def)
  then show ?thesis using assms(2) by auto
qed


lemma slot_filled_other:
  assumes "slot_changed rq rq' i (Some t)" "\<forall>u. \<not> holds rq i u" "\<not> P t"
  shows "holds rq' j u \<and> P u \<longleftrightarrow> holds rq j u \<and> P u"
  using assms by (cases "j = i") (auto simp: slot_changed_def)

lemmas slot_filled_count = slot_filled_card [where P = "\<lambda>_. True", simplified]

lemma enqueue_fields:
  assumes "rq_free_slot rq = Some i" "t' = place t (min_vruntime rq)"
  obtains rq' where "rq_enqueue rq t = (True, rq')"
    "tasks rq' = (tasks rq)[i := Some t']" "occupied rq' = slot_add (occupied rq) i"
    "maybe_ready rq' = slot_add (maybe_ready rq) i" "parked rq' = parked rq" "qlen rq' = qlen rq + 1"
    "nproc rq' = nproc rq + (if pid t = tgid t then 1 else 0)"
    "pid_index rq' = table_insert (pid_index rq) (pid t) i" "pid_tgid rq' = table_insert (pid_tgid rq) (pid t) (tgid t)"
proof -
  define rq' where "rq' = snd (rq_enqueue rq t)"
  have e: "rq_enqueue rq t = (True, rq')" using assms(1) by (simp add: rq'_def rq_enqueue_def Let_def)
  show ?thesis
    by (rule that [OF e])
      (simp_all add: rq'_def rq_enqueue_def assms Let_def put_task_def touch_def index_insert_def pid_tgid_insert_def)
qed

lemma table_insert_pid:
  assumes "rq_ok rq" "table_ok tb" "length tb = PID_INDEX_SLOTS" "v < 2 ^ 32"
    "\<And>p v. table_map tb p = Some v \<Longrightarrow> \<exists>i t. holds rq i t \<and> pid t = p"
  shows "table_ok (table_insert tb p v) \<and> length (table_insert tb p v) = PID_INDEX_SLOTS
    \<and> table_map (table_insert tb p v) = (if p = 0 then table_map tb else (table_map tb)(p \<mapsto> v))"
proof (cases "p = 0")
  case True
  then show ?thesis using assms(2,3) by (simp add: table_insert_def)
next
  case False
  have "sizes_ok rq" using assms(1) by (simp add: rq_ok_def)
  note room = table_room [OF this assms(5,3)]
  show ?thesis using table_insert_ok [OF assms(2) False assms(4) room] assms(3) False by simp
qed

lemma enqueue_ok:
  assumes ok: "rq_ok rq" and t: "task_ok t" "\<not> wake_scannable t" and fresh: "find_pid rq (pid t) = None"
    and room: "qlen rq < MAX_TASKS"
  obtains i rq' where "rq_enqueue rq t = (True, rq')" "rq_ok rq'" "\<forall>u. \<not> holds rq i u" "i < MAX_TASKS"
    "slot_changed rq rq' i (Some (place t (min_vruntime rq)))"
proof -
  define t' where "t' = place t (min_vruntime rq)"
  obtain i where fs: "rq_free_slot rq = Some i" using rq_free_slot_ok(2) [OF ok] room by (cases "rq_free_slot rq") auto
  have i: "i < MAX_TASKS" "\<forall>u. \<not> holds rq i u" using rq_free_slot_ok(1) [OF ok fs] by auto
  obtain rq' where e: "rq_enqueue rq t = (True, rq')"
    "tasks rq' = (tasks rq)[i := Some t']" "occupied rq' = slot_add (occupied rq) i"
    "maybe_ready rq' = slot_add (maybe_ready rq) i" "parked rq' = parked rq" "qlen rq' = qlen rq + 1"
    "nproc rq' = nproc rq + (if pid t = tgid t then 1 else 0)"
    "pid_index rq' = table_insert (pid_index rq) (pid t) i" "pid_tgid rq' = table_insert (pid_tgid rq) (pid t) (tgid t)"
    by (rule enqueue_fields [OF fs t'_def])
  have sz: "sizes_ok rq" and tab: "tables_ok rq" and cnt: "counts_ok rq" and hint: "hints_ok rq"
    using ok by (simp_all add: rq_ok_def)
  have ch: "slot_changed rq rq' i (Some t')" by (rule slot_changedI [OF e(2) _ i(1)]) (use sz in \<open>simp add: sizes_ok_def\<close>)
  have new: "pid u \<noteq> pid t" if "holds rq j u" for j u
    using fresh that find_pid_Some [OF ok, of "pid t"] by (metis option.distinct(1))
  have lt: "i < 2 ^ 32" "tgid t < 2 ^ 32" using i(1) t(1) by (auto simp: MAX_TASKS_def task_ok_def)
  have len: "length (pid_index rq) = PID_INDEX_SLOTS" "length (pid_tgid rq) = PID_INDEX_SLOTS"
    using sz by (simp_all add: sizes_ok_def PID_TGID_SLOTS_def PID_INDEX_SLOTS_def)
  have ins1: "table_ok (pid_index rq')" "length (pid_index rq') = PID_INDEX_SLOTS"
      "table_map (pid_index rq') = (if pid t = 0 then table_map (pid_index rq) else (table_map (pid_index rq))(pid t \<mapsto> i))"
    using table_insert_pid [OF ok _ len(1) lt(1), of "pid t"] tab unfolding e(8) tables_ok_def by blast+
  have ins2: "table_ok (pid_tgid rq')" "length (pid_tgid rq') = PID_INDEX_SLOTS"
      "table_map (pid_tgid rq') = (if pid t = 0 then table_map (pid_tgid rq) else (table_map (pid_tgid rq))(pid t \<mapsto> tgid t))"
    using table_insert_pid [OF ok _ len(2) lt(2), of "pid t"] tab unfolding e(9) tables_ok_def by blast+
  have sb: "i < 64 * length (occupied rq)" "i < 64 * length (maybe_ready rq)" using slot_bound [OF sz i(1)] by auto
  have t': "pid t' = pid t" "tgid t' = tgid t" "task_ok t'" "\<not> wake_scannable t'"
    using t task_ok_place [OF t(1), of rq] by (simp_all add: t'_def wake_scannable_def)
  have "sizes_ok rq'" using sz ins1(2) ins2(2) by (simp add: sizes_ok_def e(2-5) PID_TGID_SLOTS_def PID_INDEX_SLOTS_def)
  moreover have "counts_ok rq'"
    using cnt slot_filled_count [OF ch i(2)] slot_filled_card [OF ch i(2), of "\<lambda>u. pid u = tgid u"]
    by (simp add: counts_ok_def e(6,7) t')
  moreover have "tables_ok rq'"
  proof -
    have "slot_in (occupied rq') j \<longleftrightarrow> (\<exists>u. holds rq' j u)" if "j < MAX_TASKS" for j
      using tab that ch slot_in_add [OF sb(1), of j] by (auto simp: tables_ok_def e(3) slot_changed_def)
    moreover have "table_map (pid_index rq') p = Some j \<longleftrightarrow> p \<noteq> 0 \<and> (\<exists>u. holds rq' j u \<and> pid u = p)" for p j
    proof (cases "p = pid t")
      case True
      have "(\<exists>u. holds rq' j u \<and> pid u = p) \<longleftrightarrow> j = i" using True ch new t'(1) by (auto simp: slot_changed_def)
      then show ?thesis using True tab new by (auto simp: ins1(3) tables_ok_def)
    next
      case False
      have "(\<exists>u. holds rq' j u \<and> pid u = p) \<longleftrightarrow> (\<exists>u. holds rq j u \<and> pid u = p)"
        using slot_filled_other [OF ch i(2), of "\<lambda>u. pid u = p"] False t'(1) by simp
      then show ?thesis using False tab by (auto simp: ins1(3) tables_ok_def)
    qed
    moreover have "table_map (pid_tgid rq') p = Some g \<longleftrightarrow> p \<noteq> 0 \<and> (\<exists>j u. holds rq' j u \<and> pid u = p \<and> tgid u = g)" for p g
    proof (cases "p = pid t")
      case True
      have "(\<exists>j u. holds rq' j u \<and> pid u = p \<and> tgid u = g) \<longleftrightarrow> g = tgid t" using True ch new t'(1,2) by (auto simp: slot_changed_def)
      then show ?thesis using True tab new by (auto simp: ins2(3) tables_ok_def)
    next
      case False
      have "(\<exists>j u. holds rq' j u \<and> pid u = p \<and> tgid u = g) \<longleftrightarrow> (\<exists>j u. holds rq j u \<and> pid u = p \<and> tgid u = g)"
        using slot_filled_other [OF ch i(2), of "\<lambda>u. pid u = p \<and> tgid u = g"] False t'(1) by simp
      then show ?thesis using False tab by (auto simp: ins2(3) tables_ok_def)
    qed
    ultimately show ?thesis using ins1(1) ins2(1) by (simp add: tables_ok_def)
  qed
  moreover have "hints_ok rq'"
    using hint ch t'(4) slot_in_add [OF sb(2)] by (auto simp: hints_ok_def e(4,5) slot_changed_def split: if_splits)
  moreover have "task_ok u" if "holds rq' j u" for j u
    using ok ch t'(3) that by (auto simp: rq_ok_def slot_changed_def split: if_splits)
  moreover have "j = k" if "holds rq' j u" "holds rq' k w" "pid u = pid w" for j k u w
    using that ch new t'(1) ok by (auto simp: rq_ok_def slot_changed_def split: if_splits)
  ultimately have "rq_ok rq'" unfolding rq_ok_def by blast
  then show ?thesis using that e(1) ch i unfolding t'_def by blast
qed

subsection \<open>Removing a task\<close>



subsection \<open>Selection\<close>

definition task_of :: "run_queue \<Rightarrow> nat \<Rightarrow> task" where
  "task_of rq i = the (task_at rq i)"

definition candidates :: "nat \<times> nat \<Rightarrow> run_queue \<Rightarrow> nat set" where
  "candidates q rq = {i. \<exists>t. holds rq i t \<and> pickable q t}"

text \<open>Only the hint sets change while the candidates are collected.\<close>

definition same_but_hints :: "run_queue \<Rightarrow> run_queue \<Rightarrow> bool" where
  "same_but_hints rq rq' \<longleftrightarrow> rq' = rq\<lparr>maybe_ready := maybe_ready rq', parked := parked rq'\<rparr>"

lemma same_but_hints_simps:
  assumes "same_but_hints rq rq'"
  shows "tasks rq' = tasks rq" "holds rq' = holds rq" "task_at rq' = task_at rq" "task_of rq' = task_of rq"
proof -
  show t: "tasks rq' = tasks rq" by (subst assms [unfolded same_but_hints_def]) simp
  show "holds rq' = holds rq" by (intro ext) (simp add: holds_def t)
  show "task_at rq' = task_at rq" "task_of rq' = task_of rq" by (intro ext, simp add: task_at_def task_of_def t)+
qed

lemma same_but_hints_trans: "same_but_hints rq rq' \<Longrightarrow> same_but_hints rq' rq'' \<Longrightarrow> same_but_hints rq rq''"
  unfolding same_but_hints_def
  by (metis run_queue.surjective run_queue.update_convs(5,6))

lemma rq_ok_hints:
  assumes "rq_ok rq" "same_but_hints rq rq'" "hints_ok rq'"
    "length (maybe_ready rq') = OCC_WORDS" "length (parked rq') = OCC_WORDS"
  shows "rq_ok rq'"
proof -
  obtain a b where "rq' = rq\<lparr>maybe_ready := a, parked := b\<rparr>" using assms(2) unfolding same_but_hints_def by blast
  then show ?thesis using assms(1,3-5) same_but_hints_simps(2) [OF assms(2)]
    by (simp add: rq_ok_def sizes_ok_def counts_ok_def tables_ok_def)
qed

lemma hints_step_fields:
  "maybe_ready (hints_step full rq i t) =
    (if \<not> runnable t then slot_del (maybe_ready rq) i
     else if full \<and> \<not> slot_in (maybe_ready rq) i then slot_add (maybe_ready rq) i else maybe_ready rq)"
  "parked (hints_step full rq i t) =
    (if full \<and> \<not> slot_in (parked rq) i \<and> wake_scannable t then slot_add (parked rq) i else parked rq)"
  by (cases "state t"; simp add: hints_step_def Let_def touch_def runnable_def)+

lemma hints_step_ok:
  assumes ok: "rq_ok rq" and t: "holds rq i t"
  shows "rq_ok (hints_step full rq i t) \<and> same_but_hints rq (hints_step full rq i t)"
proof -
  let ?r = "hints_step full rq i t"
  have sz: "sizes_ok rq" and hint: "hints_ok rq" using ok by (simp_all add: rq_ok_def)
  have sb: "i < 64 * length (maybe_ready rq)" "i < 64 * length (parked rq)"
    using slot_bound [OF sz, of i] t by (auto simp: holds_def)
  have same: "same_but_hints rq ?r" by (simp add: same_but_hints_def hints_step_def Let_def touch_def)
  have h: "holds ?r = holds rq" by (rule same_but_hints_simps(2) [OF same])
  have mr: "slot_in (maybe_ready ?r) j" if "slot_in (maybe_ready rq) j" "j \<noteq> i \<or> runnable t" for j
    using that unfolding hints_step_fields slot_in_add [OF sb(1)] slot_in_del [OF sb(1)]
    by (cases "runnable t") (auto simp: slot_in_del [OF sb(1)] slot_in_add [OF sb(1)])
  have pk: "slot_in (parked ?r) j" if "slot_in (parked rq) j" for j
    using that unfolding hints_step_fields by (simp add: slot_in_add [OF sb(2)])
  have "hints_ok ?r"
    unfolding hints_ok_def h
  proof (intro allI impI conjI)
    fix j u assume u: "holds rq j u"
    show "slot_in (maybe_ready ?r) j" if r: "runnable u"
    proof (rule mr)
      show "slot_in (maybe_ready rq) j" using hint u r unfolding hints_ok_def by blast
      show "j \<noteq> i \<or> runnable t" using r u holds_unique [OF t] by blast
    qed
    show "slot_in (parked ?r) j" if "wake_scannable u" using hint u that pk unfolding hints_ok_def by blast
  qed
  moreover have "length (maybe_ready ?r) = OCC_WORDS" "length (parked ?r) = OCC_WORDS"
    using sz by (simp_all add: hints_step_fields sizes_ok_def)
  ultimately show ?thesis using rq_ok_hints [OF ok same] same by blast
qed

definition cands :: "nat \<times> nat \<Rightarrow> run_queue \<Rightarrow> nat list \<Rightarrow> nat list" where
  "cands q rq is = filter (\<lambda>i. pickable q (task_of rq i)) is"

definition sum_w :: "run_queue \<Rightarrow> nat list \<Rightarrow> nat" where
  "sum_w rq is = sum_list (map (\<lambda>i. weight (task_of rq i)) is)"

definition sum_wv :: "run_queue \<Rightarrow> nat list \<Rightarrow> nat" where
  "sum_wv rq is = sum_list (map (\<lambda>i. weight (task_of rq i) * vruntime (task_of rq i)) is)"

lemma pick_pass1_ok:
  assumes "rq_ok rq" "\<And>i. i \<in> set is \<Longrightarrow> \<exists>t. holds rq i t"
  shows "\<exists>rq'. pick_pass1 full q rq is =
      (rq', sum_w rq (cands q rq is) mod 2 ^ 64, sum_wv rq (cands q rq is) mod 2 ^ 128, cands q rq is)
    \<and> rq_ok rq' \<and> same_but_hints rq rq'"
  using assms
proof (induction "is" arbitrary: rq)
  case Nil
  then show ?case by (simp add: same_but_hints_def cands_def sum_w_def sum_wv_def)
next
  case (Cons i "is")
  then obtain t where t: "holds rq i t" by auto
  let ?r = "hints_step full rq i t"
  have st: "rq_ok ?r" "same_but_hints rq ?r" using hints_step_ok [OF Cons.prems(1) t] by auto
  note same = same_but_hints_simps [OF st(2)]
  have at: "task_at rq i = Some t" "task_of rq i = t" using holds_task_at [OF t] by (simp_all add: task_of_def)
  have d: "cands q ?r = cands q rq" "sum_w ?r = sum_w rq" "sum_wv ?r = sum_wv rq"
    by (intro ext, simp add: cands_def sum_w_def sum_wv_def same)+
  obtain rq' where rq': "pick_pass1 full q ?r is =
      (rq', sum_w rq (cands q rq is) mod 2 ^ 64, sum_wv rq (cands q rq is) mod 2 ^ 128, cands q rq is)"
      "rq_ok rq'" "same_but_hints ?r rq'"
    using Cons.IH [OF st(1)] Cons.prems(2) unfolding same d by auto
  have c: "cands q rq (i # is) = (if pickable q t then i # cands q rq is else cands q rq is)"
    by (simp add: cands_def at)
  have "pick_pass1 full q rq (i # is) =
      (rq', sum_w rq (cands q rq (i # is)) mod 2 ^ 64, sum_wv rq (cands q rq (i # is)) mod 2 ^ 128, cands q rq (i # is))"
    unfolding c using rq'(1) at
    by (auto simp: sum_w_def sum_wv_def uadd_def mod_add_right_eq Let_def)
  then show ?case using rq'(2) same_but_hints_trans [OF st(2) rq'(3)] by blast
qed

text \<open>The sums do not overflow.\<close>

lemma sum_list_bound: "(\<And>x. x \<in> set xs \<Longrightarrow> f x \<le> b) \<Longrightarrow> sum_list (map f xs) \<le> length xs * (b::nat)"
  by (induction xs) (auto intro!: add_mono)

lemma sums_bound:
  assumes "rq_ok rq" "distinct is" "\<And>i. i \<in> set is \<Longrightarrow> \<exists>t. holds rq i t"
  shows "sum_w rq is < 2 ^ 64" "sum_wv rq is < 2 ^ 128" "\<And>v. v < 2 ^ 64 \<Longrightarrow> v * sum_w rq is < 2 ^ 128"
proof -
  have "set is \<subseteq> {..<MAX_TASKS}" using assms(3) by (auto simp: holds_def)
  then have len: "length is \<le> 4096"
    using distinct_card [OF assms(2)] card_mono [of "{..<MAX_TASKS}" "set is"] by (simp add: MAX_TASKS_def)
  have ok: "weight (task_of rq i) \<le> 88761" "vruntime (task_of rq i) \<le> 2 ^ 64" if i: "i \<in> set is" for i
  proof -
    obtain t where t: "holds rq i t" using assms(3) [OF i] by blast
    then have "task_ok t" "task_of rq i = t" using assms(1) holds_task_at by (auto simp: rq_ok_def task_of_def)
    then show "weight (task_of rq i) \<le> 88761" "vruntime (task_of rq i) \<le> 2 ^ 64" by (simp_all add: task_ok_def)
  qed
  have "sum_w rq is \<le> length is * 88761" unfolding sum_w_def by (rule sum_list_bound) (rule ok(1))
  also have "\<dots> \<le> 4096 * 88761" using len by (rule mult_le_mono1)
  finally have w: "sum_w rq is \<le> 363565056" by simp
  show "sum_w rq is < 2 ^ 64" using w by simp
  have "sum_wv rq is \<le> length is * (88761 * 2 ^ 64)"
    unfolding sum_wv_def by (rule sum_list_bound) (use ok in \<open>intro mult_le_mono\<close>)
  also have "\<dots> \<le> 4096 * (88761 * 2 ^ 64)" using len by (rule mult_le_mono1)
  also have "\<dots> < 2 ^ 128" by simp
  finally show "sum_wv rq is < 2 ^ 128" .
  show "v * sum_w rq is < 2 ^ 128" if "v < 2 ^ 64" for v
  proof -
    have "v * sum_w rq is \<le> 2 ^ 64 * 363565056" using that w by (intro mult_le_mono) simp_all
    also have "\<dots> < 2 ^ 128" by simp
    finally show ?thesis .
  qed
qed

text \<open>What the second pass has found once it has seen the slots of \<open>S\<close>.\<close>

definition best_of :: "(nat \<Rightarrow> nat) \<Rightarrow> nat set \<Rightarrow> (nat \<times> nat) option \<Rightarrow> bool" where
  "best_of f S b = (case b of None \<Rightarrow> S = {} | Some (i, d) \<Rightarrow> i \<in> S \<and> d = f i \<and> (\<forall>j \<in> S. d \<le> f j))"

lemma best_of_step:
  "best_of f S b \<Longrightarrow> best_of f (insert i S) (if better b (f i) then Some (i, f i) else b)"
  by (auto simp: best_of_def better_def split: option.splits intro: order.trans less_imp_le)

lemma pick_pass2_ok:
  assumes "\<And>i. i \<in> set is \<Longrightarrow> \<exists>t. holds rq i t"
    and "best_of (\<lambda>i. vdeadline (task_of rq i)) S best" "best_of (\<lambda>i. vruntime (task_of rq i)) T fallback"
  shows "best_of (\<lambda>i. vdeadline (task_of rq i)) (S \<union> {i \<in> set is. eligible sw swv (task_of rq i)})
      (fst (pick_pass2 rq sw swv best fallback is))
    \<and> best_of (\<lambda>i. vruntime (task_of rq i)) (T \<union> set is) (snd (pick_pass2 rq sw swv best fallback is))"
  using assms
proof (induction "is" arbitrary: S T best fallback)
  case (Cons i "is")
  have "\<exists>t. holds rq i t" by (rule Cons.prems(1)) simp
  then obtain t where "holds rq i t" by blast
  then have t: "task_at rq i = Some t" "task_of rq i = t" using holds_task_at by (auto simp: task_of_def)
  let ?S = "if eligible sw swv t then insert i S else S"
  let ?b = "if eligible sw swv t \<and> better best (vdeadline t) then Some (i, vdeadline t) else best"
  let ?f = "if better fallback (vruntime t) then Some (i, vruntime t) else fallback"
  have "best_of (\<lambda>i. vdeadline (task_of rq i)) ?S ?b" "best_of (\<lambda>i. vruntime (task_of rq i)) (insert i T) ?f"
    using best_of_step [OF Cons.prems(2), of i] best_of_step [OF Cons.prems(3), of i] Cons.prems(2) t(2) by auto
  from Cons.IH [OF _ this] have ih: "best_of (\<lambda>i. vdeadline (task_of rq i)) (?S \<union> {i \<in> set is. eligible sw swv (task_of rq i)})
      (fst (pick_pass2 rq sw swv ?b ?f is)) \<and> best_of (\<lambda>i. vruntime (task_of rq i)) (insert i T \<union> set is)
      (snd (pick_pass2 rq sw swv ?b ?f is))" using Cons.prems(1) by auto
  have e: "?S \<union> {i \<in> set is. eligible sw swv (task_of rq i)} = S \<union> {j \<in> set (i # is). eligible sw swv (task_of rq j)}"
    "insert i T \<union> set is = T \<union> set (i # is)" using t(2) by auto
  have p: "pick_pass2 rq sw swv best fallback (i # is) = pick_pass2 rq sw swv ?b ?f is" by (simp add: t(1))
  show ?case unfolding p using ih unfolding e .
qed simp

text \<open>The candidate with the smallest virtual runtime is always eligible.\<close>

lemma min_eligible:
  assumes "is \<noteq> []"
  shows "\<exists>i \<in> set is. vruntime (task_of rq i) * sum_w rq is \<le> sum_wv rq is"
proof -
  obtain i where i: "i \<in> set is" "\<And>j. j \<in> set is \<Longrightarrow> vruntime (task_of rq i) \<le> vruntime (task_of rq j)"
    using arg_min_if_finite [of "set is" "\<lambda>i. vruntime (task_of rq i)"] assms
    by (metis List.finite_set not_le set_empty)
  have "vruntime (task_of rq i) * sum_list (map (\<lambda>j. weight (task_of rq j)) js)
      \<le> sum_list (map (\<lambda>j. weight (task_of rq j) * vruntime (task_of rq j)) js)" if "set js \<subseteq> set is" for js
    using that
  proof (induction js)
    case (Cons j js)
    have "vruntime (task_of rq i) * weight (task_of rq j) \<le> weight (task_of rq j) * vruntime (task_of rq j)"
      using mult_le_mono2 [OF i(2) [of j]] Cons.prems by (simp add: mult.commute)
    then show ?case using add_mono [OF _ Cons.IH] Cons.prems by (simp add: distrib_left)
  qed simp
  then show ?thesis using i(1) unfolding sum_w_def sum_wv_def by blast
qed

lemma visited_ok:
  assumes ok: "rq_ok rq" and visit: "visit = slots_of (if full then occupied rq else slots_inter (maybe_ready rq) (occupied rq))"
  shows "i \<in> set visit \<Longrightarrow> \<exists>t. holds rq i t" "set (cands q rq visit) = candidates q rq"
proof -
  have n: "64 * length (occupied rq) = MAX_TASKS" "64 * length (maybe_ready rq) = MAX_TASKS" and hint: "hints_ok rq"
    using ok by (simp_all add: rq_ok_def sizes_ok_def OCC_WORDS_def MAX_TASKS_def)
  have occ: "slot_in (occupied rq) i \<longleftrightarrow> (\<exists>t. holds rq i t)" if "i < MAX_TASKS" for i
    using ok that by (simp add: rq_ok_def tables_ok_def)
  have same: "length (maybe_ready rq) = length (occupied rq)" using n by simp
  have v: "i \<in> set visit \<longleftrightarrow> (\<exists>t. holds rq i t) \<and> (full \<or> slot_in (maybe_ready rq) i)" for i
  proof (cases "i < MAX_TASKS")
    case True
    then show ?thesis using occ [OF True] slot_in_inter [of i "maybe_ready rq" "occupied rq"]
      by (auto simp: visit slots_of_iff n same)
  next
    case False
    then show ?thesis by (auto simp: visit slots_of_iff n same holds_def)
  qed
  then show "i \<in> set visit \<Longrightarrow> \<exists>t. holds rq i t" by blast
  have "slot_in (maybe_ready rq) i" if "holds rq i t" "pickable q t" for i t
    using hint that by (auto simp: hints_ok_def pickable_def runnable_def)
  then show "set (cands q rq visit) = candidates q rq"
    using v holds_task_at by (fastforce simp: cands_def candidates_def task_of_def)
qed

text \<open>A candidate is within its share when its virtual runtime is at most the weighted average
  of the candidates.\<close>

definition within_share :: "nat \<times> nat \<Rightarrow> run_queue \<Rightarrow> task \<Rightarrow> bool" where
  "within_share q rq t \<longleftrightarrow>
    vruntime t * (\<Sum>i \<in> candidates q rq. weight (task_of rq i))
      \<le> (\<Sum>i \<in> candidates q rq. weight (task_of rq i) * vruntime (task_of rq i))"

lemma candidates_sums:
  assumes "distinct is" "set is = candidates q rq"
  shows "within_share q rq t \<longleftrightarrow> vruntime t * sum_w rq is \<le> sum_wv rq is"
  unfolding within_share_def sum_w_def sum_wv_def assms(2) [symmetric] sum.distinct_set_conv_list [OF assms(1)] ..

lemma pick_next_ok:
  assumes ok: "rq_ok rq"
  obtains r rq' where "pick_next now q rq = (r, rq')" "rq_ok rq'" "tasks rq' = tasks rq"
    "r = None \<longleftrightarrow> candidates q rq = {}"
    "\<And>i. r = Some i \<Longrightarrow> i \<in> candidates q rq \<and> within_share q rq (task_of rq i)
       \<and> (\<forall>j \<in> candidates q rq. within_share q rq (task_of rq j) \<longrightarrow> vdeadline (task_of rq i) \<le> vdeadline (task_of rq j))"
proof (cases "qlen rq = 0")
  case True
  then have "{i. \<exists>t. holds rq i t} = {}" using ok finite_holds(2) [of rq] by (simp add: rq_ok_def counts_ok_def)
  then have "candidates q rq = {}" by (auto simp: candidates_def)
  moreover have "pick_next now q rq = (None, rq)" using True by (simp add: pick_next_def)
  ultimately show ?thesis using that ok by simp
next
  case False
  define full where "full = (now \<noteq> last_full_scan rq)"
  define r0 where "r0 = (if full then rq\<lparr>last_full_scan := now\<rparr> else rq)"
  define visit where "visit = slots_of (if full then occupied rq else slots_inter (maybe_ready rq) (occupied rq))"
  have h0: "holds r0 = holds rq" "task_of r0 = task_of rq" by (intro ext, simp add: r0_def holds_def task_of_def task_at_def)+
  have ok0: "rq_ok r0" using ok h0 by (simp add: r0_def rq_ok_def sizes_ok_def counts_ok_def tables_ok_def hints_ok_def)
  have f0: "occupied r0 = occupied rq" "maybe_ready r0 = maybe_ready rq" "tasks r0 = tasks rq" by (simp_all add: r0_def)
  have vis: "\<And>i. i \<in> set visit \<Longrightarrow> \<exists>t. holds rq i t" "set (cands q rq visit) = candidates q rq"
    using visited_ok [OF ok visit_def] by blast+
  have c0: "cands q r0 visit = cands q rq visit" "sum_w r0 = sum_w rq" "sum_wv r0 = sum_wv rq"
    by (simp_all add: cands_def h0 fun_eq_iff sum_w_def sum_wv_def)
  let ?C = "cands q rq visit"
  obtain rq' where p1: "pick_pass1 full q r0 visit = (rq', sum_w rq ?C mod 2 ^ 64, sum_wv rq ?C mod 2 ^ 128, ?C)"
      "rq_ok rq'" "same_but_hints r0 rq'"
    using pick_pass1_ok [OF ok0, of visit full q] vis(1) unfolding c0 h0 by blast
  note same = same_but_hints_simps [OF p1(3), unfolded h0 f0]
  have dC: "distinct ?C" by (simp add: cands_def visit_def)
  have hC: "\<exists>t. holds rq i t" if "i \<in> set ?C" for i using that vis(1) by (auto simp: cands_def)
  have bound: "sum_w rq ?C < 2 ^ 64" "sum_wv rq ?C < 2 ^ 128" "\<And>v. v < 2 ^ 64 \<Longrightarrow> v * sum_w rq ?C < 2 ^ 128"
    using sums_bound [OF ok dC] hC by blast+
  have sw: "sum_w rq ?C mod 2 ^ 64 = sum_w rq ?C" "sum_wv rq ?C mod 2 ^ 128 = sum_wv rq ?C" by (rule mod_less [OF bound(1)], rule mod_less [OF bound(2)])
  have share: "within_share q rq t \<longleftrightarrow> vruntime t * sum_w rq ?C \<le> sum_wv rq ?C" for t
    by (rule candidates_sums [OF dC vis(2)])
  have tok: "15 \<le> weight (task_of rq i)" "vruntime (task_of rq i) < 2 ^ 64" if ci: "i \<in> set ?C" for i
  proof -
    obtain t where "holds rq i t" using hC [OF ci] by blast
    then have "task_ok t" "task_of rq i = t" using ok holds_task_at by (auto simp: rq_ok_def task_of_def)
    then show "15 \<le> weight (task_of rq i)" "vruntime (task_of rq i) < 2 ^ 64" by (simp_all add: task_ok_def)
  qed
  have elig: "eligible (sum_w rq ?C) (sum_wv rq ?C) (task_of rq i) \<longleftrightarrow> within_share q rq (task_of rq i)" if "i \<in> set ?C" for i
    using bound(3) [OF tok(2) [OF that]] by (simp add: eligible_def share)
  have pick: "pick_next now q rq = (let (rq', sw, swv, cand) = pick_pass1 full q r0 visit
      in if sw = 0 then (None, rq') else case pick_pass2 rq' sw swv None None cand of
           (Some (i, _), _) \<Rightarrow> (Some i, rq') | (None, Some (i, _)) \<Rightarrow> (Some i, rq') | (None, None) \<Rightarrow> (None, rq'))"
    using False by (simp add: pick_next_def full_def r0_def visit_def Let_def f0)
  show ?thesis
  proof (cases "?C = []")
    case True
    then have "pick_next now q rq = (None, rq')" unfolding pick p1(1) by (simp add: sum_w_def)
    moreover have "candidates q rq = {}" using True vis(2) by simp
    ultimately show ?thesis using that p1(2) same(1) by simp
  next
    case nonempty: False
    then obtain c where c: "c \<in> set ?C" by (cases ?C) auto
    have "weight (task_of rq c) \<le> sum_w rq ?C" unfolding sum_w_def using c by (simp add: member_le_sum_list)
    then have pos: "sum_w rq ?C \<noteq> 0" using tok(1) [OF c] by linarith
    let ?E = "{i \<in> set ?C. within_share q rq (task_of rq i)}"
    have "best_of (\<lambda>i. vdeadline (task_of rq i)) {i \<in> set ?C. eligible (sum_w rq ?C) (sum_wv rq ?C) (task_of rq i)}
        (fst (pick_pass2 rq' (sum_w rq ?C) (sum_wv rq ?C) None None ?C))"
      using pick_pass2_ok [of ?C rq' "{}" None "{}" None "sum_w rq ?C" "sum_wv rq ?C"] hC
      unfolding same by (simp add: best_of_def)
    moreover have "{i \<in> set ?C. eligible (sum_w rq ?C) (sum_wv rq ?C) (task_of rq i)} = ?E" using elig by blast
    ultimately have best: "best_of (\<lambda>i. vdeadline (task_of rq i)) ?E (fst (pick_pass2 rq' (sum_w rq ?C) (sum_wv rq ?C) None None ?C))"
      by simp
    have "?E \<noteq> {}" using min_eligible [OF nonempty, of rq] share by blast
    then obtain i d fb where i: "pick_pass2 rq' (sum_w rq ?C) (sum_wv rq ?C) None None ?C = (Some (i, d), fb)"
      using best by (cases "pick_pass2 rq' (sum_w rq ?C) (sum_wv rq ?C) None None ?C") (auto simp: best_of_def split: option.splits)
    then have sel: "i \<in> ?E" "\<forall>j \<in> ?E. vdeadline (task_of rq i) \<le> vdeadline (task_of rq j)" using best by (auto simp: best_of_def)
    have "pick_next now q rq = (Some i, rq')" unfolding pick p1(1) sw using i pos by simp
    then show ?thesis using that [of "Some i" rq'] p1(2) same(1) sel unfolding vis(2) by auto
  qed
qed

subsection \<open>The empty queue\<close>

lemma table_ok_empty: "N = 2 ^ k \<Longrightarrow> k \<le> 32 \<Longrightarrow> table_ok (replicate N 0) \<and> table_map (replicate N 0) = Map.empty"
  by (auto simp: table_ok_def table_size_def keys_ok_def table_map_def intro!: exI [of _ 0])

lemma slot_in_zero: "i < 64 * n \<Longrightarrow> \<not> slot_in (replicate n 0) i"
  using word_index by (simp add: slot_in_def word_bit_iff)

lemma rq_new_holds: "\<not> holds rq_new i t"
  by (simp add: holds_def rq_new_def)

lemma rq_new_fields:
  "length (tasks rq_new) = MAX_TASKS" "occupied rq_new = replicate OCC_WORDS 0" "maybe_ready rq_new = replicate OCC_WORDS 0"
  "parked rq_new = replicate OCC_WORDS 0" "pid_index rq_new = replicate PID_INDEX_SLOTS 0"
  "pid_tgid rq_new = replicate PID_TGID_SLOTS 0" "qlen rq_new = 0" "nproc rq_new = 0"
  by (simp_all add: rq_new_def)

lemma rq_new_ok: "rq_ok rq_new"
proof -
  have t: "table_ok (replicate PID_INDEX_SLOTS 0)" "table_map (replicate PID_INDEX_SLOTS 0) = Map.empty"
    using table_ok_empty [of PID_INDEX_SLOTS 14] by (simp_all add: PID_INDEX_SLOTS_def MAX_TASKS_def)
  have n: "64 * OCC_WORDS = MAX_TASKS" "PID_TGID_SLOTS = PID_INDEX_SLOTS"
    by (simp_all add: OCC_WORDS_def MAX_TASKS_def PID_TGID_SLOTS_def PID_INDEX_SLOTS_def)
  have "tables_ok rq_new" using t slot_in_zero [of _ OCC_WORDS] by (simp add: tables_ok_def rq_new_holds rq_new_fields n)
  then show ?thesis by (simp add: rq_ok_def rq_new_holds hints_ok_def counts_ok_def sizes_ok_def rq_new_fields n)
qed

subsection \<open>Properties\<close>


definition sample_task :: task where
  "sample_task = \<lparr>pid = 5, state = Ready, priority = 0, on_cpu = None, weight = 1024, vruntime = 7, vdeadline = 0,
     blocked_on = None, poll_deadline = U64_MAX, poll_mask = POLL_TAG_ALL, blocked_futex = 0, has_space = True,
     ppid = 1, tgid = 5, pgid = 5, sid = 1, uid = 1000, gid = 1000, euid = 1000, egid = 1000, suid = 1000, sgid = 1000,
     rlimits = replicate 16 (0, 0)\<rparr>"

lemma sample_task_ok: "task_ok sample_task" "state sample_task = Ready" "pid sample_task = 5"
  by (simp_all add: sample_task_def task_ok_def)

lemma rq_new_find: "find_pid rq_new p = None" "qlen rq_new = 0"
  using find_pid_Some [OF rq_new_ok, of p "the (find_pid rq_new p)"]
  by (cases "find_pid rq_new p") (simp_all add: rq_new_holds rq_new_fields)


text \<open>C23: Selection is EEVDF. \<open>pick_next\<close> answers with nothing only when no task is Ready, off
  every CPU and not held back by a forking process; otherwise it returns such a task whose
  virtual runtime is at most the weighted average of all of them, with the earliest virtual
  deadline among those, whether or not this pick walks the whole table. The sums do not
  overflow, the tasks are not changed, and the hint sets stay supersets of what they stand for.\<close>

theorem pick_next_eevdf:
  assumes "rq_ok rq"
  shows "\<exists>r rq'. pick_next now q rq = (r, rq') \<and> rq_ok rq' \<and> tasks rq' = tasks rq \<and>
    (case r of
       None \<Rightarrow> candidates q rq = {}
     | Some i \<Rightarrow> i \<in> candidates q rq \<and> within_share q rq (task_of rq i)
         \<and> (\<forall>j \<in> candidates q rq. within_share q rq (task_of rq j) \<longrightarrow> vdeadline (task_of rq i) \<le> vdeadline (task_of rq j)))"
proof -
  obtain r rq' where p: "pick_next now q rq = (r, rq')" "rq_ok rq'" "tasks rq' = tasks rq"
    "r = None \<longleftrightarrow> candidates q rq = {}"
    "\<And>i. r = Some i \<Longrightarrow> i \<in> candidates q rq \<and> within_share q rq (task_of rq i)
       \<and> (\<forall>j \<in> candidates q rq. within_share q rq (task_of rq j) \<longrightarrow> vdeadline (task_of rq i) \<le> vdeadline (task_of rq j))"
    using pick_next_ok [OF assms, of now q] by blast
  show ?thesis using p by (cases r) auto
qed

lemma one_task_queue:
  obtains rq' i where "rq_enqueue rq_new sample_task = (True, rq')" "rq_ok rq'" "i \<in> candidates (0, 0) rq'"
proof -
  have "\<not> wake_scannable sample_task" by (simp add: sample_task_def wake_scannable_def)
  then obtain i rq' where e: "rq_enqueue rq_new sample_task = (True, rq')" "rq_ok rq'" "slot_changed rq_new rq' i (Some (place sample_task (min_vruntime rq_new)))"
    using enqueue_ok [OF rq_new_ok sample_task_ok(1)] rq_new_find by (metis MAX_TASKS_def zero_less_numeral)
  then have "holds rq' i (place sample_task (min_vruntime rq_new))" by (simp add: slot_changed_def)
  moreover have "pickable (0, 0) (place sample_task (min_vruntime rq_new))"
    by (simp add: pickable_def quiesce_filtered_def sample_task_def)
  ultimately show ?thesis using that e(1,2) by (auto simp: candidates_def)
qed

theorem pick_next_eevdf_witness:
  "\<exists>rq i rq'. rq_enqueue rq_new sample_task = (True, rq) \<and> pick_next 1 (0, 0) rq = (Some i, rq') \<and> i \<in> candidates (0, 0) rq"
proof -
  obtain rq i where rq: "rq_enqueue rq_new sample_task = (True, rq)" "rq_ok rq" "i \<in> candidates (0, 0) rq"
    by (rule one_task_queue)
  show ?thesis using pick_next_eevdf [OF rq(2), of 1 "(0, 0)"] rq by (auto split: option.splits)
qed

end
