(* ===== verification/Run_Queue_Wake.thy ===== *)
theory Run_Queue_Wake
  imports Run_Queue_Correct
begin

text \<open>
  Blocking and waking: the operations of the run queue that change tasks in place keep its
  invariant, and each of them releases exactly the tasks it should. All of them walk the parked
  slots and apply one step to each, so their effect is a map over the tasks.
\<close>

subsection \<open>Changing one task\<close>

lemma put_task_ok:
  assumes ok: "rq_ok rq" and t: "holds rq i t" and u: "pid u = pid t" "tgid u = tgid t" "task_ok u"
    and hint: "runnable u \<Longrightarrow> slot_in (maybe_ready rq) i" "wake_scannable u \<Longrightarrow> slot_in (parked rq) i"
  shows "rq_ok (put_task rq i u)"
proof -
  let ?r = "put_task rq i u"
  have i: "i < MAX_TASKS" using t by (simp add: holds_def)
  have sz: "sizes_ok rq" and cnt: "counts_ok rq" and tab: "tables_ok rq" and hints: "hints_ok rq"
    using ok by (simp_all add: rq_ok_def)
  have ch: "slot_changed rq ?r i (Some u)"
    by (rule slot_changedI [OF _ _ i]) (use sz in \<open>simp_all add: put_task_def sizes_ok_def\<close>)
  have h: "holds ?r j w \<longleftrightarrow> (if j = i then w = u else holds rq j w)" for j w
    using ch by (auto simp: slot_changed_def)
  have rep: "(\<exists>w. holds ?r j w \<and> P (pid w) (tgid w)) \<longleftrightarrow> (\<exists>w. holds rq j w \<and> P (pid w) (tgid w))" for j P
  proof (cases "j = i")
    case True
    have "(\<exists>w. holds rq i w \<and> P (pid w) (tgid w)) \<longleftrightarrow> P (pid t) (tgid t)" using t holds_unique [OF t] by blast
    then show ?thesis unfolding h using True u(1,2) by simp
  next
    case False
    then show ?thesis unfolding h by simp
  qed
  have f: "occupied ?r = occupied rq" "maybe_ready ?r = maybe_ready rq" "parked ?r = parked rq"
    "qlen ?r = qlen rq" "nproc ?r = nproc rq" "pid_index ?r = pid_index rq" "pid_tgid ?r = pid_tgid rq"
    "length (tasks ?r) = length (tasks rq)"
    by (simp_all add: put_task_def)
  have "sizes_ok ?r" using sz by (simp add: sizes_ok_def f)
  moreover have "counts_ok ?r"
    using cnt unfolding counts_ok_def f rep [where P = "\<lambda>_ _. True", simplified] rep [where P = "\<lambda>p g. p = g"] .
  moreover have "tables_ok ?r"
  proof -
    have a: "(\<exists>w. holds ?r j w) \<longleftrightarrow> (\<exists>w. holds rq j w)" for j using rep [where P = "\<lambda>_ _. True"] by simp
    have b: "(\<exists>w. holds ?r j w \<and> pid w = p) \<longleftrightarrow> (\<exists>w. holds rq j w \<and> pid w = p)" for j p
      using rep [where P = "\<lambda>x _. x = p"] by simp
    have c: "(\<exists>w. holds ?r j w \<and> pid w = p \<and> tgid w = g) \<longleftrightarrow> (\<exists>w. holds rq j w \<and> pid w = p \<and> tgid w = g)" for j p g
      using rep [where P = "\<lambda>x y. x = p \<and> y = g"] by simp
    show ?thesis using tab unfolding tables_ok_def f a b c .
  qed
  moreover have "hints_ok ?r"
    unfolding hints_ok_def f
  proof (intro allI impI)
    fix j w assume "holds ?r j w"
    then consider "j = i" "w = u" | "j \<noteq> i" "holds rq j w" unfolding h by (metis (full_types))
    then show "(runnable w \<longrightarrow> slot_in (maybe_ready rq) j) \<and> (wake_scannable w \<longrightarrow> slot_in (parked rq) j)"
      using hints hint by cases (simp_all add: hints_ok_def)
  qed
  moreover have "task_ok w" if "holds ?r j w" for j w using ok u(3) that unfolding rq_ok_def h by (cases "j = i") simp_all
  moreover have "j = k" if "holds ?r j w" "holds ?r k x" "pid w = pid x" for j k w x
  proof -
    have "\<exists>w'. holds rq j w' \<and> pid w' = pid w" "\<exists>x'. holds rq k x' \<and> pid x' = pid x"
      using that t u(1) unfolding h by (cases "j = i", auto) (cases "k = i", auto)
    then show ?thesis using ok that(3) unfolding rq_ok_def by metis
  qed
  ultimately show ?thesis unfolding rq_ok_def by blast
qed

lemma put_task_holds:
  assumes "rq_ok rq" "i < MAX_TASKS"
  shows "holds (put_task rq i u) j w \<longleftrightarrow> (if j = i then w = u else holds rq j w)"
  using slot_changedI [of "put_task rq i u" rq i "Some u"] assms
  by (auto simp: put_task_def slot_changed_def rq_ok_def sizes_ok_def)

lemma touch_ok:
  assumes ok: "rq_ok rq" and i: "i < MAX_TASKS"
  shows "rq_ok (touch rq i) \<and> same_but_hints rq (touch rq i) \<and> slot_in (maybe_ready (touch rq i)) i \<and> parked (touch rq i) = parked rq"
proof -
  have sz: "sizes_ok rq" using ok by (simp add: rq_ok_def)
  have same: "same_but_hints rq (touch rq i)" by (simp add: same_but_hints_def touch_def)
  have sb: "i < 64 * length (maybe_ready rq)" using slot_bound [OF sz i] by simp
  have "hints_ok (touch rq i)"
    using ok unfolding hints_ok_def same_but_hints_simps(2) [OF same]
    by (auto simp: rq_ok_def hints_ok_def touch_def slot_in_add [OF sb])
  then have "rq_ok (touch rq i)"
    by (rule rq_ok_hints [OF ok same]) (use sz in \<open>simp_all add: touch_def sizes_ok_def\<close>)
  then show ?thesis using same by (simp add: touch_def slot_in_add [OF sb])
qed

lemma park_ok:
  assumes ok: "rq_ok rq" and i: "i < MAX_TASKS" and r: "r = rq\<lparr>parked := slot_add (parked rq) i\<rparr>"
  shows "rq_ok r \<and> same_but_hints rq r \<and> slot_in (parked r) i"
proof -
  have sz: "sizes_ok rq" using ok by (simp add: rq_ok_def)
  have same: "same_but_hints rq r" by (simp add: same_but_hints_def r)
  have sb: "i < 64 * length (parked rq)" using slot_bound [OF sz i] by simp
  have "hints_ok r"
    using ok unfolding hints_ok_def same_but_hints_simps(2) [OF same]
    by (auto simp: rq_ok_def hints_ok_def r slot_in_add [OF sb])
  then have "rq_ok r" by (rule rq_ok_hints [OF ok same]) (use sz in \<open>simp_all add: r sizes_ok_def\<close>)
  then show ?thesis using same by (simp add: r slot_in_add [OF sb])
qed

lemma unpark_ok:
  assumes ok: "rq_ok rq" and t: "holds rq i t" "\<not> wake_scannable t" and r: "r = rq\<lparr>parked := slot_del (parked rq) i\<rparr>"
  shows "rq_ok r \<and> same_but_hints rq r"
proof -
  have sz: "sizes_ok rq" using ok by (simp add: rq_ok_def)
  have i: "i < MAX_TASKS" using t by (simp add: holds_def)
  have same: "same_but_hints rq r" by (simp add: same_but_hints_def r)
  have sb: "i < 64 * length (parked rq)" using slot_bound [OF sz i] by simp
  have "hints_ok r"
    unfolding hints_ok_def same_but_hints_simps(2) [OF same]
  proof (intro allI impI)
    fix j u assume u: "holds rq j u"
    have "j \<noteq> i" if "wake_scannable u" using that t(2) holds_unique [OF t(1)] u by blast
    then show "(runnable u \<longrightarrow> slot_in (maybe_ready r) j) \<and> (wake_scannable u \<longrightarrow> slot_in (parked r) j)"
      using ok u by (simp add: rq_ok_def hints_ok_def r slot_in_del [OF sb])
  qed
  then have "rq_ok r" by (rule rq_ok_hints [OF ok same]) (use sz in \<open>simp_all add: r sizes_ok_def\<close>)
  then show ?thesis using same by blast
qed

subsection \<open>Walking the parked tasks\<close>

text \<open>A step that replaces the task of its slot by \<open>f\<close> of it and folds it into an accumulator by
  \<open>g\<close>, and what a walk of such steps over distinct slots does.\<close>

definition step_ok :: "(nat \<Rightarrow> run_queue \<times> 'a \<Rightarrow> run_queue \<times> 'a) \<Rightarrow> (task \<Rightarrow> task) \<Rightarrow> (task \<Rightarrow> 'a \<Rightarrow> 'a) \<Rightarrow> bool" where
  "step_ok step f g \<longleftrightarrow> (\<forall>rq i t a. rq_ok rq \<longrightarrow> holds rq i t \<longrightarrow>
     (\<exists>rq'. step i (rq, a) = (rq', g t a) \<and> rq_ok rq' \<and> (\<forall>j u. holds rq' j u \<longleftrightarrow> (if j = i then u = f t else holds rq j u))))"

lemma walk_ok:
  assumes "step_ok step f g" "rq_ok rq" "distinct is" "\<And>i. i \<in> set is \<Longrightarrow> \<exists>t. holds rq i t"
  shows "\<exists>rq'. fold step is (rq, a) = (rq', fold (\<lambda>i. g (task_of rq i)) is a) \<and> rq_ok rq'
    \<and> (\<forall>j u. holds rq' j u \<longleftrightarrow> (\<exists>t. holds rq j t \<and> u = (if j \<in> set is then f t else t)))"
  using assms(2-4)
proof (induction "is" arbitrary: rq a)
  case (Cons i "is")
  have "\<exists>t. holds rq i t" by (rule Cons.prems(3)) simp
  then obtain t where t: "holds rq i t" by blast
  then have to: "task_of rq i = t" by (simp add: task_of_def holds_task_at)
  obtain r1 where r1: "step i (rq, a) = (r1, g t a)" "rq_ok r1" "\<And>j u. holds r1 j u \<longleftrightarrow> (if j = i then u = f t else holds rq j u)"
    using assms(1) Cons.prems(1) t unfolding step_ok_def by blast
  have other: "holds r1 j u \<longleftrightarrow> holds rq j u" if "j \<noteq> i" for j u using r1(3) that by simp
  have d: "distinct is" "i \<notin> set is" using Cons.prems(2) by simp_all
  have "\<exists>t. holds r1 j t" if j: "j \<in> set is" for j
  proof -
    have "j \<noteq> i" using j d(2) by blast
    moreover have "\<exists>t. holds rq j t" by (rule Cons.prems(3)) (simp add: j)
    ultimately show ?thesis by (simp add: other)
  qed
  from Cons.IH [OF r1(2) d(1) this, of "g t a"] obtain rq' where rq': "fold step is (r1, g t a) = (rq', fold (\<lambda>i. g (task_of r1 i)) is (g t a))"
    "rq_ok rq'" "\<And>j u. holds rq' j u \<longleftrightarrow> (\<exists>t. holds r1 j t \<and> u = (if j \<in> set is then f t else t))" by blast
  have "task_of r1 j = task_of rq j" if "j \<in> set is" for j
  proof -
    have "j \<noteq> i" using that d(2) by blast
    moreover have "\<exists>u. holds rq j u" using Cons.prems(3) that by simp
    ultimately obtain u where "holds rq j u" "holds r1 j u" by (auto simp: other)
    then show ?thesis by (simp add: task_of_def holds_task_at)
  qed
  then have "fold (\<lambda>i. g (task_of r1 i)) is (g t a) = fold (\<lambda>i. g (task_of rq i)) is (g t a)"
    by (intro fold_cong) simp_all
  moreover have "holds rq' j u \<longleftrightarrow> (\<exists>w. holds rq j w \<and> u = (if j \<in> set (i # is) then f w else w))" for j u
  proof (cases "j = i")
    case True
    then have "holds rq' j u \<longleftrightarrow> u = f t" using rq'(3) r1(3) d(2) by simp
    moreover have "(\<exists>w. holds rq i w \<and> u = f w) \<longleftrightarrow> u = f t" using t holds_unique [OF t] by blast
    ultimately show ?thesis using True by simp
  next
    case False
    then show ?thesis using rq'(3) other by simp
  qed
  ultimately show ?case using r1(1) rq'(1,2) to by auto
qed simp

text \<open>Waking one task that is Blocked: it becomes Ready and is marked possibly runnable.\<close>

lemma wake_one:
  assumes ok: "rq_ok rq" and t: "holds rq i t" and u: "pid u = pid t" "tgid u = tgid t" "task_ok u" "state u = Ready"
  shows "rq_ok (put_task (touch rq i) i u) \<and> (\<forall>j w. holds (put_task (touch rq i) i u) j w \<longleftrightarrow> (if j = i then w = u else holds rq j w))"
proof -
  have i: "i < MAX_TASKS" using t by (simp add: holds_def)
  have tc: "rq_ok (touch rq i)" "same_but_hints rq (touch rq i)" "slot_in (maybe_ready (touch rq i)) i"
    using touch_ok [OF ok i] by auto
  have h: "holds (touch rq i) = holds rq" by (rule same_but_hints_simps(2) [OF tc(2)])
  have "rq_ok (put_task (touch rq i) i u)"
    by (rule put_task_ok [OF tc(1) _ u(1,2,3)]) (use t h tc(3) u(4) in \<open>simp_all add: wake_scannable_def\<close>)
  then show ?thesis using put_task_holds [OF tc(1) i] by (simp add: h)
qed

lemma task_ok_placed: "task_ok t \<Longrightarrow> mv < 2 ^ 64 \<Longrightarrow> task_ok (place t mv)"
  by (simp add: task_ok_def)

lemma make_ready_simps: "pid (make_ready mv t) = pid t" "tgid (make_ready mv t) = tgid t" "state (make_ready mv t) = Ready"
    "task_ok t \<Longrightarrow> mv < 2 ^ 64 \<Longrightarrow> task_ok (make_ready mv t)"
  by (simp_all add: make_ready_def task_ok_def)

lemma unblock_step_ok:
  assumes "mv < 2 ^ 64"
  shows "step_ok (unblock_step port tag mv) (\<lambda>t. if port_wakes port tag t then make_ready mv t else t)
    (\<lambda>t n. if port_wakes port tag t then n + 1 else n)"
  unfolding step_ok_def
proof (intro allI impI)
  fix rq i t and n :: nat assume ok: "rq_ok rq" and t: "holds rq i t"
  have at: "task_at rq i = Some t" by (rule holds_task_at [OF t])
  have tk: "task_ok t" using ok t unfolding rq_ok_def by blast
  have pw: "port_wakes port tag t \<Longrightarrow> wake_scannable t" by (simp add: port_wakes_def wake_scannable_def)
  have same: "(if j = i then u = t else holds rq j u) \<longleftrightarrow> holds rq j u" for j u
  proof (cases "j = i")
    case True
    have "holds rq i u \<longleftrightarrow> u = t" using t holds_unique [OF t] by blast
    then show ?thesis using True by simp
  qed simp
  show "\<exists>rq'. unblock_step port tag mv i (rq, n) = (rq', if port_wakes port tag t then n + 1 else n) \<and> rq_ok rq' \<and>
      (\<forall>j u. holds rq' j u \<longleftrightarrow> (if j = i then u = (if port_wakes port tag t then make_ready mv t else t) else holds rq j u))"
  proof (cases "port_wakes port tag t")
    case True
    have "unblock_step port tag mv i (rq, n) = (put_task (touch rq i) i (make_ready mv t), n + 1)"
      using True pw by (simp add: unblock_step_def at)
    moreover note wake_one [OF ok t make_ready_simps(1,2) make_ready_simps(4) [OF tk assms] make_ready_simps(3)]
    ultimately show ?thesis unfolding if_P [OF True] by blast
  next
    case no: False
    show ?thesis
    proof (cases "wake_scannable t")
      case True
      then have "unblock_step port tag mv i (rq, n) = (rq, n)" using no by (simp add: unblock_step_def at)
      then show ?thesis unfolding if_not_P [OF no] same using ok by blast
    next
      case False
      note u = unpark_ok [OF ok t False refl]
      have h: "holds (rq\<lparr>parked := slot_del (parked rq) i\<rparr>) = holds rq" using u same_but_hints_simps(2) by blast
      have "unblock_step port tag mv i (rq, n) = (rq\<lparr>parked := slot_del (parked rq) i\<rparr>, n)"
        using False no by (simp add: unblock_step_def at)
      then show ?thesis unfolding if_not_P [OF no] same using u by (simp add: h)
    qed
  qed
qed

lemma count_fold: "fold (\<lambda>i n. if P i then n + 1 else n) is n = n + length (filter P is)"
  by (induction "is" arbitrary: n) auto

text \<open>A poll, kernel or timed-futex waiter that the deadline tick looks at.\<close>

definition awaits :: "nat \<Rightarrow> task \<Rightarrow> bool" where
  "awaits port t \<longleftrightarrow> wake_scannable t \<and> (is_poll port t \<or> blocked_futex t \<noteq> 0)"

definition due :: "nat \<Rightarrow> nat \<Rightarrow> u64 \<Rightarrow> task \<Rightarrow> bool" where
  "due port now tags t \<longleftrightarrow> awaits port t \<and> is_due port now tags t"

definition due_acc :: "nat \<Rightarrow> nat \<Rightarrow> u64 \<Rightarrow> task \<Rightarrow> nat \<times> nat \<Rightarrow> nat \<times> nat" where
  "due_acc port now tags t a =
    (if due port now tags t then (fst a, snd a + 1)
     else if awaits port t \<and> poll_deadline t < fst a then (poll_deadline t, snd a) else a)"

lemma release_due_simps: "pid (release_due port mv t) = pid t" "tgid (release_due port mv t) = tgid t"
    "state (release_due port mv t) = Ready" "task_ok t \<Longrightarrow> mv < 2 ^ 64 \<Longrightarrow> task_ok (release_due port mv t)"
  by (simp_all add: release_due_def task_ok_def Let_def)

lemma due_step_ok:
  assumes "mv < 2 ^ 64"
  shows "step_ok (due_step port now tags mv) (\<lambda>t. if due port now tags t then release_due port mv t else t) (due_acc port now tags)"
  unfolding step_ok_def
proof (intro allI impI)
  fix rq i t and a :: "nat \<times> nat" assume ok: "rq_ok rq" and t: "holds rq i t"
  have at: "task_at rq i = Some t" by (rule holds_task_at [OF t])
  have tk: "task_ok t" using ok t unfolding rq_ok_def by blast
  have same: "(if j = i then u = t else holds rq j u) \<longleftrightarrow> holds rq j u" for j u
  proof (cases "j = i")
    case True
    have "holds rq i u \<longleftrightarrow> u = t" using t holds_unique [OF t] by blast
    then show ?thesis using True by simp
  qed simp
  obtain m w where a: "a = (m, w)" by (cases a)
  show "\<exists>rq'. due_step port now tags mv i (rq, a) = (rq', due_acc port now tags t a) \<and> rq_ok rq' \<and>
      (\<forall>j u. holds rq' j u \<longleftrightarrow> (if j = i then u = (if due port now tags t then release_due port mv t else t) else holds rq j u))"
  proof (cases "due port now tags t")
    case True
    then have "due_step port now tags mv i (rq, a) = (put_task (touch rq i) i (release_due port mv t), due_acc port now tags t a)"
      by (simp add: due_step_def at a due_def awaits_def due_acc_def)
    moreover note wake_one [OF ok t release_due_simps(1,2) release_due_simps(4) [OF tk assms] release_due_simps(3)]
    ultimately show ?thesis unfolding if_P [OF True] by blast
  next
    case no: False
    show ?thesis
    proof (cases "wake_scannable t")
      case True
      then have "due_step port now tags mv i (rq, a) = (rq, due_acc port now tags t a)"
        using no by (auto simp: due_step_def at a due_def awaits_def due_acc_def)
      then show ?thesis unfolding if_not_P [OF no] same using ok by blast
    next
      case False
      note u = unpark_ok [OF ok t False refl]
      have h: "holds (rq\<lparr>parked := slot_del (parked rq) i\<rparr>) = holds rq" using u same_but_hints_simps(2) by blast
      have "due_step port now tags mv i (rq, a) = (rq\<lparr>parked := slot_del (parked rq) i\<rparr>, due_acc port now tags t a)"
        using False no by (simp add: due_step_def at a due_acc_def awaits_def)
      then show ?thesis unfolding if_not_P [OF no] same using u by (simp add: h)
    qed
  qed
qed

lemma due_acc_fold:
  fixes tk :: "nat \<Rightarrow> task"
  assumes W_def: "W = (\<lambda>i. awaits port (tk i) \<and> \<not> due port now tags (tk i))"
  shows "snd (fold (\<lambda>i. due_acc port now tags (tk i)) is (m, w)) = w + length (filter (\<lambda>i. due port now tags (tk i)) is)
    \<and> fst (fold (\<lambda>i. due_acc port now tags (tk i)) is (m, w)) \<le> m
    \<and> (\<forall>i \<in> set is. W i \<longrightarrow> fst (fold (\<lambda>i. due_acc port now tags (tk i)) is (m, w)) \<le> poll_deadline (tk i))
    \<and> (fst (fold (\<lambda>i. due_acc port now tags (tk i)) is (m, w)) = m
       \<or> (\<exists>i \<in> set is. W i \<and> fst (fold (\<lambda>i. due_acc port now tags (tk i)) is (m, w)) = poll_deadline (tk i)))"
proof (induction "is" arbitrary: m w)
  case (Cons i "is")
  obtain m1 w1 where a: "due_acc port now tags (tk i) (m, w) = (m1, w1)" by (cases "due_acc port now tags (tk i) (m, w)")
  have m1: "w1 = w + (if due port now tags (tk i) then 1 else 0)" "m1 \<le> m" "W i \<Longrightarrow> m1 \<le> poll_deadline (tk i)"
    "m1 = m \<or> W i \<and> m1 = poll_deadline (tk i)"
    using a unfolding W_def by (auto simp: due_acc_def split: if_splits)
  let ?F = "fold (\<lambda>i. due_acc port now tags (tk i)) is (m1, w1)"
  have f: "fold (\<lambda>i. due_acc port now tags (tk i)) (i # is) (m, w) = ?F" by (simp add: a)
  note ih = Cons.IH [where m = m1 and w = w1]
  show ?case unfolding f using ih m1 by (auto intro: order.trans)
qed simp

lemma card_filter_slots:
  assumes "distinct is" "\<And>i t. holds rq i t \<Longrightarrow> P t \<Longrightarrow> i \<in> set is" "\<And>i. i \<in> set is \<Longrightarrow> \<exists>t. holds rq i t"
  shows "length (filter (\<lambda>i. P (task_of rq i)) is) = card {i. \<exists>t. holds rq i t \<and> P t}"
proof -
  have "length (filter (\<lambda>i. P (task_of rq i)) is) = card {i \<in> set is. P (task_of rq i)}"
    using distinct_card [OF distinct_filter [OF assms(1)], of "\<lambda>i. P (task_of rq i)"] by simp
  also have "{i \<in> set is. P (task_of rq i)} = {i. \<exists>t. holds rq i t \<and> P t}"
    using assms(2,3) holds_task_at unfolding task_of_def by fastforce
  finally show ?thesis .
qed

lemma parked_slots_ok:
  assumes "rq_ok rq"
  shows "distinct (parked_slots rq)" "i \<in> set (parked_slots rq) \<Longrightarrow> \<exists>t. holds rq i t"
    "holds rq i t \<Longrightarrow> wake_scannable t \<Longrightarrow> i \<in> set (parked_slots rq)"
  using assms unfolding parked_slots_iff [OF assms] by (auto simp: parked_slots_def rq_ok_def hints_ok_def)

lemma walk_effect:
  assumes "\<And>i t. holds rq i t \<Longrightarrow> f t \<noteq> t \<Longrightarrow> i \<in> set is"
  shows "(\<exists>t. holds rq j t \<and> u = (if j \<in> set is then f t else t)) \<longleftrightarrow> (\<exists>t. holds rq j t \<and> u = f t)"
  using assms by metis

lemma block_ok:
  assumes ok: "rq_ok rq" and t: "holds rq i t"
  shows "rq_ok (block_on_port_until rq (pid t) port d m) \<and>
    (\<forall>j u. holds (block_on_port_until rq (pid t) port d m) j u \<longleftrightarrow>
      (if j = i then u = t\<lparr>state := Blocked, blocked_on := Some port, poll_deadline := d, poll_mask := m\<rparr> else holds rq j u))"
proof -
  let ?u = "t\<lparr>state := Blocked, blocked_on := Some port, poll_deadline := d, poll_mask := m\<rparr>"
  define r where "r = rq\<lparr>parked := slot_add (parked rq) i\<rparr>"
  have i: "i < MAX_TASKS" using t by (simp add: holds_def)
  have idx: "find_pid_idx rq (pid t) = Some i" using find_pid_idx_Some [OF ok] t by blast
  note p = park_ok [OF ok i r_def]
  note c = touch_ok [OF conjunct1 [OF p] i]
  have h: "holds (touch r i) = holds rq" using p c same_but_hints_simps(2) by metis
  have t': "holds (touch r i) i t" using t h by simp
  have tk: "task_ok ?u" using ok t unfolding rq_ok_def task_ok_def by fastforce
  have b: "block_on_port_until rq (pid t) port d m = put_task (touch r i) i ?u"
    by (simp add: block_on_port_until_def idx update_slot_def holds_task_at [OF t'] flip: r_def)
  have "rq_ok (put_task (touch r i) i ?u)"
    by (rule put_task_ok [OF _ t' _ _ tk]) (use p c in \<open>simp_all add: runnable_def\<close>)
  then show ?thesis using put_task_holds [of "touch r i" i ?u] c i unfolding b h by simp
qed

subsection \<open>Properties\<close>

text \<open>C24: A wake on a port with a tag makes Ready exactly the tasks that are Blocked on that port
  and whose interest mask meets the tag (all of them for a broadcast), counts them, and leaves
  every other task as it was. It looks only at the slots of the parked hint set, and none of the
  waiters is missed. The tables stay consistent.\<close>

theorem unblock_port_exact:
  assumes "rq_ok rq"
  shows "\<exists>rq'. unblock_port_tagged rq port tag = (rq', card {i. \<exists>t. holds rq i t \<and> port_wakes port tag t}) \<and> rq_ok rq'
    \<and> (\<forall>j u. holds rq' j u \<longleftrightarrow>
         (\<exists>t. holds rq j t \<and> u = (if port_wakes port tag t then make_ready (min_vruntime rq) t else t)))"
proof -
  let ?f = "\<lambda>t. if port_wakes port tag t then make_ready (min_vruntime rq) t else t"
  note sl = parked_slots_ok [OF assms]
  have pw: "i \<in> set (parked_slots rq)" if "holds rq i t" "port_wakes port tag t" for i t
    using sl(3) [OF that(1)] that(2) by (simp add: port_wakes_def wake_scannable_def)
  obtain rq' where w: "fold (unblock_step port tag (min_vruntime rq)) (parked_slots rq) (rq, 0)
      = (rq', fold (\<lambda>i n. if port_wakes port tag (task_of rq i) then n + 1 else n) (parked_slots rq) 0)" "rq_ok rq'"
      "\<And>j u. holds rq' j u \<longleftrightarrow> (\<exists>t. holds rq j t \<and> u = (if j \<in> set (parked_slots rq) then ?f t else t))"
    using walk_ok [OF unblock_step_ok [OF min_vruntime_le [of rq]] assms sl(1,2), where a = 0] by blast
  have "i \<in> set (parked_slots rq)" if "holds rq i t" "?f t \<noteq> t" for i t using pw that by metis
  then have "holds rq' j u \<longleftrightarrow> (\<exists>t. holds rq j t \<and> u = ?f t)" for j u unfolding w(3) by (rule walk_effect)
  then show ?thesis
    using w(1,2) card_filter_slots [OF sl(1) pw sl(2)] by (simp add: unblock_port_tagged_def count_fold)
qed

lemma blocked_task_queue:
  "\<exists>rq i t. rq_ok rq \<and> holds rq = (\<lambda>j u. j = i \<and> u = t)
    \<and> pid t = 5 \<and> state t = Blocked \<and> blocked_on t = Some 3 \<and> poll_mask t = 4 \<and> poll_deadline t = 100 \<and> blocked_futex t = 0"
proof -
  have "\<not> wake_scannable sample_task" by (simp add: sample_task_def wake_scannable_def)
  then obtain i rq where e: "rq_ok rq" "slot_changed rq_new rq i (Some (place sample_task (min_vruntime rq_new)))"
    using enqueue_ok [OF rq_new_ok sample_task_ok(1)] rq_new_find by (metis MAX_TASKS_def zero_less_numeral)
  then have h: "holds rq j u \<longleftrightarrow> j = i \<and> u = place sample_task (min_vruntime rq_new)" for j u
    by (auto simp: slot_changed_def rq_new_holds)
  let ?t = "place sample_task (min_vruntime rq_new)" and ?r = "block_on_port_until rq 5 3 100 4"
  let ?u = "?t\<lparr>state := Blocked, blocked_on := Some 3, poll_deadline := 100, poll_mask := 4\<rparr>"
  have "rq_ok ?r" "\<forall>j u. holds ?r j u \<longleftrightarrow> (if j = i then u = ?u else holds rq j u)"
    using block_ok [OF e(1), of i ?t 3 100 4] by (simp_all add: h sample_task_ok)
  then have "rq_ok ?r" "holds ?r = (\<lambda>j u. j = i \<and> u = ?u)" by (auto simp: fun_eq_iff h)
  then show ?thesis by (intro exI [of _ ?r] exI [of _ i] exI [of _ ?u]) (simp add: sample_task_def)
qed

theorem unblock_port_exact_witness:
  "\<exists>rq rq1 rq2. rq_ok rq \<and> unblock_port_tagged rq 3 (6::u64) = (rq1, 1) \<and> unblock_port_tagged rq 3 (8::u64) = (rq2, 0)
     \<and> (\<exists>i t. holds rq1 i t \<and> pid t = 5 \<and> state t = Ready)"
proof -
  obtain rq i t where rq: "rq_ok rq" and h: "holds rq = (\<lambda>j u. j = i \<and> u = t)"
    and t: "pid t = 5" "state t = Blocked" "blocked_on t = Some 3" "poll_mask t = 4"
    using blocked_task_queue by blast
  have w: "port_wakes 3 6 t" "\<not> port_wakes 3 8 t" using t by (simp_all add: port_wakes_def POLL_TAG_ALL_def)
  show ?thesis
    using rq unblock_port_exact [OF rq, of 3 6] unblock_port_exact [OF rq, of 3 8]
    by (auto simp: h w t make_ready_simps)
qed

text \<open>C25: The deadline tick releases every poll, kernel or timed futex waiter that is due and no
  other task: afterwards no waiter on the channel or on a futex has a deadline in the past. The
  deadline it reports back for the next tick is the earliest one that is left, or none.\<close>

theorem wake_due_exact:
  assumes "rq_ok rq"
  shows "\<exists>rq' next. wake_due_poll_deadlines rq port now tags = (rq', next, card {i. \<exists>t. holds rq i t \<and> due port now tags t})
    \<and> rq_ok rq'
    \<and> (\<forall>j u. holds rq' j u \<longleftrightarrow>
         (\<exists>t. holds rq j t \<and> u = (if due port now tags t then release_due port (min_vruntime rq) t else t)))
    \<and> (\<forall>j u. holds rq' j u \<and> awaits port u \<longrightarrow> now < poll_deadline u \<and> next \<le> poll_deadline u)
    \<and> (next = U64_MAX \<or> (\<exists>j u. holds rq' j u \<and> awaits port u \<and> next = poll_deadline u))"
proof -
  let ?f = "\<lambda>t. if due port now tags t then release_due port (min_vruntime rq) t else t"
  let ?W = "\<lambda>t. awaits port t \<and> \<not> due port now tags t"
  note sl = parked_slots_ok [OF assms]
  have pw: "i \<in> set (parked_slots rq)" if "holds rq i t" "due port now tags t" for i t
    using sl(3) [OF that(1)] that(2) by (simp add: due_def awaits_def)
  define acc where "acc = fold (\<lambda>i. due_acc port now tags (task_of rq i)) (parked_slots rq) (U64_MAX, 0)"
  obtain rq' where w: "wake_due_poll_deadlines rq port now tags = (rq', acc)" "rq_ok rq'"
      "\<And>j u. holds rq' j u \<longleftrightarrow> (\<exists>t. holds rq j t \<and> u = (if j \<in> set (parked_slots rq) then ?f t else t))"
    using walk_ok [OF due_step_ok [OF min_vruntime_le [of rq]] assms sl(1,2), where a = "(U64_MAX, 0)"]
    unfolding wake_due_poll_deadlines_def acc_def by blast
  have "i \<in> set (parked_slots rq)" if "holds rq i t" "?f t \<noteq> t" for i t using pw that by metis
  then have h: "holds rq' j u \<longleftrightarrow> (\<exists>t. holds rq j t \<and> u = ?f t)" for j u unfolding w(3) by (rule walk_effect)
  note f = due_acc_fold [OF refl, of port now tags "task_of rq" "parked_slots rq" U64_MAX 0, folded acc_def]
  have nxt: "snd acc = card {i. \<exists>t. holds rq i t \<and> due port now tags t}"
    using f card_filter_slots [OF sl(1) pw sl(2)] by simp
  have rel: "\<not> awaits port (release_due port mv t)" for mv t
    by (simp add: awaits_def wake_scannable_def release_due_simps(3))
  have left: "(\<exists>u. holds rq' j u \<and> awaits port u \<and> Q u) \<longleftrightarrow> (\<exists>t. holds rq j t \<and> ?W t \<and> Q t)" for j Q
    unfolding h using rel by (auto split: if_splits)
  have rest: "holds rq j u \<and> ?W u" if "holds rq' j u" "awaits port u" for j u
    using that rel unfolding h by metis
  have tk: "task_of rq j = t" if "holds rq j t" for j t using that by (simp add: task_of_def holds_task_at)
  have par: "j \<in> set (parked_slots rq)" if "holds rq j t" "?W t" for j t
    using sl(3) [OF that(1)] that(2) by (simp add: awaits_def)
  have lb: "now < poll_deadline u \<and> fst acc \<le> poll_deadline u" if u: "holds rq' j u" "awaits port u" for j u
  proof
    have r: "holds rq j u" "?W u" using rest [OF u] by auto
    show "now < poll_deadline u" using r(2) by (auto simp: due_def is_due_def)
    show "fst acc \<le> poll_deadline u" using f par [OF r] r(2) tk [OF r(1)] by auto
  qed
  have eq: "fst acc = U64_MAX \<or> (\<exists>j u. holds rq' j u \<and> awaits port u \<and> fst acc = poll_deadline u)"
    using f sl(2) tk unfolding left by metis
  have "wake_due_poll_deadlines rq port now tags = (rq', fst acc, card {i. \<exists>t. holds rq i t \<and> due port now tags t})"
    by (simp add: w(1) flip: nxt)
  then show ?thesis using w(2) h lb eq by blast
qed

theorem wake_due_exact_witness:
  "\<exists>rq rq1 rq2 i t. rq_ok rq \<and> wake_due_poll_deadlines rq 3 99 0 = (rq1, 100, 0)
     \<and> wake_due_poll_deadlines rq 3 100 0 = (rq2, U64_MAX, 1) \<and> holds rq2 i t \<and> pid t = 5 \<and> state t = Ready"
proof -
  obtain rq i t where rq: "rq_ok rq" and h: "holds rq = (\<lambda>j u. j = i \<and> u = t)"
    and t: "pid t = 5" "state t = Blocked" "blocked_on t = Some 3" "poll_mask t = 4" "poll_deadline t = 100" "blocked_futex t = 0"
    using blocked_task_queue by blast
  have d: "\<not> due 3 99 0 t" "due 3 100 0 t" "awaits 3 t" "\<And>mv. \<not> awaits 3 (release_due 3 mv t)"
    using t by (simp_all add: due_def awaits_def is_due_def is_poll_def wake_scannable_def release_due_simps(3))
  have "U64_MAX \<noteq> 100" "\<not> U64_MAX \<le> 100" by (simp_all add: U64_MAX_def)
  then show ?thesis
    using rq wake_due_exact [OF rq, of 3 99 0] wake_due_exact [OF rq, of 3 100 0]
    by (auto simp: h d t release_due_simps)
qed

end
