(* ===== verification/Spec2Isabelle.thy ===== *)
theory Spec2Isabelle
  imports Kernel_Lib Buddy_Correct Ipc_Correct Capability Page_Vec Cow Vmm_View Run_Queue_Wake
begin

text \<open>
  Verification of the LeandrOS microkernel (Rust sources under \<open>src/\<close>).

  \<^bold>\<open>The program.\<close> The kernel manages physical pages with a buddy allocator, gives each process an
  address space built from them (lazy and eager regions, copy-on-write cloning, file mappings),
  runs tasks from one shared run queue, and connects processes by capabilities and message
  ports. The physical allocator is below everything; frame reference counts and the per-region
  frame tables are between it and the address spaces; the run queue and the ports are
  independent of both.

  \<^bold>\<open>Conventions.\<close> A \<open>usize\<close> or \<open>u64\<close> that is used as a number is a natural number with the 64-bit
  wrap-around written out (\<open>uadd\<close>, \<open>usub\<close>, \<open>umul\<close>, \<open>checked_add\<close> of \<open>Kernel_Prelude\<close>); one that is
  used as a set of bits is a machine word. A struct is a record, an enum a datatype. State is
  passed explicitly. An operation whose result type is an option outside the source's own
  option returns \<open>None\<close> when the code does not return (an index panic, an abort on a corrupt
  list, a loop that never ends); the theorems state that it is \<open>Some\<close>. Locks are not modelled:
  every operation is one critical section of the source.

  \<^bold>\<open>The theories.\<close>
  \<^item> \<open>Kernel_Prelude\<close>, \<open>Fifo\<close>, \<open>Intrusive_List\<close>, \<open>Handle_Table\<close>: machine arithmetic, search by position,
    the interface of a bounded queue, of doubly linked lists threaded through memory and of a
    table of handles.
  \<^item> \<open>Kernel_Lib\<close>: \<open>lib/src\<close>, alignment, bitmap, ring buffer (an instance of the bounded queue).
  \<^item> \<open>Buddy\<close>: \<open>mm/src/buddy.rs\<close>. \<open>Buddy_Lists\<close> shows that the free lists in memory represent lists of
    blocks, \<open>Buddy_Blocks\<close> that these are disjoint, aligned, merged and outside the reserved
    ranges (\<open>buddy_ok b F\<close>: the free pages are exactly \<open>F\<close>), \<open>Buddy_Init\<close> that start-up puts exactly
    the usable pages in, \<open>Buddy_Correct\<close> has the properties and the allocator interface.
  \<^item> \<open>Page_Ref\<close> (\<open>mm/src/pageref.rs\<close>) and \<open>Page_Vec\<close> (\<open>mm/src/pagevec.rs\<close>): reference counts over the
    allocator; the chunked frame table refines a list of frames.
  \<^item> \<open>Vmm_Region\<close>, \<open>Vmm\<close>, \<open>Vmm_Range\<close> (\<open>mm/src/vmm.rs\<close>), \<open>Cow\<close> (\<open>mm/src/cow.rs\<close>): regions, mapping, page
    faults, range operations, teardown, cloning, over a machine record of the allocator, the
    reference counts, the page-table entries, memory, the page cache and the file references.
    \<open>Vmm_View\<close> abstracts an address space to the function from addresses to what is mapped there.
  \<^item> \<open>Slot_Set\<close>, \<open>Probe_Table\<close>, \<open>Task\<close>, \<open>Run_Queue\<close>: \<open>sched/src/runqueue.rs\<close>, the pid-to-tgid table of
    \<open>sched/src/lib.rs\<close> and the scheduling fields of \<open>sched/src/task.rs\<close>.
  \<^item> \<open>Capability\<close> (\<open>capability/src/lib.rs\<close>), \<open>Ipc_Port\<close>, \<open>Ipc_Correct\<close> (\<open>ipc/src\<close>): the capability table and
    the port table, an open-addressed table of bounded message queues.

  \<^bold>\<open>Bounds and fuel.\<close> Loops are structural or have a termination proof. Three have fuel. The list
  walks of the allocator have the number of pages; the invariant gives lists without
  repetition, so it is never used up. The backward shift of the pid tables has the table size; it
  stops at an empty place, which a quarter-full table has. The port scan has the table size,
  as the source's own loop bound.

  \<^bold>\<open>Not modelled.\<close> Interleaving inside a critical section and the memory model of the lock-free
  readers; device drivers, interrupt and boot code, the page-table formats of the architectures
  (an environment function says whether a page-table node could be allocated); the page cache
  beyond lookup and dirty marking; the file, network and terminal servers, the system call
  layer and user programs. They are hardware access, input/output, or rest on those.
\<close>

end
